(* ===== verification/Prelude.thy ===== *)
theory Prelude
  imports Main "HOL-Library.Word" "HOL-Library.Monad_Syntax"
begin

text \<open>
  What every component of the RinkOS model shares: the C integer types as words, C strings as
  the list of characters before the terminating NUL, bytes of multi-byte integers, and the
  generic lemmas on words, lists and function updates that the component proofs use; and the
  interfaces that several components have: bounded queues, event handlers, simulations.
\<close>

unbundle bit_operations_syntax

section \<open>Machine integers\<close>

type_synonym u8 = "8 word"
type_synonym u16 = "16 word"
type_synonym u32 = "32 word"

named_theorems word_nat \<comment> \<open>turns word equations and orders into equations and orders on \<open>nat\<close>\<close>

lemma unat_u8_less [simp]: "unat (x :: u8) < 256"
  using unsigned_less [of x] by simp

lemma unat_u16_less [simp]: "unat (x :: u16) < 65536"
  using unsigned_less [of x] by simp

lemma unat_u32_less [simp]: "unat (x :: u32) < 4294967296"
  using unsigned_less [of x] by simp

lemma unat_ucast_up: "LENGTH('a::len) \<le> LENGTH('b::len) \<Longrightarrow> unat (ucast (x :: 'a word) :: 'b word) = unat x"
  by (simp add: unsigned_ucast_eq take_bit_nat_eq_self_iff order_less_le_trans [OF unsigned_less])

lemma unat_ucast_16_32 [simp]: "unat (ucast (x :: u16) :: u32) = unat x"
  by (rule unat_ucast_up) simp

lemma unat_ucast_8_16 [simp]: "unat (ucast (x :: u8) :: u16) = unat x"
  by (rule unat_ucast_up) simp

lemma unat_ucast_8_32 [simp]: "unat (ucast (x :: u8) :: u32) = unat x"
  by (rule unat_ucast_up) simp

lemmas [word_nat] = word_less_nat_alt word_le_nat_alt word_unat_eq_iff

lemma unat_add_u32: "unat a + unat b < 4294967296 \<Longrightarrow> unat (a + b :: u32) = unat a + unat b"
  by (simp add: unat_word_ariths)

lemma unat_add_u16: "unat a + unat b < 65536 \<Longrightarrow> unat (a + b :: u16) = unat a + unat b"
  by (simp add: unat_word_ariths)

lemma unat_diff_u32: "b \<le> a \<Longrightarrow> unat (a - b :: u32) = unat a - unat b"
  by (simp add: unat_sub)

section \<open>C strings\<close>

text \<open>
  A pointer to a C string is the list of the characters before its terminator; reading the
  character at the end of the list is reading the NUL. \<open>cstr\<close> reads a character buffer that
  may hold a NUL as such a string.
\<close>

definition cstr :: "char list \<Rightarrow> string" where
  "cstr buf = takeWhile (\<lambda>c. c \<noteq> CHR 0x00) buf"

lemma cstr_id: "CHR 0x00 \<notin> set s \<Longrightarrow> cstr s = s"
  unfolding cstr_def by (simp add: takeWhile_eq_all_conv) blast

lemma nul_notin_cstr [simp]: "CHR 0x00 \<notin> set (cstr s)"
  unfolding cstr_def using set_takeWhileD by force

text \<open>The bounded copy of \<open>fs.c\<close>, \<open>shell.c\<close> and \<open>task.c\<close> (one loop, written three times
  in the source): at most \<open>max_len - 1\<close> characters and a terminator.\<close>

fun str_copy_n :: "string \<Rightarrow> nat \<Rightarrow> string" where
  "str_copy_n (c # src) (Suc (Suc k)) = c # str_copy_n src (Suc k)"
| "str_copy_n src max_len = []"

lemma str_copy_n_take: "str_copy_n s n = take (n - 1) s"
  by (induction s n rule: str_copy_n.induct) auto

lemma length_str_copy_n: "length (str_copy_n s n) = min (length s) (n - 1)"
  by (simp add: str_copy_n_take)

lemma str_copy_n_short: "length s < n \<Longrightarrow> str_copy_n s n = s"
  by (simp add: str_copy_n_take)

text \<open>The string comparison of \<open>fs.c\<close> and \<open>shell.c\<close>.\<close>

fun str_eq :: "string \<Rightarrow> string \<Rightarrow> bool" where
  "str_eq (a # as) (b # bs) = (if a \<noteq> b then False else str_eq as bs)"
| "str_eq [] [] = True"
| "str_eq _ _ = False"

lemma str_eq_iff [simp]: "str_eq a b \<longleftrightarrow> a = b"
  by (induction a b rule: str_eq.induct) auto

section \<open>Bytes and characters\<close>

definition byte_of :: "char \<Rightarrow> u8" where
  "byte_of c = of_char c"

definition char_of_byte :: "u8 \<Rightarrow> char" where
  "char_of_byte b = char_of (unat b)"

lemma unat_byte_of: "unat (byte_of c) = of_char c"
proof -
  have "byte_of c = of_nat (of_char c)"
    by (simp add: byte_of_def of_nat_of_char)
  then show ?thesis by (simp add: unat_of_nat)
qed

lemma char_of_byte_of [simp]: "char_of_byte (byte_of c) = c"
  by (simp add: char_of_byte_def unat_byte_of)

lemma byte_of_char_of [simp]: "byte_of (char_of_byte b) = b"
  by (simp add: word_unat_eq_iff unat_byte_of char_of_byte_def)

lemma byte_of_eq_iff [simp]: "byte_of c = byte_of d \<longleftrightarrow> c = d"
  by (metis char_of_byte_of)

section \<open>Little-endian integers\<close>

text \<open>The byte extractions and recombinations that the C code writes out.\<close>

definition lo8 :: "u16 \<Rightarrow> u8" where
  "lo8 v = ucast (v AND 0xFF)"

definition hi8 :: "u16 \<Rightarrow> u8" where
  "hi8 v = ucast (drop_bit 8 v AND 0xFF)"

definition le16 :: "u8 \<Rightarrow> u8 \<Rightarrow> u16" where
  "le16 lo hi = ucast lo OR push_bit 8 (ucast hi)"

lemma mask_255: "(0xFF :: 'a::len word) = mask 8"
  by (simp add: mask_eq_exp_minus_1)

lemma le16_lo8_hi8 [simp]: "le16 (lo8 v) (hi8 v) = v"
  by (rule bit_word_eqI) (auto simp: le16_def lo8_def hi8_def mask_255 bit_simps)

lemma lo8_le16 [simp]: "lo8 (le16 lo hi) = lo"
  by (rule bit_word_eqI) (auto simp: le16_def lo8_def mask_255 bit_simps)

lemma hi8_le16 [simp]: "hi8 (le16 lo hi) = hi"
  by (rule bit_word_eqI) (auto simp: le16_def hi8_def mask_255 bit_simps dest: bit_imp_le_length)

text \<open>A 32-bit integer is its low and its high half.\<close>

definition lo16 :: "u32 \<Rightarrow> u16" where
  "lo16 v = ucast v"

definition hi16 :: "u32 \<Rightarrow> u16" where
  "hi16 v = ucast (drop_bit 16 v)"

definition le32 :: "u16 \<Rightarrow> u16 \<Rightarrow> u32" where
  "le32 lo hi = ucast lo OR push_bit 16 (ucast hi)"

lemma le32_lo16_hi16 [simp]: "le32 (lo16 v) (hi16 v) = v"
  by (rule bit_word_eqI) (auto simp: le32_def lo16_def hi16_def bit_simps)

lemma lo16_le32 [simp]: "lo16 (le32 lo hi) = lo"
  by (rule bit_word_eqI) (auto simp: le32_def lo16_def bit_simps)

lemma hi16_le32 [simp]: "hi16 (le32 lo hi) = hi"
  by (rule bit_word_eqI) (auto simp: le32_def hi16_def bit_simps dest: bit_imp_le_length)

section \<open>Port output\<close>

text \<open>The device writes (\<open>outb(port, value)\<close>) that a routine issues, in order.\<close>

type_synonym port_out = "(u16 \<times> u8) list"

text \<open>End of interrupt, as both interrupt handlers send it to the first PIC.\<close>

definition EOI :: port_out where
  "EOI = [(0x20, 0x20)]"

section \<open>A bounded first-in first-out buffer as an interface\<close>

text \<open>
  What a producer and a consumer that share a bounded buffer rely on: the contents are a list,
  \<open>push\<close> appends while there is room and drops otherwise, \<open>pop\<close> takes the first element.
\<close>

datatype 'a fifo_op = Push 'a | Pop

fun fifo_run :: "('a \<Rightarrow> 'q \<Rightarrow> 'q) \<Rightarrow> ('q \<Rightarrow> ('a \<times> 'q) option) \<Rightarrow> 'a fifo_op list \<Rightarrow> 'q \<Rightarrow> 'a list \<times> 'q" where
  "fifo_run push pop [] q = ([], q)"
| "fifo_run push pop (Push x # ops) q = fifo_run push pop ops (push x q)"
| "fifo_run push pop (Pop # ops) q =
     (case pop q of
        None \<Rightarrow> fifo_run push pop ops q
      | Some (x, q') \<Rightarrow> (let (out, q'') = fifo_run push pop ops q' in (x # out, q'')))"

text \<open>The inputs a buffer of capacity \<open>cap\<close> accepts over a run that starts with \<open>n\<close> elements.\<close>

fun fifo_accepted :: "nat \<Rightarrow> 'a fifo_op list \<Rightarrow> nat \<Rightarrow> 'a list" where
  "fifo_accepted cap [] n = []"
| "fifo_accepted cap (Push x # ops) n =
     (if n < cap then x # fifo_accepted cap ops (Suc n) else fifo_accepted cap ops n)"
| "fifo_accepted cap (Pop # ops) n = fifo_accepted cap ops (n - 1)"

locale bounded_fifo =
  fixes push :: "'a \<Rightarrow> 'q \<Rightarrow> 'q"
    and pop :: "'q \<Rightarrow> ('a \<times> 'q) option"
    and contents :: "'q \<Rightarrow> 'a list"
    and invar :: "'q \<Rightarrow> bool"
    and cap :: nat
  assumes push_contents:
      "invar q \<Longrightarrow> contents (push x q) = (if length (contents q) < cap then contents q @ [x] else contents q)"
    and push_invar: "invar q \<Longrightarrow> invar (push x q)"
    and pop_None: "invar q \<Longrightarrow> pop q = None \<longleftrightarrow> contents q = []"
    and pop_Some: "invar q \<Longrightarrow> pop q = Some (x, q') \<Longrightarrow> contents q = x # contents q' \<and> invar q'"
begin

lemma run_invar: "invar q \<Longrightarrow> invar (snd (fifo_run push pop ops q))"
proof (induction ops arbitrary: q)
  case (Cons a ops)
  then show ?case
    by (cases a) (auto simp: push_invar split: option.splits prod.splits dest: pop_Some,
      metis pop_Some snd_conv)
qed simp

lemma run_order:
  "invar q \<Longrightarrow> contents q @ fifo_accepted cap ops (length (contents q))
     = fst (fifo_run push pop ops q) @ contents (snd (fifo_run push pop ops q))"
proof (induction ops arbitrary: q)
  case Nil
  then show ?case by simp
next
  case (Cons a ops)
  show ?case
  proof (cases a)
    case (Push x)
    with Cons.IH [of "push x q"] Cons.prems show ?thesis
      by (simp add: push_invar push_contents split: if_splits)
  next
    case Pop
    show ?thesis
    proof (cases "pop q")
      case None
      with Cons.prems have "contents q = []" by (simp add: pop_None)
      with Pop None Cons.IH [OF Cons.prems] show ?thesis by simp
    next
      case (Some r)
      obtain x q' where r: "r = (x, q')" by (cases r)
      from pop_Some [OF Cons.prems] Some r have q': "contents q = x # contents q'" "invar q'" by auto
      with Pop Some r Cons.IH [of q'] show ?thesis
        by (simp split: prod.splits)
    qed
  qed
qed

end

section \<open>Running a component on a sequence of events\<close>

text \<open>A component that reacts to events: \<open>None\<close> is an event whose handling never returns. When every allowed event
  returns and keeps the invariant, so does every sequence of them.\<close>

fun run_steps :: "('e \<Rightarrow> 's \<Rightarrow> 's option) \<Rightarrow> 'e list \<Rightarrow> 's \<Rightarrow> 's option" where
  "run_steps f [] s = Some s"
| "run_steps f (e # es) s = (case f e s of None \<Rightarrow> None | Some s' \<Rightarrow> run_steps f es s')"

lemma run_steps_append: "run_steps f (es @ fs) s = (case run_steps f es s of None \<Rightarrow> None | Some s' \<Rightarrow> run_steps f fs s')"
  by (induction es arbitrary: s) (auto split: option.splits)

locale reactive =
  fixes react :: "'e \<Rightarrow> 's \<Rightarrow> 's option"
    and invar :: "'s \<Rightarrow> bool"
    and allowed :: "'e \<Rightarrow> bool"
  assumes react_kept: "invar s \<Longrightarrow> allowed e \<Longrightarrow> \<exists>s'. react e s = Some s' \<and> invar s'"
begin

lemma run_kept: "invar s \<Longrightarrow> list_all allowed es \<Longrightarrow> \<exists>s'. run_steps react es s = Some s' \<and> invar s'"
proof (induction es arbitrary: s)
  case (Cons e es)
  then obtain s1 where "react e s = Some s1" "invar s1" using react_kept [of s e] by auto
  with Cons.IH [of s1] Cons.prems(2) show ?case by simp
qed simp

text \<open>A quantity that no step decreases.\<close>

lemma run_mono:
  fixes measure :: "'s \<Rightarrow> nat"
  assumes "\<And>s s' e. invar s \<Longrightarrow> allowed e \<Longrightarrow> react e s = Some s' \<Longrightarrow> measure s \<le> measure s'"
  shows "invar s \<Longrightarrow> list_all allowed es \<Longrightarrow> run_steps react es s = Some s' \<Longrightarrow> measure s \<le> measure s'"
proof (induction es arbitrary: s)
  case (Cons e es)
  obtain s1 where s1: "react e s = Some s1" "invar s1" using react_kept [of s e] Cons.prems by auto
  with Cons have "measure s \<le> measure s1" "measure s1 \<le> measure s'" using assms [of s e s1] by auto
  then show ?case by (rule le_trans)
qed simp

end

section \<open>Following a specification\<close>

text \<open>A component follows a specification when each of its steps keeps it related to the specification's step.\<close>

locale simulation =
  fixes step :: "'e \<Rightarrow> 's \<Rightarrow> 's"
    and spec :: "'e \<Rightarrow> 'a \<Rightarrow> 'a"
    and follows :: "'s \<Rightarrow> 'a \<Rightarrow> bool"
  assumes step_follows: "follows s a \<Longrightarrow> follows (step e s) (spec e a)"
begin

lemma run_follows: "follows s a \<Longrightarrow> follows (fold step es s) (fold spec es a)"
  by (induction es arbitrary: s a) (simp_all add: step_follows)

end

end
