(* ===== verification/Keyboard.thy ===== *)
theory Keyboard
  imports Prelude
begin

text \<open>
  The keyboard driver of \<open>kernel/keyboard.c\<close>: the two scancode tables, the ring buffer between
  the interrupt handler and \<open>keyboard_getchar\<close>, and the handler itself with its shift and
  caps-lock state. The ring buffer is shown to refine a bounded first-in first-out list.
\<close>

section \<open>State and tables\<close>

definition KEYBOARD_BUFFER_SIZE :: nat where
  "KEYBOARD_BUFFER_SIZE = 128"

record keyboard =
  keyboard_buffer :: "char list"
  buffer_read :: nat
  buffer_write :: nat
  shift_pressed :: bool
  capslock_on :: bool

text \<open>The driver's static variables at start-up.\<close>

definition keyboard_initial :: keyboard where
  "keyboard_initial = \<lparr>keyboard_buffer = replicate KEYBOARD_BUFFER_SIZE CHR 0x00,
     buffer_read = 0, buffer_write = 0, shift_pressed = False, capslock_on = False\<rparr>"

definition SC_LSHIFT_DOWN :: u8 where "SC_LSHIFT_DOWN = 0x2A"
definition SC_RSHIFT_DOWN :: u8 where "SC_RSHIFT_DOWN = 0x36"
definition SC_LSHIFT_UP :: u8 where "SC_LSHIFT_UP = 0xAA"
definition SC_RSHIFT_UP :: u8 where "SC_RSHIFT_UP = 0xB6"
definition SC_CAPSLOCK :: u8 where "SC_CAPSLOCK = 0x3A"

lemmas scancode_defs = SC_LSHIFT_DOWN_def SC_RSHIFT_DOWN_def SC_LSHIFT_UP_def SC_RSHIFT_UP_def
  SC_CAPSLOCK_def

text \<open>Both tables have 128 entries; those the initialiser does not list are 0.\<close>

definition keyboard_map :: "char list" where
  "keyboard_map =
     [CHR 0x00, CHR 0x1B] @ ''1234567890-='' @ [CHR 0x08, CHR 0x09] @
     ''qwertyuiop[]'' @ [CHR 0x0A, CHR 0x00] @
     ''asdfghjkl;'' @ [CHR 0x27, CHR 0x60, CHR 0x00, CHR 0x5C] @
     ''zxcvbnm,./'' @ [CHR 0x00, CHR 0x2A, CHR 0x00] @
     '' '' @ replicate 70 CHR 0x00"

definition keyboard_map_shift :: "char list" where
  "keyboard_map_shift =
     [CHR 0x00, CHR 0x1B] @ ''!@#$%^&*()_+'' @ [CHR 0x08, CHR 0x09] @
     ''QWERTYUIOP{}'' @ [CHR 0x0A, CHR 0x00] @
     ''ASDFGHJKL:'' @ [CHR 0x22, CHR 0x7E, CHR 0x00, CHR 0x7C] @
     ''ZXCVBNM<>?'' @ [CHR 0x00, CHR 0x2A, CHR 0x00] @
     '' '' @ replicate 70 CHR 0x00"

lemma length_keyboard_map: "length keyboard_map = 128" "length keyboard_map_shift = 128"
  by (simp_all add: keyboard_map_def keyboard_map_shift_def)

definition is_letter :: "char \<Rightarrow> bool" where
  "is_letter c \<longleftrightarrow> (of_char c :: nat) \<ge> of_char (CHR ''a'') \<and> (of_char c :: nat) \<le> of_char (CHR ''z'')"

section \<open>The ring buffer\<close>

definition keyboard_push :: "char \<Rightarrow> keyboard \<Rightarrow> keyboard" where
  "keyboard_push c k =
     (let next = (buffer_write k + 1) mod KEYBOARD_BUFFER_SIZE in
      if next \<noteq> buffer_read k
      then k\<lparr>keyboard_buffer := (keyboard_buffer k)[buffer_write k := c], buffer_write := next\<rparr>
      else k)"

text \<open>\<open>None\<close>: the buffer is empty and the caller sleeps in \<open>hlt\<close> until an interrupt fills it.\<close>

definition keyboard_getchar :: "keyboard \<Rightarrow> (char \<times> keyboard) option" where
  "keyboard_getchar k =
     (if buffer_read k = buffer_write k then None
      else Some (keyboard_buffer k ! buffer_read k,
                 k\<lparr>buffer_read := (buffer_read k + 1) mod KEYBOARD_BUFFER_SIZE\<rparr>))"

section \<open>The interrupt handler\<close>

text \<open>\<open>scancode\<close> is the byte read from port \<open>0x60\<close>; the result holds the port writes.\<close>

definition keyboard_handler :: "u8 \<Rightarrow> keyboard \<Rightarrow> keyboard \<times> port_out" where
  "keyboard_handler scancode k =
     (if scancode = SC_LSHIFT_DOWN \<or> scancode = SC_RSHIFT_DOWN then (k\<lparr>shift_pressed := True\<rparr>, EOI)
      else if scancode = SC_LSHIFT_UP \<or> scancode = SC_RSHIFT_UP then (k\<lparr>shift_pressed := False\<rparr>, EOI)
      else if scancode = SC_CAPSLOCK then (k\<lparr>capslock_on := \<not> capslock_on k\<rparr>, EOI)
      else if scancode AND 0x80 \<noteq> 0 then (k, EOI)
      else if scancode < 128 then
        (let i = unat scancode;
             c = (if shift_pressed k then keyboard_map_shift ! i else keyboard_map ! i);
             c = (if capslock_on k \<and> is_letter (keyboard_map ! i)
                  then (if shift_pressed k then keyboard_map ! i else keyboard_map_shift ! i)
                  else c)
         in (if c \<noteq> CHR 0x00 then keyboard_push c k else k, EOI))
      else (k, EOI))"

section \<open>The ring buffer refines a bounded list\<close>

definition keyboard_wf :: "keyboard \<Rightarrow> bool" where
  "keyboard_wf k \<longleftrightarrow> length (keyboard_buffer k) = KEYBOARD_BUFFER_SIZE
     \<and> buffer_read k < KEYBOARD_BUFFER_SIZE \<and> buffer_write k < KEYBOARD_BUFFER_SIZE"

definition pending_count :: "keyboard \<Rightarrow> nat" where
  "pending_count k = (buffer_write k + KEYBOARD_BUFFER_SIZE - buffer_read k) mod KEYBOARD_BUFFER_SIZE"

definition pending :: "keyboard \<Rightarrow> char list" where
  "pending k = map (\<lambda>i. keyboard_buffer k ! ((buffer_read k + i) mod KEYBOARD_BUFFER_SIZE)) [0..<pending_count k]"

lemma length_pending [simp]: "length (pending k) = pending_count k"
  by (simp add: pending_def)

lemma keyboard_wf_initial: "keyboard_wf keyboard_initial"
  by (simp add: keyboard_wf_def keyboard_initial_def KEYBOARD_BUFFER_SIZE_def)

lemma keyboard_push_wf: "keyboard_wf k \<Longrightarrow> keyboard_wf (keyboard_push c k)"
  by (simp add: keyboard_wf_def keyboard_push_def Let_def KEYBOARD_BUFFER_SIZE_def)

lemma pending_count_cases:
  assumes "keyboard_wf k"
  shows "pending_count k = (if buffer_read k \<le> buffer_write k then buffer_write k - buffer_read k
           else buffer_write k + 128 - buffer_read k)"
  using assms by (auto simp: keyboard_wf_def pending_count_def KEYBOARD_BUFFER_SIZE_def mod_if)

lemma next_is_read_iff:
  assumes "keyboard_wf k"
  shows "(buffer_write k + 1) mod 128 = buffer_read k \<longleftrightarrow> pending_count k = 127"
  using assms by (auto simp: pending_count_cases keyboard_wf_def KEYBOARD_BUFFER_SIZE_def mod_if split: if_splits)

lemma ring_wrap: "n < 256 \<Longrightarrow> n mod 128 = (if n < 128 then n else n - (128::nat))"
  by (simp add: mod_if)

lemma ring_index:
  assumes "keyboard_wf k" "i < pending_count k"
  shows "(buffer_read k + i) mod 128 \<noteq> buffer_write k"
  using assms pending_count_cases [OF assms(1)]
  by (auto simp: ring_wrap keyboard_wf_def KEYBOARD_BUFFER_SIZE_def split: if_splits)

lemma pending_push:
  assumes wf: "keyboard_wf k"
  shows "pending (keyboard_push c k) = (if length (pending k) < 127 then pending k @ [c] else pending k)"
proof (cases "pending_count k < 127")
  case True
  let ?n = "(buffer_write k + 1) mod 128"
  have ne: "?n \<noteq> buffer_read k" using next_is_read_iff [OF wf] True by simp
  have push: "keyboard_push c k = k\<lparr>keyboard_buffer := (keyboard_buffer k)[buffer_write k := c], buffer_write := ?n\<rparr>"
    using ne by (simp add: keyboard_push_def KEYBOARD_BUFFER_SIZE_def)
  have n: "?n = (if buffer_write k = 127 then 0 else buffer_write k + 1)"
    using wf by (simp add: keyboard_wf_def KEYBOARD_BUFFER_SIZE_def mod_if)
  have wfp: "keyboard_wf (keyboard_push c k)" by (rule keyboard_push_wf [OF wf])
  have cnt: "pending_count (keyboard_push c k) = Suc (pending_count k)"
    using pending_count_cases [OF wfp] ne wf True unfolding push n
    by (simp add: pending_count_cases [OF wf] keyboard_wf_def KEYBOARD_BUFFER_SIZE_def split: if_splits)
  have last: "(buffer_read k + pending_count k) mod 128 = buffer_write k"
    using wf by (simp add: pending_count_cases [OF wf] keyboard_wf_def KEYBOARD_BUFFER_SIZE_def)
  have others: "(buffer_read k + i) mod 128 \<noteq> buffer_write k" if "i < pending_count k" for i
    using ring_index [OF wf that] .
  have read: "buffer_read (keyboard_push c k) = buffer_read k"
    and buf: "keyboard_buffer (keyboard_push c k) = (keyboard_buffer k)[buffer_write k := c]"
    by (simp_all add: push)
  have len: "buffer_write k < length (keyboard_buffer k)"
    using wf by (simp add: keyboard_wf_def)
  show ?thesis
    using True last others len
    by (simp add: pending_def cnt read buf KEYBOARD_BUFFER_SIZE_def nth_list_update)
      (metis atLeastLessThan_iff)
next
  case False
  have "pending_count k < 128"
    by (simp add: pending_count_def KEYBOARD_BUFFER_SIZE_def)
  with False have "pending_count k = 127" by simp
  with next_is_read_iff [OF wf] have "(buffer_write k + 1) mod 128 = buffer_read k" by blast
  then have "keyboard_push c k = k"
    by (simp add: keyboard_push_def KEYBOARD_BUFFER_SIZE_def)
  with False show ?thesis by simp
qed

lemma getchar_None: "keyboard_wf k \<Longrightarrow> keyboard_getchar k = None \<longleftrightarrow> pending k = []"
  by (auto simp: keyboard_getchar_def pending_def pending_count_cases keyboard_wf_def KEYBOARD_BUFFER_SIZE_def)

lemma getchar_Some:
  assumes wf: "keyboard_wf k" and get: "keyboard_getchar k = Some (c, k')"
  shows "pending k = c # pending k' \<and> keyboard_wf k'"
proof -
  from get have ne: "buffer_read k \<noteq> buffer_write k" and c: "c = keyboard_buffer k ! buffer_read k"
    and k': "k' = k\<lparr>buffer_read := (buffer_read k + 1) mod 128\<rparr>"
    by (auto simp: keyboard_getchar_def KEYBOARD_BUFFER_SIZE_def split: if_splits)
  have wf': "keyboard_wf k'" using wf by (simp add: k' keyboard_wf_def KEYBOARD_BUFFER_SIZE_def)
  have cnt: "pending_count k = Suc (pending_count k')"
    using pending_count_cases [OF wf] pending_count_cases [OF wf'] wf ne
    by (auto simp: k' keyboard_wf_def KEYBOARD_BUFFER_SIZE_def mod_if split: if_splits)
  have step: "((buffer_read k + 1) mod 128 + i) mod 128 = (buffer_read k + Suc i) mod 128" for i
    by (simp add: mod_simps)
  have "buffer_read k mod 128 = buffer_read k" using wf by (simp add: keyboard_wf_def KEYBOARD_BUFFER_SIZE_def)
  then have "pending k = c # map (\<lambda>i. keyboard_buffer k ! ((buffer_read k + Suc i) mod 128)) [0..<pending_count k']"
    by (simp add: pending_def cnt upt_conv_Cons map_Suc_upt [symmetric] c KEYBOARD_BUFFER_SIZE_def del: upt_Suc)
  then have "pending k = c # pending k'"
    by (simp only: pending_def KEYBOARD_BUFFER_SIZE_def step [symmetric]) (simp add: k')
  with wf' show ?thesis by blast
qed

interpretation kbd: bounded_fifo keyboard_push keyboard_getchar pending keyboard_wf 127
  by unfold_locales (simp_all add: pending_push keyboard_push_wf getchar_None getchar_Some)

section \<open>Key decoding\<close>

text \<open>C23. The ring buffer loses nothing it accepts and reorders nothing: over any interleaving of
  \<open>keyboard_push\<close> and \<open>keyboard_getchar\<close>, the characters read so far followed by those still
  buffered are the ones buffered before followed by those accepted, where a push is accepted as long
  as fewer than 127 characters wait.\<close>

theorem keyboard_fifo_order:
  assumes "keyboard_wf k"
  shows "pending k @ fifo_accepted 127 ops (length (pending k))
    = fst (fifo_run keyboard_push keyboard_getchar ops k)
      @ pending (snd (fifo_run keyboard_push keyboard_getchar ops k))"
  using assms by (rule kbd.run_order)

theorem keyboard_fifo_order_witness:
  "fst (fifo_run keyboard_push keyboard_getchar [Push CHR ''l'', Push CHR ''s'', Pop] keyboard_initial) = ''l''
   \<and> pending (snd (fifo_run keyboard_push keyboard_getchar [Push CHR ''l'', Push CHR ''s'', Pop] keyboard_initial)) = ''s''"
proof -
  let ?ops = "[Push CHR ''l'', Push CHR ''s'', Pop]"
  have out: "fst (fifo_run keyboard_push keyboard_getchar ?ops keyboard_initial) = ''l''"
    by (simp add: keyboard_push_def keyboard_getchar_def keyboard_initial_def KEYBOARD_BUFFER_SIZE_def Let_def)
  have "pending keyboard_initial = []"
    by (simp add: pending_def pending_count_def keyboard_initial_def)
  with keyboard_fifo_order [OF keyboard_wf_initial, of ?ops] out show ?thesis by simp
qed

text \<open>The letters' scancodes: the shifted table holds the upper-case letter of the plain one
  (ASCII: 32 below).\<close>

definition upper_of :: "char \<Rightarrow> char \<Rightarrow> bool" where
  "upper_of b a \<longleftrightarrow> of_char b + 32 = (of_char a :: nat)"

lemma letter_tables_zip:
  "list_all2 (\<lambda>a b. is_letter a \<longrightarrow> upper_of b a \<and> b \<noteq> CHR 0x00) keyboard_map keyboard_map_shift"
  by (simp add: keyboard_map_def keyboard_map_shift_def is_letter_def upper_of_def list_all2_same)

lemma letter_tables:
  assumes "i < 128" "is_letter (keyboard_map ! i)"
  shows "upper_of (keyboard_map_shift ! i) (keyboard_map ! i)" "keyboard_map_shift ! i \<noteq> CHR 0x00"
  using list_all2_nthD [OF letter_tables_zip, of i] assms by (simp_all add: length_keyboard_map)

lemma modifier_keys_unmapped:
  "keyboard_map ! 0x2A = CHR 0x00" "keyboard_map ! 0x36 = CHR 0x00" "keyboard_map ! 0x3A = CHR 0x00"
  by (simp_all add: keyboard_map_def)

lemma release_bit_clear: "sc < 128 \<Longrightarrow> (sc :: u8) AND 0x80 = 0"
proof -
  assume "sc < 128"
  then have "unat sc < 2 ^ 7" by (simp add: word_less_nat_alt)
  then have "\<not> bit (unat sc) 7" by (metis bit_take_bit_iff less_irrefl take_bit_nat_eq_self_iff)
  then have "\<not> bit sc 7" by (simp add: bit_unsigned_iff)
  then have "\<not> (bit sc n \<and> bit (0x80 :: u8) n)" for n
    using bit_exp_iff [where 'a = u8, of 7 n] by auto
  then show ?thesis by (intro bit_word_eqI) (simp add: bit_and_iff)
qed

lemma scancode_not_modifier:
  assumes "sc < 128" "keyboard_map ! unat sc \<noteq> CHR 0x00"
  shows "sc \<noteq> SC_LSHIFT_DOWN" "sc \<noteq> SC_RSHIFT_DOWN" "sc \<noteq> SC_LSHIFT_UP" "sc \<noteq> SC_RSHIFT_UP"
    "sc \<noteq> SC_CAPSLOCK"
  using assms modifier_keys_unmapped by (auto simp: scancode_defs)

text \<open>A letter key pushes the upper-case letter exactly when one of shift and caps lock is
  active (caps lock and shift cancel), every press is acknowledged with one end-of-interrupt, and
  no other state changes.\<close>

theorem keyboard_letter_case:
  assumes "sc < 128" and letter: "is_letter (keyboard_map ! unat sc)"
  shows "\<exists>c. upper_of (keyboard_map_shift ! unat sc) (keyboard_map ! unat sc)
    \<and> c = (if shift_pressed k \<noteq> capslock_on k then keyboard_map_shift ! unat sc else keyboard_map ! unat sc)
    \<and> keyboard_handler sc k = (keyboard_push c k, EOI)"
proof -
  have lt: "unat sc < 128" using assms(1) by (simp add: word_less_nat_alt)
  have nz: "keyboard_map ! unat sc \<noteq> CHR 0x00" using letter by (auto simp: is_letter_def)
  show ?thesis
    using letter_tables [OF lt letter] scancode_not_modifier [OF assms(1) nz] release_bit_clear [OF assms(1)]
      nz letter assms(1)
    by (cases "shift_pressed k"; cases "capslock_on k") (simp_all add: keyboard_handler_def Let_def)
qed

theorem keyboard_letter_case_witness:
  "keyboard_handler 0x1E (keyboard_initial\<lparr>capslock_on := True\<rparr>)
     = (keyboard_push CHR ''A'' (keyboard_initial\<lparr>capslock_on := True\<rparr>), EOI)"
  using keyboard_letter_case [of "0x1E" "keyboard_initial\<lparr>capslock_on := True\<rparr>"]
  by (simp add: keyboard_map_def keyboard_map_shift_def is_letter_def keyboard_initial_def)

end
