(* ===== verification/Disk.thy ===== *)
theory Disk
  imports Prelude
begin

text \<open>
  The disk as the file system sees it (\<open>kernel/scr/disk.h\<close>): sectors of 512 bytes addressed by
  LBA, and the layout constants of \<open>kernel/scr/fs.h\<close>. A sector buffer is a function from the byte
  index; the file system only uses indices below 512.
\<close>

section \<open>Sectors\<close>

type_synonym sector = "nat \<Rightarrow> u8"
type_synonym disk = "u32 \<Rightarrow> sector"

text \<open>Both driver calls always return 0 in the source, and no caller looks at the result.\<close>

definition disk_read_sector :: "disk \<Rightarrow> u32 \<Rightarrow> sector" where
  "disk_read_sector d lba = d lba"

definition disk_write_sector :: "disk \<Rightarrow> u32 \<Rightarrow> sector \<Rightarrow> disk" where
  "disk_write_sector d lba buf = d(lba := buf)"

definition zero_sector :: sector where
  "zero_sector = (\<lambda>i. 0)"

lemma zero_sector_apply [simp]: "zero_sector i = 0"
  by (simp add: zero_sector_def)

text \<open>What a client of the block device relies on, and what follows for runs of writes.\<close>

locale block_store =
  fixes rd :: "'d \<Rightarrow> u32 \<Rightarrow> sector"
    and wr :: "'d \<Rightarrow> u32 \<Rightarrow> sector \<Rightarrow> 'd"
  assumes rd_wr: "rd (wr d lba buf) lba' = (if lba' = lba then buf else rd d lba')"
begin

lemma rd_write_run:
  "rd (fold (\<lambda>i d. wr d (f i) (g i)) is d) lba
     = (case find (\<lambda>i. f i = lba) (rev is) of None \<Rightarrow> rd d lba | Some i \<Rightarrow> g i)"
proof (induction "is" rule: rev_induct)
  case (snoc i "is")
  then show ?case by (simp add: rd_wr)
qed simp

lemma rd_write_run_other:
  "(\<And>i. i \<in> set is \<Longrightarrow> f i \<noteq> lba) \<Longrightarrow> rd (fold (\<lambda>i d. wr d (f i) (g i)) is d) lba = rd d lba"
  by (induction "is" rule: rev_induct) (auto simp: rd_wr)

lemma rd_write_run_hit:
  "i \<in> set is \<Longrightarrow> inj_on f (set is) \<Longrightarrow> rd (fold (\<lambda>i d. wr d (f i) (g i)) is d) (f i) = g i"
proof (induction "is" rule: rev_induct)
  case (snoc j "is")
  then show ?case
    by (cases "i = j") (auto simp: rd_wr inj_on_def)
qed simp

end

interpretation dsk: block_store disk_read_sector disk_write_sector
  by unfold_locales (simp add: disk_read_sector_def disk_write_sector_def)

lemmas disk_simps = disk_read_sector_def disk_write_sector_def

section \<open>Volume layout\<close>

definition FS_IMAGE_TOTAL_SECTORS :: nat where "FS_IMAGE_TOTAL_SECTORS = 16384"
definition FS_VOL_START_LBA :: nat where "FS_VOL_START_LBA = 300"
definition FS_BOOT_LBA :: nat where "FS_BOOT_LBA = FS_VOL_START_LBA"
definition FS_BYTES_PER_SECTOR :: nat where "FS_BYTES_PER_SECTOR = 512"
definition FS_SECTORS_PER_CLUSTER :: nat where "FS_SECTORS_PER_CLUSTER = 1"
definition FS_NUM_FATS :: nat where "FS_NUM_FATS = 2"
definition FS_FAT_SIZE_SECTORS :: nat where "FS_FAT_SIZE_SECTORS = 63"
definition FS_FAT1_LBA :: nat where "FS_FAT1_LBA = FS_VOL_START_LBA + 1"
definition FS_FAT2_LBA :: nat where "FS_FAT2_LBA = FS_FAT1_LBA + FS_FAT_SIZE_SECTORS"
definition FS_ROOT_ENTRIES :: nat where "FS_ROOT_ENTRIES = 128"
definition FS_ROOT_DIR_SECTORS :: nat where "FS_ROOT_DIR_SECTORS = (FS_ROOT_ENTRIES * 32) div FS_BYTES_PER_SECTOR"
definition FS_ROOT_LBA :: nat where "FS_ROOT_LBA = FS_FAT2_LBA + FS_FAT_SIZE_SECTORS"
definition FS_DATA_LBA :: nat where "FS_DATA_LBA = FS_ROOT_LBA + FS_ROOT_DIR_SECTORS"
definition FS_FIRST_DATA_CLUSTER :: nat where "FS_FIRST_DATA_CLUSTER = 2"
definition FS_TOTAL_DATA_CLUSTERS :: nat where "FS_TOTAL_DATA_CLUSTERS = FS_IMAGE_TOTAL_SECTORS - FS_DATA_LBA"
definition FS_ENTRIES_PER_CLUSTER :: nat where "FS_ENTRIES_PER_CLUSTER = FS_BYTES_PER_SECTOR div 32"
definition FS_CLUSTER_FREE :: u16 where "FS_CLUSTER_FREE = 0x0000"
definition FS_CLUSTER_BAD :: u16 where "FS_CLUSTER_BAD = 0xFFF7"
definition FS_CLUSTER_EOC :: u16 where "FS_CLUSTER_EOC = 0xFFFF"
definition FS_CLUSTER_EOC_MIN :: u16 where "FS_CLUSTER_EOC_MIN = 0xFFF8"
definition FS_DIRENT_FREE :: u8 where "FS_DIRENT_FREE = 0x00"
definition FS_DIRENT_DELETED :: u8 where "FS_DIRENT_DELETED = 0xE5"
definition FS_ATTR_NORMAL :: u8 where "FS_ATTR_NORMAL = 0x20"
definition FS_ATTR_DIRECTORY :: u8 where "FS_ATTR_DIRECTORY = 0x10"
definition FS_NAME_FIELD_LEN :: nat where "FS_NAME_FIELD_LEN = 8"
definition FS_EXT_FIELD_LEN :: nat where "FS_EXT_FIELD_LEN = 3"
definition FS_COMPONENT_LEN :: nat where "FS_COMPONENT_LEN = 13"

text \<open>The numbers they stand for; the simplifier works with these.\<close>

lemma layout_values [simp]:
  "FS_IMAGE_TOTAL_SECTORS = 16384" "FS_VOL_START_LBA = 300" "FS_BOOT_LBA = 300"
  "FS_BYTES_PER_SECTOR = 512" "FS_SECTORS_PER_CLUSTER = 1" "FS_NUM_FATS = 2" "FS_FAT_SIZE_SECTORS = 63"
  "FS_FAT1_LBA = 301" "FS_FAT2_LBA = 364" "FS_ROOT_ENTRIES = 128" "FS_ROOT_DIR_SECTORS = 8"
  "FS_ROOT_LBA = 427" "FS_DATA_LBA = 435" "FS_FIRST_DATA_CLUSTER = 2" "FS_TOTAL_DATA_CLUSTERS = 15949"
  "FS_ENTRIES_PER_CLUSTER = 16" "FS_CLUSTER_FREE = 0" "FS_CLUSTER_BAD = 0xFFF7" "FS_CLUSTER_EOC = 0xFFFF"
  "FS_CLUSTER_EOC_MIN = 0xFFF8" "FS_DIRENT_FREE = 0" "FS_DIRENT_DELETED = 0xE5" "FS_ATTR_NORMAL = 0x20"
  "FS_ATTR_DIRECTORY = 0x10" "FS_NAME_FIELD_LEN = 8" "FS_EXT_FIELD_LEN = 3" "FS_COMPONENT_LEN = 13"
  by (simp_all add: FS_IMAGE_TOTAL_SECTORS_def FS_VOL_START_LBA_def FS_BOOT_LBA_def
      FS_BYTES_PER_SECTOR_def FS_SECTORS_PER_CLUSTER_def FS_NUM_FATS_def FS_FAT_SIZE_SECTORS_def
      FS_FAT1_LBA_def FS_FAT2_LBA_def FS_ROOT_ENTRIES_def FS_ROOT_DIR_SECTORS_def FS_ROOT_LBA_def
      FS_DATA_LBA_def FS_FIRST_DATA_CLUSTER_def FS_TOTAL_DATA_CLUSTERS_def FS_ENTRIES_PER_CLUSTER_def
      FS_CLUSTER_FREE_def FS_CLUSTER_BAD_def FS_CLUSTER_EOC_def FS_CLUSTER_EOC_MIN_def
      FS_DIRENT_FREE_def FS_DIRENT_DELETED_def FS_ATTR_NORMAL_def FS_ATTR_DIRECTORY_def
      FS_NAME_FIELD_LEN_def FS_EXT_FIELD_LEN_def FS_COMPONENT_LEN_def)

end
