(* ===== verification/Fat.thy ===== *)
theory Fat
  imports Disk
begin

text \<open>
  The file allocation table of \<open>kernel/fs.c\<close> (\<open>fat_read\<close> to \<open>cluster_at_index\<close>): two copies of an
  array of 16-bit links on disk. Cluster chains are the paths through these links.
\<close>

section \<open>Operations\<close>

definition fat_read :: "disk \<Rightarrow> u16 \<Rightarrow> u16" where
  "fat_read d cluster =
     (let byte_off = ucast cluster * 2 :: u32;
          sector = of_nat FS_FAT1_LBA + byte_off div of_nat FS_BYTES_PER_SECTOR;
          off = unat (byte_off mod of_nat FS_BYTES_PER_SECTOR);
          buf = disk_read_sector d sector
      in le16 (buf off) (buf (off + 1)))"

definition fat_write :: "disk \<Rightarrow> u16 \<Rightarrow> u16 \<Rightarrow> disk" where
  "fat_write d cluster value =
     (let byte_off = ucast cluster * 2 :: u32;
          sector_index = byte_off div of_nat FS_BYTES_PER_SECTOR;
          off = unat (byte_off mod of_nat FS_BYTES_PER_SECTOR);
          sector1 = of_nat FS_FAT1_LBA + sector_index;
          buf = disk_read_sector d sector1;
          buf = buf(off := lo8 value, off + 1 := hi8 value);
          d = disk_write_sector d sector1 buf
      in disk_write_sector d (of_nat FS_FAT2_LBA + sector_index) buf)"

section \<open>Where an entry lives\<close>

definition fat_index :: "u16 \<Rightarrow> nat" where
  "fat_index c = unat c div 256"

definition fat_offset :: "u16 \<Rightarrow> nat" where
  "fat_offset c = 2 * (unat c mod 256)"

lemma fat_byte_off: "unat (ucast (c :: u16) * 2 :: u32) = unat c * 2"
proof -
  have "unat c * 2 < 4294967296" using unat_u16_less [of c] by linarith
  then show ?thesis by (simp add: unat_word_ariths)
qed

lemma fat_sector_index: "ucast (c :: u16) * 2 div (512 :: u32) = of_nat (fat_index c)"
proof -
  have "unat c div 256 < 4294967296" using unat_u16_less [of c] by linarith
  then show ?thesis
    by (simp add: word_unat_eq_iff unat_div fat_byte_off fat_index_def unat_of_nat)
qed

lemma fat_sector_offset: "unat (ucast (c :: u16) * 2 mod (512 :: u32)) = fat_offset c"
  by (simp add: unat_mod fat_byte_off fat_offset_def mult_mod_right mult.commute)

lemma fat_index_less: "fat_index c < 256"
  by (simp add: fat_index_def less_mult_imp_div_less)

lemma fat_offset_less: "fat_offset c + 1 < 512"
proof -
  have "unat c mod 256 < 256" by simp
  then show ?thesis unfolding fat_offset_def by linarith
qed

lemma fat_position_inj:
  "fat_index c = fat_index c' \<Longrightarrow> fat_offset c = fat_offset c' \<Longrightarrow> c = c'"
  unfolding fat_index_def fat_offset_def word_unat_eq_iff
  by (metis div_mult_mod_eq mult_cancel1 zero_neq_numeral)

lemma fat_offset_apart: "fat_offset c \<noteq> Suc (fat_offset c')"
proof -
  have "2 * a \<noteq> Suc (2 * b)" for a b :: nat by presburger
  then show ?thesis unfolding fat_offset_def .
qed

lemma lba_eq_iff: "m < 4294967296 \<Longrightarrow> n < 4294967296 \<Longrightarrow> (of_nat m :: u32) = of_nat n \<longleftrightarrow> m = n"
  by (simp add: word_unat_eq_iff unat_of_nat)

lemma fat_read_alt:
  "fat_read d c = le16 (d (of_nat (301 + fat_index c)) (fat_offset c)) (d (of_nat (301 + fat_index c)) (Suc (fat_offset c)))"
  by (simp add: fat_read_def Let_def disk_simps fat_sector_index fat_sector_offset)

definition fat_put :: "u16 \<Rightarrow> u16 \<Rightarrow> sector \<Rightarrow> sector" where
  "fat_put c v buf = buf(fat_offset c := lo8 v, Suc (fat_offset c) := hi8 v)"

lemma fat_write_alt:
  "fat_write d c v = d(of_nat (301 + fat_index c) := fat_put c v (d (of_nat (301 + fat_index c))),
                       of_nat (364 + fat_index c) := fat_put c v (d (of_nat (301 + fat_index c))))"
  by (simp add: fat_write_def Let_def disk_simps fat_sector_index fat_sector_offset fat_put_def)

lemma fat_write_apply:
  assumes "n < 4294967296"
  shows "fat_write d c v (of_nat n)
    = (if n = 301 + fat_index c \<or> n = 364 + fat_index c
       then fat_put c v (d (of_nat (301 + fat_index c))) else d (of_nat n))"
  using fat_index_less [of c] assms
  by (simp add: fat_write_alt lba_eq_iff del: of_nat_add)

text \<open>An entry is read back as written; another entry is unchanged unless it lies in the sector
  that the mirror of the written one occupies.\<close>

lemma fat_read_write_same: "fat_read (fat_write d c v) c = v"
  using fat_index_less [of c]
  by (simp add: fat_read_alt fat_write_apply fat_put_def del: of_nat_add)

lemma fat_read_write_other:
  assumes "c' \<noteq> c" "fat_index c' \<noteq> fat_index c + 63"
  shows "fat_read (fat_write d c v) c' = fat_read d c'"
proof -
  have "fat_offset c' \<noteq> fat_offset c" if "fat_index c' = fat_index c"
    using fat_position_inj that assms(1) by blast
  then show ?thesis
    using assms(2) fat_index_less [of c'] fat_offset_apart [of c' c] fat_offset_apart [of c c']
    by (auto simp: fat_read_alt fat_write_apply fat_put_def simp del: of_nat_add)
qed

section \<open>The link table\<close>

text \<open>The clusters whose entries lie inside the FAT, and those that hold data.\<close>

definition in_fat :: "u16 \<Rightarrow> bool" where
  "in_fat c \<longleftrightarrow> unat c < FS_FAT_SIZE_SECTORS * 256"

definition data_cluster :: "u16 \<Rightarrow> bool" where
  "data_cluster c \<longleftrightarrow> FS_FIRST_DATA_CLUSTER \<le> unat c \<and> unat c < FS_FIRST_DATA_CLUSTER + FS_TOTAL_DATA_CLUSTERS"

text \<open>The guard of every chain-walking loop.\<close>

definition is_link :: "u16 \<Rightarrow> bool" where
  "is_link c \<longleftrightarrow> c \<ge> of_nat FS_FIRST_DATA_CLUSTER \<and> c < FS_CLUSTER_EOC_MIN"

lemma is_link_unat: "is_link c \<longleftrightarrow> 2 \<le> unat c \<and> unat c < 0xFFF8"
  by (simp add: is_link_def word_le_nat_alt word_less_nat_alt)

lemma data_cluster_in_fat: "data_cluster c \<Longrightarrow> in_fat c"
  by (simp add: data_cluster_def in_fat_def)

lemma data_cluster_is_link: "data_cluster c \<Longrightarrow> is_link c"
  by (simp add: data_cluster_def is_link_unat)

lemma in_fat_index: "in_fat c \<Longrightarrow> fat_index c < 63"
  by (simp add: in_fat_def fat_index_def)

text \<open>\<open>chain f c xs\<close>: following the links \<open>f\<close> from \<open>c\<close> visits \<open>xs\<close> and then leaves the
  range of links.\<close>

primrec chain :: "(u16 \<Rightarrow> u16) \<Rightarrow> u16 \<Rightarrow> u16 list \<Rightarrow> bool" where
  "chain f c [] \<longleftrightarrow> \<not> is_link c"
| "chain f c (x # xs) \<longleftrightarrow> x = c \<and> is_link c \<and> chain f (f c) xs"

lemma chain_unique: "chain f c xs \<Longrightarrow> chain f c ys \<Longrightarrow> xs = ys"
proof (induction xs arbitrary: c ys)
  case Nil
  then show ?case by (cases ys) auto
next
  case (Cons x xs)
  then show ?case by (cases ys) auto
qed

lemma chain_append: "chain f c (xs @ y # ys) \<Longrightarrow> chain f y (y # ys)"
  by (induction xs arbitrary: c) auto

lemma chain_head_notin_tail: "chain f c (c # xs) \<Longrightarrow> c \<notin> set xs"
proof
  assume ch: "chain f c (c # xs)" and "c \<in> set xs"
  then obtain as bs where "xs = as @ c # bs" by (meson split_list)
  then have "chain f c ((c # as) @ c # bs)" using ch by simp
  then have "chain f c (c # bs)" by (rule chain_append)
  then have "c # bs = c # xs" using ch by (rule chain_unique)
  then show False using \<open>xs = as @ c # bs\<close> by simp
qed

lemma chain_distinct: "chain f c xs \<Longrightarrow> distinct xs"
proof (induction xs arbitrary: c)
  case (Cons x xs)
  then show ?case using chain_head_notin_tail [of f x xs] by auto
qed simp

lemma chain_cong: "(\<And>x. x \<in> set xs \<Longrightarrow> f x = g x) \<Longrightarrow> chain f c xs \<longleftrightarrow> chain g c xs"
  by (induction xs arbitrary: c) auto

lemma chain_links: "chain f c xs \<Longrightarrow> x \<in> set xs \<Longrightarrow> is_link x"
  by (induction xs arbitrary: c) auto

locale link_table =
  fixes get :: "'s \<Rightarrow> u16 \<Rightarrow> u16"
    and put :: "'s \<Rightarrow> u16 \<Rightarrow> u16 \<Rightarrow> 's"
    and ok :: "u16 \<Rightarrow> bool"
  assumes get_put: "ok c \<Longrightarrow> ok c' \<Longrightarrow> get (put s c v) c' = (if c' = c then v else get s c')"
begin

lemma chain_put_other:
  assumes "ok c'" "c' \<notin> set xs" "\<forall>x\<in>set xs. ok x"
  shows "chain (get (put s c' v)) c xs \<longleftrightarrow> chain (get s) c xs"
  using assms by (intro chain_cong) (auto simp: get_put)

lemma chain_extend:
  assumes "chain (get s) c xs" "xs \<noteq> []" "\<forall>x\<in>set xs. ok x"
    and "ok n" "is_link n" "n \<notin> set xs" "\<not> is_link (get s n)"
  shows "chain (get (put s (last xs) n)) c (xs @ [n])"
  using assms
proof (induction xs arbitrary: c)
  case (Cons x xs)
  show ?case
  proof (cases "xs = []")
    case True
    with Cons.prems show ?thesis by (auto simp: get_put)
  next
    case False
    then have "last xs \<in> set xs" by simp
    moreover have "x \<notin> set xs" using Cons.prems(1) chain_head_notin_tail by auto
    ultimately have "last xs \<noteq> x" by blast
    with False Cons show ?thesis by (auto simp: get_put)
  qed
qed simp

end

lemma fat_read_write: "in_fat c \<Longrightarrow> in_fat c' \<Longrightarrow> fat_read (fat_write d c v) c' = (if c' = c then v else fat_read d c')"
  using in_fat_index [of c'] by (auto simp: fat_read_write_same fat_read_write_other)

interpretation fat: link_table fat_read fat_write in_fat
  by unfold_locales (rule fat_read_write)

end
