(* ===== verification/FatOps.thy ===== *)
theory FatOps
  imports Fat
begin

text \<open>
  Allocation and release of cluster chains (\<open>fat_alloc_cluster\<close>, \<open>fat_free_chain\<close>,
  \<open>cluster_at_index\<close>, \<open>cluster_to_lba\<close> of \<open>kernel/fs.c\<close>), the mirror invariant of the two FAT
  copies, and which sectors each operation can change.
\<close>

section \<open>Allocation\<close>

text \<open>The search loop, from cluster \<open>c\<close> on; the loop bound is compared as \<open>int\<close> in C.\<close>

function fat_alloc_from :: "u16 \<Rightarrow> disk \<Rightarrow> u16 \<times> disk" where
  "fat_alloc_from c d =
     (if unat c < FS_FIRST_DATA_CLUSTER + FS_TOTAL_DATA_CLUSTERS then
        (if fat_read d c = FS_CLUSTER_FREE then (c, fat_write d c FS_CLUSTER_EOC)
         else fat_alloc_from (c + 1) d)
      else (0, d))"
  by pat_completeness auto
termination
proof (relation "measure (\<lambda>(c, d). 65536 - unat c)")
  fix c :: u16 and d :: disk
  assume "unat c < FS_FIRST_DATA_CLUSTER + FS_TOTAL_DATA_CLUSTERS"
  then have "unat (c + 1) = unat c + 1" by (subst unat_add_u16) auto
  then show "((c + 1, d), c, d) \<in> measure (\<lambda>(c, d). 65536 - unat c)"
    using unat_u16_less [of c] by (simp only: in_measure split_conv)
qed simp

declare fat_alloc_from.simps [simp del]

definition fat_alloc_cluster :: "disk \<Rightarrow> u16 \<times> disk" where
  "fat_alloc_cluster d = fat_alloc_from (of_nat FS_FIRST_DATA_CLUSTER) d"

lemma fat_alloc_from_spec:
  assumes "fat_alloc_from c d = (r, d')" "2 \<le> unat c"
  shows "(r = 0 \<and> d' = d \<and> (\<forall>x. unat c \<le> unat x \<longrightarrow> data_cluster x \<longrightarrow> fat_read d x \<noteq> 0)) \<or>
    (data_cluster r \<and> unat c \<le> unat r \<and> fat_read d r = 0 \<and> d' = fat_write d r FS_CLUSTER_EOC \<and>
     (\<forall>x. unat c \<le> unat x \<longrightarrow> unat x < unat r \<longrightarrow> fat_read d x \<noteq> 0))"
  using assms
proof (induction c d rule: fat_alloc_from.induct)
  case (1 c d)
  show ?case
  proof (cases "unat c < 15951")
    case False
    then show ?thesis using "1.prems" by (subst (asm) fat_alloc_from.simps) (auto simp: data_cluster_def)
  next
    case True
    then have suc: "unat (c + 1) = unat c + 1" by (subst unat_add_u16) auto
    have split: "unat c \<le> unat x \<longleftrightarrow> x = c \<or> unat (c + 1) \<le> unat x" for x
      by (auto simp: suc word_unat_eq_iff)
    show ?thesis
    proof (cases "fat_read d c = 0")
      case free: True
      then have "r = c" "d' = fat_write d c FS_CLUSTER_EOC"
        using "1.prems" True by (subst (asm) fat_alloc_from.simps; simp)+
      then show ?thesis using "1.prems" True free by (auto simp: data_cluster_def)
    next
      case False
      then have "fat_alloc_from (c + 1) d = (r, d')"
        using "1.prems" True by (subst (asm) fat_alloc_from.simps) simp
      then show ?thesis using "1.IH" True False "1.prems"(2) unfolding split by (auto simp: suc)
    qed
  qed
qed

lemma fat_alloc_cluster_spec:
  assumes "fat_alloc_cluster d = (r, d')"
  shows "(r = 0 \<and> d' = d \<and> (\<forall>x. data_cluster x \<longrightarrow> fat_read d x \<noteq> 0)) \<or>
    (data_cluster r \<and> fat_read d r = 0 \<and> d' = fat_write d r FS_CLUSTER_EOC \<and>
     (\<forall>x. data_cluster x \<longrightarrow> unat x < unat r \<longrightarrow> fat_read d x \<noteq> 0))"
  using fat_alloc_from_spec [OF assms [unfolded fat_alloc_cluster_def]] by (auto simp: data_cluster_def)

lemma fat_alloc_Some:
  assumes "fat_alloc_cluster d = (r, d')" "r \<noteq> 0"
  shows "data_cluster r" "fat_read d r = 0" "d' = fat_write d r 0xFFFF"
  using fat_alloc_cluster_spec [OF assms(1)] assms(2) by auto

lemma fat_alloc_None:
  assumes "fat_alloc_cluster d = (0, d')"
  shows "d' = d" "data_cluster x \<Longrightarrow> fat_read d x \<noteq> 0"
  using fat_alloc_cluster_spec [OF assms] by (auto simp: data_cluster_def)

section \<open>Releasing a chain\<close>

text \<open>
  The loop terminates on every disk, even when the links are corrupt and run into the second FAT
  copy, the root directory or the data area: each pass turns a non-zero entry into 0, and the
  only other entries it can change lie one FAT length (63 sectors) further on. So the numbers of
  non-zero entries in the five 63-sector stretches that 16-bit cluster numbers can address
  decrease lexicographically.
\<close>

definition used_in_stretch :: "nat \<Rightarrow> disk \<Rightarrow> nat" where
  "used_in_stretch j d = card {c. fat_index c div 63 = j \<and> fat_read d c \<noteq> 0}"

lemma used_in_stretch_write_lower:
  assumes "j < fat_index c div 63"
  shows "used_in_stretch j (fat_write d c v) = used_in_stretch j d"
proof -
  have "fat_read (fat_write d c v) x = fat_read d x" if "fat_index x div 63 = j" for x
    using that assms by (intro fat_read_write_other) (auto simp: div_le_mono)
  then show ?thesis unfolding used_in_stretch_def by (metis (no_types, lifting))
qed

lemma used_in_stretch_clear:
  assumes "fat_read d c \<noteq> 0"
  shows "used_in_stretch (fat_index c div 63) (fat_write d c 0) < used_in_stretch (fat_index c div 63) d"
proof -
  let ?j = "fat_index c div 63"
  have same: "fat_read (fat_write d c 0) x = (if x = c then 0 else fat_read d x)" if "fat_index x div 63 = ?j" for x
    using that by (auto simp: fat_read_write_same intro!: fat_read_write_other)
  let ?used = "\<lambda>d. {x. fat_index x div 63 = ?j \<and> fat_read d x \<noteq> 0}"
  have "?used (fat_write d c 0) \<subseteq> ?used d" using same by (auto split: if_splits)
  moreover have "c \<in> ?used d" "c \<notin> ?used (fat_write d c 0)" using assms same by auto
  ultimately have "?used (fat_write d c 0) \<subset> ?used d" by blast
  then show ?thesis unfolding used_in_stretch_def by (intro psubset_card_mono) auto
qed

function fat_free_chain :: "u16 \<Rightarrow> disk \<Rightarrow> disk" where
  "fat_free_chain c d =
     (if is_link c then
        (let next = fat_read d c in fat_free_chain next (fat_write d c FS_CLUSTER_FREE))
      else d)"
  by pat_completeness auto
termination
proof (relation "measures
    [\<lambda>(c, d). if is_link c then 1 else 0, \<lambda>(c, d). used_in_stretch 0 d, \<lambda>(c, d). used_in_stretch 1 d,
     \<lambda>(c, d). used_in_stretch 2 d, \<lambda>(c, d). used_in_stretch 3 d, \<lambda>(c, d). used_in_stretch 4 d]")
  fix c :: u16 and d :: disk and "next"
  assume c: "is_link c" and n: "next = fat_read d c"
  show "((next, fat_write d c FS_CLUSTER_FREE), c, d) \<in> measures
    [\<lambda>(c, d). if is_link c then 1 else 0, \<lambda>(c, d). used_in_stretch 0 d, \<lambda>(c, d). used_in_stretch 1 d,
     \<lambda>(c, d). used_in_stretch 2 d, \<lambda>(c, d). used_in_stretch 3 d, \<lambda>(c, d). used_in_stretch 4 d]"
  proof (cases "is_link next")
    case True
    then have "fat_read d c \<noteq> 0" by (auto simp: n is_link_unat)
    then have less: "used_in_stretch (fat_index c div 63) (fat_write d c 0) < used_in_stretch (fat_index c div 63) d"
      by (rule used_in_stretch_clear)
    have lower: "used_in_stretch j (fat_write d c 0) = used_in_stretch j d" if "j < fat_index c div 63" for j
      using that by (rule used_in_stretch_write_lower)
    have "fat_index c div 63 < 5" using fat_index_less [of c] by (simp add: less_mult_imp_div_less)
    then consider "fat_index c div 63 = 0" | "fat_index c div 63 = 1" | "fat_index c div 63 = 2"
      | "fat_index c div 63 = 3" | "fat_index c div 63 = 4" by linarith
    then show ?thesis by cases (use less lower c True in \<open>simp_all del: One_nat_def\<close>)
  next
    case False
    with c show ?thesis by simp
  qed
qed simp

declare fat_free_chain.simps [simp del]

lemma fat_free_chain_stop [simp]: "\<not> is_link c \<Longrightarrow> fat_free_chain c d = d"
  by (simp add: fat_free_chain.simps)

lemma fat_free_chain_step:
  "is_link c \<Longrightarrow> fat_free_chain c d = fat_free_chain (fat_read d c) (fat_write d c 0)"
  by (subst fat_free_chain.simps) simp

section \<open>Frames\<close>

text \<open>The sectors of the two FAT copies.\<close>

definition fat_area :: "u32 \<Rightarrow> bool" where
  "fat_area lba \<longleftrightarrow> FS_FAT1_LBA \<le> unat lba \<and> unat lba < FS_ROOT_LBA"

definition fat_mirror :: "disk \<Rightarrow> bool" where
  "fat_mirror d \<longleftrightarrow> (\<forall>k < FS_FAT_SIZE_SECTORS. d (of_nat (FS_FAT1_LBA + k)) = d (of_nat (FS_FAT2_LBA + k)))"

named_theorems fat_frame \<comment> \<open>what an operation leaves unchanged\<close>

lemma lba_of_nat: "(lba :: u32) = of_nat (unat lba)"
  by simp

lemma fat_write_outside [fat_frame]:
  assumes "in_fat c" "\<not> fat_area lba"
  shows "fat_write d c v lba = d lba"
  using fat_write_apply [of "unat lba" d c v] in_fat_index [OF assms(1)] assms(2)
  by (auto simp: fat_area_def)

lemma fat_write_mirror [fat_frame]:
  assumes "in_fat c" "fat_mirror d"
  shows "fat_mirror (fat_write d c v)"
  using assms in_fat_index [OF assms(1)]
  by (auto simp: fat_mirror_def fat_write_apply simp del: of_nat_add)

lemma fat_read_cong:
  assumes "in_fat c" "\<And>k. k < 63 \<Longrightarrow> d (of_nat (301 + k)) = d' (of_nat (301 + k))"
  shows "fat_read d c = fat_read d' c"
  using assms(2) [OF in_fat_index [OF assms(1)]] by (simp add: fat_read_alt del: of_nat_add)

lemma fat_read_disk_write [fat_frame]:
  assumes "in_fat c" "\<not> fat_area lba"
  shows "fat_read (disk_write_sector d lba buf) c = fat_read d c"
proof (rule fat_read_cong [OF assms(1)])
  fix k :: nat assume "k < 63"
  then have "unat (of_nat (301 + k) :: u32) = 301 + k" by (simp add: unat_of_nat del: of_nat_add)
  with assms(2) \<open>k < 63\<close> show "disk_write_sector d lba buf (of_nat (301 + k)) = d (of_nat (301 + k))"
    by (auto simp: disk_write_sector_def fat_area_def)
qed

lemma fat_mirror_disk_write [fat_frame]:
  assumes "\<not> fat_area lba" "fat_mirror d"
  shows "fat_mirror (disk_write_sector d lba buf)"
proof -
  have "of_nat n \<noteq> lba" if "301 \<le> n" "n < 427" for n
  proof
    assume "of_nat n = lba"
    then have "unat lba = n" using that by (auto simp: unat_of_nat)
    with assms(1) that show False by (simp add: fat_area_def)
  qed
  then show ?thesis using assms(2)
    by (simp add: fat_mirror_def disk_write_sector_def del: of_nat_add)
qed

section \<open>Clusters and sectors\<close>

definition cluster_to_lba :: "u16 \<Rightarrow> u32" where
  "cluster_to_lba cluster =
     of_nat FS_DATA_LBA + (ucast cluster - of_nat FS_FIRST_DATA_CLUSTER) * of_nat FS_SECTORS_PER_CLUSTER"

lemma unat_cluster_to_lba:
  assumes "2 \<le> unat c"
  shows "unat (cluster_to_lba c) = 433 + unat c"
proof -
  have "unat (ucast c - 2 :: u32) = unat c - 2"
    using assms by (subst unat_diff_u32) (simp_all add: word_le_nat_alt)
  moreover have "433 + unat c < 4294967296" using unat_u16_less [of c] by linarith
  ultimately show ?thesis
    using assms by (simp add: cluster_to_lba_def unat_word_ariths)
qed

lemma cluster_not_fat_area: "is_link c \<Longrightarrow> \<not> fat_area (cluster_to_lba c)"
  by (simp add: is_link_unat fat_area_def unat_cluster_to_lba)

lemma cluster_to_lba_inj: "is_link c \<Longrightarrow> is_link c' \<Longrightarrow> cluster_to_lba c = cluster_to_lba c' \<longleftrightarrow> c = c'"
  by (auto simp: is_link_unat word_unat_eq_iff unat_cluster_to_lba)

text \<open>\<open>index\<close> steps along the links; 0 when a step starts outside the range of links.\<close>

fun cluster_at_index :: "disk \<Rightarrow> u16 \<Rightarrow> nat \<Rightarrow> u16" where
  "cluster_at_index d c 0 = c"
| "cluster_at_index d c (Suc i) = (if \<not> is_link c then 0 else cluster_at_index d (fat_read d c) i)"

lemma cluster_at_index_chain:
  "chain (fat_read d) c xs \<Longrightarrow> i < length xs \<Longrightarrow> cluster_at_index d c i = xs ! i"
proof (induction xs arbitrary: c i)
  case (Cons x xs)
  then show ?case by (cases i) auto
qed simp

section \<open>A volume with one chain of two clusters\<close>

definition blank_disk :: disk where
  "blank_disk = (\<lambda>lba. zero_sector)"

definition two_cluster_disk :: disk where
  "two_cluster_disk = fat_write (fat_write blank_disk 2 3) 3 FS_CLUSTER_EOC"

lemma fat_read_blank [simp]: "fat_read blank_disk c = 0"
  by (simp add: fat_read_alt blank_disk_def le16_def)

lemma fat_mirror_blank: "fat_mirror blank_disk"
  by (simp add: fat_mirror_def blank_disk_def)

lemma two_cluster_disk:
  "in_fat 2" "in_fat 3"
  "fat_read two_cluster_disk 2 = 3" "fat_read two_cluster_disk 3 = 0xFFFF"
  "chain (fat_read two_cluster_disk) 2 [2, 3]" "fat_mirror two_cluster_disk"
proof -
  show i: "in_fat 2" "in_fat 3" by (simp_all add: in_fat_def)
  show r: "fat_read two_cluster_disk 2 = 3" "fat_read two_cluster_disk 3 = 0xFFFF"
    using i by (simp_all add: two_cluster_disk_def fat_read_write)
  then show "chain (fat_read two_cluster_disk) 2 [2, 3]" by (simp add: is_link_unat)
  show "fat_mirror two_cluster_disk"
    unfolding two_cluster_disk_def by (intro fat_write_mirror i fat_mirror_blank)
qed

text \<open>One link past the end of a chain \<open>cluster_at_index\<close> answers with the chain's end marker
  (\<open>0xFFFF\<close> for every chain the code builds) and not with the 0 that its comment promises and its
  caller tests for; only from two links on is the answer 0.\<close>

theorem cluster_at_index_past_end:
  assumes "chain (fat_read d) c (xs @ [l])"
  shows "cluster_at_index d c (length (xs @ [l])) = fat_read d l
    \<and> cluster_at_index d c (Suc (length (xs @ [l])) + k) = 0"
  using assms by (induction xs arbitrary: c) auto

theorem cluster_at_index_past_end_witness:
  "cluster_at_index two_cluster_disk 2 2 = 0xFFFF \<and> cluster_at_index two_cluster_disk 2 3 = 0"
  using cluster_at_index_past_end [of two_cluster_disk 2 "[2]" 3 0] two_cluster_disk(4,5)
  by (simp del: cluster_at_index.simps chain.simps add: numeral_2_eq_2 numeral_3_eq_3)

section \<open>What releasing a chain does\<close>

lemma fat_free_chain_fold:
  assumes "chain (fat_read d) c xs" "\<forall>x\<in>set xs. in_fat x"
  shows "fat_free_chain c d = fold (\<lambda>x d. fat_write d x 0) xs d"
  using assms
proof (induction xs arbitrary: c d)
  case (Cons x xs)
  then have "c \<notin> set xs" using chain_head_notin_tail by auto
  with Cons.prems have "chain (fat_read (fat_write d c 0)) (fat_read d c) xs"
    by (simp add: fat.chain_put_other)
  with Cons show ?case by (simp add: fat_free_chain_step)
qed simp

lemma fold_clear:
  assumes "\<forall>x\<in>set xs. in_fat x"
  shows "in_fat y \<Longrightarrow> fat_read (fold (\<lambda>x d. fat_write d x 0) xs d) y = (if y \<in> set xs then 0 else fat_read d y)"
    and "\<not> fat_area lba \<Longrightarrow> fold (\<lambda>x d. fat_write d x 0) xs d lba = d lba"
    and "fat_mirror d \<Longrightarrow> fat_mirror (fold (\<lambda>x d. fat_write d x 0) xs d)"
  using assms by (induction xs arbitrary: d) (auto simp: fat_read_write fat_frame)

lemma fat_free_chain_frame:
  assumes "chain (fat_read d) c xs" "\<forall>x\<in>set xs. in_fat x"
  shows "\<not> fat_area lba \<Longrightarrow> fat_free_chain c d lba = d lba"
    and "fat_mirror d \<Longrightarrow> fat_mirror (fat_free_chain c d)"
  using fold_clear(2,3) [OF assms(2)] by (simp_all add: fat_free_chain_fold [OF assms])

text \<open>Releasing a chain marks exactly its clusters free: every other FAT entry, and every sector
  outside the two FAT copies, is unchanged, and the copies still mirror each other.\<close>

theorem fat_free_chain_releases:
  assumes "chain (fat_read d) c xs" "\<forall>x\<in>set xs. in_fat x" "fat_mirror d"
  shows "(\<forall>y. in_fat y \<longrightarrow> fat_read (fat_free_chain c d) y = (if y \<in> set xs then 0 else fat_read d y))
    \<and> (\<forall>lba. \<not> fat_area lba \<longrightarrow> fat_free_chain c d lba = d lba) \<and> fat_mirror (fat_free_chain c d)"
  using fold_clear [OF assms(2)] assms by (simp add: fat_free_chain_fold)

theorem fat_free_chain_releases_witness:
  "fat_read (fat_free_chain 2 two_cluster_disk) 2 = 0 \<and> fat_read (fat_free_chain 2 two_cluster_disk) 3 = 0
    \<and> fat_read (fat_free_chain 2 two_cluster_disk) 4 = fat_read two_cluster_disk 4
    \<and> fat_free_chain 2 two_cluster_disk 500 = two_cluster_disk 500 \<and> fat_mirror (fat_free_chain 2 two_cluster_disk)"
proof -
  have "\<forall>x\<in>set [2, 3]. in_fat x" by (simp add: two_cluster_disk(1,2))
  note r = fat_free_chain_releases [OF two_cluster_disk(5) this two_cluster_disk(6)]
  have "in_fat 4" "\<not> fat_area 500" by (simp_all add: in_fat_def fat_area_def)
  with r show ?thesis by (simp add: two_cluster_disk(1,2) del: fat_free_chain_stop)
qed

end
