(* ===== verification/Dirent.thy ===== *)
theory Dirent
  imports Disk
begin

text \<open>
  Directory entries of \<open>kernel/scr/fs.h\<close> and their 8.3 names (\<open>to_upper\<close>, \<open>split_name\<close>,
  \<open>fields_eq\<close>, \<open>dirent_to_display\<close> of \<open>kernel/fs.c\<close>), with the 32-byte layout in which an entry
  lies in a sector.
\<close>

section \<open>Entries and their bytes\<close>

record dirent =
  de_name :: "u8 list"
  de_ext :: "u8 list"
  de_attr :: u8
  de_reserved :: "u8 list"
  de_time :: u16
  de_date :: u16
  first_cluster :: u16
  file_size :: u32

definition wf_dirent :: "dirent \<Rightarrow> bool" where
  "wf_dirent e \<longleftrightarrow> length (de_name e) = FS_NAME_FIELD_LEN \<and> length (de_ext e) = FS_EXT_FIELD_LEN
     \<and> length (de_reserved e) = 10"

text \<open>The packed struct in memory order, integers little-endian.\<close>

definition dirent_bytes :: "dirent \<Rightarrow> u8 list" where
  "dirent_bytes e = de_name e @ de_ext e @ [de_attr e] @ de_reserved e @
     [lo8 (de_time e), hi8 (de_time e), lo8 (de_date e), hi8 (de_date e),
      lo8 (first_cluster e), hi8 (first_cluster e),
      lo8 (lo16 (file_size e)), hi8 (lo16 (file_size e)), lo8 (hi16 (file_size e)), hi8 (hi16 (file_size e))]"

text \<open>\<open>((fs_dirent_t *)buf)[i]\<close>, read and assigned.\<close>

definition dirent_at :: "sector \<Rightarrow> nat \<Rightarrow> dirent" where
  "dirent_at buf i =
     \<lparr>de_name = map (\<lambda>j. buf (32 * i + j)) [0..<8],
      de_ext = map (\<lambda>j. buf (32 * i + 8 + j)) [0..<3],
      de_attr = buf (32 * i + 11),
      de_reserved = map (\<lambda>j. buf (32 * i + 12 + j)) [0..<10],
      de_time = le16 (buf (32 * i + 22)) (buf (32 * i + 23)),
      de_date = le16 (buf (32 * i + 24)) (buf (32 * i + 25)),
      first_cluster = le16 (buf (32 * i + 26)) (buf (32 * i + 27)),
      file_size = le32 (le16 (buf (32 * i + 28)) (buf (32 * i + 29))) (le16 (buf (32 * i + 30)) (buf (32 * i + 31)))\<rparr>"

definition dirent_put :: "sector \<Rightarrow> nat \<Rightarrow> dirent \<Rightarrow> sector" where
  "dirent_put buf i e = (\<lambda>j. if 32 * i \<le> j \<and> j < 32 * i + 32 then dirent_bytes e ! (j - 32 * i) else buf j)"

lemma wf_dirent_at [simp]: "wf_dirent (dirent_at buf i)"
  by (simp add: wf_dirent_def dirent_at_def)

lemma length_dirent_bytes: "wf_dirent e \<Longrightarrow> length (dirent_bytes e) = 32"
  by (simp add: wf_dirent_def dirent_bytes_def)

text \<open>The fields of an entry, read back from its bytes.\<close>

lemma dirent_bytes_nth:
  assumes "wf_dirent e"
  shows "j < 8 \<Longrightarrow> dirent_bytes e ! j = de_name e ! j"
    and "j < 3 \<Longrightarrow> dirent_bytes e ! (8 + j) = de_ext e ! j"
    and "dirent_bytes e ! 11 = de_attr e"
    and "j < 10 \<Longrightarrow> dirent_bytes e ! (12 + j) = de_reserved e ! j"
    and "dirent_bytes e ! 22 = lo8 (de_time e)" "dirent_bytes e ! 23 = hi8 (de_time e)"
    and "dirent_bytes e ! 24 = lo8 (de_date e)" "dirent_bytes e ! 25 = hi8 (de_date e)"
    and "dirent_bytes e ! 26 = lo8 (first_cluster e)" "dirent_bytes e ! 27 = hi8 (first_cluster e)"
    and "dirent_bytes e ! 28 = lo8 (lo16 (file_size e))" "dirent_bytes e ! 29 = hi8 (lo16 (file_size e))"
    and "dirent_bytes e ! 30 = lo8 (hi16 (file_size e))" "dirent_bytes e ! 31 = hi8 (hi16 (file_size e))"
  using assms by (simp_all add: wf_dirent_def dirent_bytes_def nth_append)

lemma map_nth_eq: "length xs = n \<Longrightarrow> (\<And>j. j < n \<Longrightarrow> f j = xs ! j) \<Longrightarrow> map f [0..<n] = xs"
  by (simp add: list_eq_iff_nth_eq)

lemma dirent_at_put_same:
  assumes "wf_dirent e"
  shows "dirent_at (dirent_put buf i e) i = e"
proof -
  have at: "dirent_put buf i e (32 * i + k) = dirent_bytes e ! k" if "k < 32" for k
    using that by (simp add: dirent_put_def)
  have at0: "dirent_put buf i e (32 * i + k + j) = dirent_bytes e ! (k + j)" if "k + j < 32" for k j
    using that at [of "k + j"] by (simp add: add.assoc)
  have lens: "length (de_name e) = 8" "length (de_ext e) = 3" "length (de_reserved e) = 10"
    using assms by (simp_all add: wf_dirent_def)
  have "map (\<lambda>j. dirent_put buf i e (32 * i + j)) [0..<8] = de_name e"
    "map (\<lambda>j. dirent_put buf i e (32 * i + 8 + j)) [0..<3] = de_ext e"
    "map (\<lambda>j. dirent_put buf i e (32 * i + 12 + j)) [0..<10] = de_reserved e"
    using lens by (auto intro!: map_nth_eq simp: at at0 dirent_bytes_nth [OF assms])
  then show ?thesis
    unfolding dirent_at_def by (simp add: at dirent_bytes_nth [OF assms])
qed

lemma dirent_at_cong:
  "(\<And>j. 32 * i \<le> j \<Longrightarrow> j < 32 * i + 32 \<Longrightarrow> buf j = buf' j) \<Longrightarrow> dirent_at buf i = dirent_at buf' i"
  by (simp add: dirent_at_def)

lemma dirent_at_put_other: "i \<noteq> j \<Longrightarrow> dirent_at (dirent_put buf i e) j = dirent_at buf j"
  by (intro dirent_at_cong) (auto simp: dirent_put_def)

lemma dirent_at_put: "wf_dirent e \<Longrightarrow> dirent_at (dirent_put buf i e) j = (if j = i then e else dirent_at buf j)"
  by (simp add: dirent_at_put_same dirent_at_put_other)

section \<open>Names\<close>

definition to_upper :: "char \<Rightarrow> char" where
  "to_upper c = (if (of_char c :: nat) \<ge> of_char (CHR ''a'') \<and> (of_char c :: nat) \<le> of_char (CHR ''z'')
     then char_of ((of_char c :: nat) - of_char (CHR ''a'') + of_char (CHR ''A'')) else c)"

definition space :: u8 where
  "space = 0x20"

text \<open>A field of \<open>n\<close> bytes that starts with \<open>bs\<close> and is filled up with spaces.\<close>

definition padded :: "nat \<Rightarrow> u8 list \<Rightarrow> u8 list" where
  "padded n bs = take n bs @ replicate (n - length bs) space"

lemma length_padded [simp]: "length (padded n bs) = n"
  by (simp add: padded_def)

text \<open>The first loop copies up to 8 characters before the first dot, the second skips the rest up
  to the dot, the third copies up to 3 characters after it.\<close>

definition split_name :: "string \<Rightarrow> u8 list \<times> u8 list" where
  "split_name s =
     (let base = takeWhile (\<lambda>c. c \<noteq> CHR ''.'') s;
          rest = dropWhile (\<lambda>c. c \<noteq> CHR ''.'') s;
          upper = map (\<lambda>c. byte_of (to_upper c))
      in (padded FS_NAME_FIELD_LEN (upper base),
          padded FS_EXT_FIELD_LEN (case rest of [] \<Rightarrow> [] | dot # ext \<Rightarrow> upper ext)))"

definition fields_eq :: "u8 list \<Rightarrow> u8 list \<Rightarrow> nat \<Rightarrow> bool" where
  "fields_eq a b len \<longleftrightarrow> take len a = take len b"

definition dirent_to_display :: "dirent \<Rightarrow> string" where
  "dirent_to_display d =
     cstr (map char_of_byte (takeWhile (\<lambda>b. b \<noteq> space) (take FS_NAME_FIELD_LEN (de_name d)))
       @ (if de_ext d ! 0 \<noteq> space
          then CHR ''.'' # map char_of_byte (takeWhile (\<lambda>b. b \<noteq> space) (take FS_EXT_FIELD_LEN (de_ext d)))
          else []))"

definition DOT_NAME :: "u8 list" where
  "DOT_NAME = padded FS_NAME_FIELD_LEN [byte_of CHR ''.'']"

definition DOTDOT_NAME :: "u8 list" where
  "DOTDOT_NAME = padded FS_NAME_FIELD_LEN [byte_of CHR ''.'', byte_of CHR ''.'']"

definition EMPTY_EXT :: "u8 list" where
  "EMPTY_EXT = padded FS_EXT_FIELD_LEN []"

lemma length_split_name: "split_name s = (n, e) \<Longrightarrow> length n = 8 \<and> length e = 3"
  by (auto simp: split_name_def Let_def)

lemma length_names [simp]: "length DOT_NAME = 8" "length DOTDOT_NAME = 8" "length EMPTY_EXT = 3"
  by (simp_all add: DOT_NAME_def DOTDOT_NAME_def EMPTY_EXT_def)

lemma fields_eq_full: "length a = n \<Longrightarrow> length b = n \<Longrightarrow> fields_eq a b n \<longleftrightarrow> a = b"
  by (simp add: fields_eq_def)

lemma length_dirent_to_display: "wf_dirent d \<Longrightarrow> length (dirent_to_display d) < FS_COMPONENT_LEN"
proof -
  have "length (dirent_to_display d)
      \<le> length (takeWhile (\<lambda>b. b \<noteq> space) (take 8 (de_name d))) + Suc (length (takeWhile (\<lambda>b. b \<noteq> space) (take 3 (de_ext d))))"
    unfolding dirent_to_display_def cstr_def
    by (rule order_trans [OF length_takeWhile_le]) simp
  also have "\<dots> \<le> 8 + Suc 3"
    by (intro add_mono Suc_le_mono [THEN iffD2]) (auto intro: order_trans [OF length_takeWhile_le])
  finally show ?thesis by simp
qed

section \<open>8.3 names survive the trip to disk and back\<close>

lemma of_char_to_upper:
  "(of_char (to_upper c) :: nat) = (if 97 \<le> (of_char c :: nat) \<and> (of_char c :: nat) \<le> 122 then of_char c - 32 else of_char c)"
  by (simp add: to_upper_def) (auto intro!: mod_less)

lemma to_upper_eq_iff:
  assumes "of_char x < (65 :: nat)"
  shows "to_upper c = x \<longleftrightarrow> c = x"
proof -
  have "(of_char (to_upper c) = (of_char x :: nat)) \<longleftrightarrow> (of_char c = (of_char x :: nat))"
    using assms by (auto simp: of_char_to_upper simp del: of_char_eq_iff)
  then show ?thesis by simp
qed

lemma to_upper_fixed: "of_char x < (65 :: nat) \<Longrightarrow> to_upper x = x"
  by (simp add: to_upper_eq_iff)

lemma to_upper_dot [simp]: "to_upper CHR ''.'' = CHR ''.''"
  by (rule to_upper_fixed) simp

lemma to_upper_idem [simp]: "to_upper (to_upper c) = to_upper c"
proof -
  have "(of_char (to_upper (to_upper c)) :: nat) = of_char (to_upper c)"
    by (simp only: of_char_to_upper [of "to_upper c"]) (auto simp: of_char_to_upper)
  then show ?thesis by simp
qed

text \<open>The characters an 8.3 field can hold, and the names that fit.\<close>

definition name_char :: "char \<Rightarrow> bool" where
  "name_char c \<longleftrightarrow> c \<noteq> CHR ''.'' \<and> c \<noteq> CHR '' '' \<and> c \<noteq> CHR 0x00"

definition valid_83 :: "string \<Rightarrow> string \<Rightarrow> bool" where
  "valid_83 base ext \<longleftrightarrow> length base \<le> 8 \<and> length ext \<le> 3 \<and> list_all name_char base \<and> list_all name_char ext"

definition join_83 :: "string \<Rightarrow> string \<Rightarrow> string" where
  "join_83 base ext = (if ext = [] then base else base @ CHR ''.'' # ext)"

lemma name_char_upper: "name_char c \<Longrightarrow> name_char (to_upper c)"
  by (simp add: name_char_def to_upper_eq_iff)

lemma split_name_join:
  assumes "valid_83 base ext"
  shows "split_name (join_83 base ext)
    = (padded 8 (map (\<lambda>c. byte_of (to_upper c)) base), padded 3 (map (\<lambda>c. byte_of (to_upper c)) ext))"
proof -
  have nodot: "\<And>c. c \<in> set base \<Longrightarrow> c \<noteq> CHR ''.''"
    using assms by (auto simp: valid_83_def name_char_def list_all_iff)
  then have tw: "takeWhile (\<lambda>c. c \<noteq> CHR ''.'') base = base" and dw: "dropWhile (\<lambda>c. c \<noteq> CHR ''.'') base = []"
    by (auto simp: takeWhile_eq_all_conv)
  have tw2: "takeWhile (\<lambda>c. c \<noteq> CHR ''.'') (base @ CHR ''.'' # ext) = base"
    and dw2: "dropWhile (\<lambda>c. c \<noteq> CHR ''.'') (base @ CHR ''.'' # ext) = CHR ''.'' # ext"
    using nodot by (simp_all add: takeWhile_append2 dropWhile_append2)
  show ?thesis by (simp add: split_name_def join_83_def Let_def tw dw tw2 dw2)
qed

lemma byte_of_space: "byte_of c = space \<longleftrightarrow> c = CHR '' ''"
proof -
  have "byte_of (CHR '' '') = space" by (simp add: byte_of_def space_def)
  then show ?thesis by (metis byte_of_eq_iff)
qed

lemma takeWhile_padded:
  assumes "\<forall>b\<in>set xs. b \<noteq> space" "length xs \<le> n"
  shows "takeWhile (\<lambda>b. b \<noteq> space) (take n (padded n xs)) = xs"
  using assms by (simp add: padded_def takeWhile_append2)

lemma upper_not_space: "name_char c \<Longrightarrow> byte_of (to_upper c) \<noteq> space"
  by (simp add: byte_of_space to_upper_eq_iff name_char_def)

lemma takeWhile_padded_name:
  assumes "list_all name_char s" "length s \<le> n"
  shows "takeWhile (\<lambda>b. b \<noteq> space) (take n (padded n (map (\<lambda>c. byte_of (to_upper c)) s))) = map (\<lambda>c. byte_of (to_upper c)) s"
  using assms by (intro takeWhile_padded) (auto simp: upper_not_space list_all_iff)

lemma valid_83_upper: "valid_83 base ext \<Longrightarrow> valid_83 (map to_upper base) (map to_upper ext)"
  by (simp add: valid_83_def list_all_iff name_char_upper)

lemma map_upper_join: "map to_upper (join_83 base ext) = join_83 (map to_upper base) (map to_upper ext)"
  by (simp add: join_83_def)

lemma valid_83_no_nul: "valid_83 base ext \<Longrightarrow> CHR 0x00 \<notin> set (join_83 base ext)"
  by (auto simp: join_83_def valid_83_def name_char_def list_all_iff)

lemma padded_first: "list_all name_char s \<Longrightarrow> 0 < n \<Longrightarrow>
    padded n (map (\<lambda>c. byte_of (to_upper c)) s) ! 0 = space \<longleftrightarrow> s = []"
  by (cases s; cases n) (simp_all add: padded_def upper_not_space)

lemma display_split_name:
  assumes "valid_83 base ext" and fields: "split_name (join_83 base ext) = (de_name d, de_ext d)"
  shows "dirent_to_display d = map to_upper (join_83 base ext)"
proof -
  let ?up = "map (\<lambda>c. byte_of (to_upper c))"
  have name: "de_name d = padded 8 (?up base)" and ext: "de_ext d = padded 3 (?up ext)"
    using fields split_name_join [OF assms(1)] by simp_all
  have v: "list_all name_char base" "list_all name_char ext" "length base \<le> 8" "length ext \<le> 3"
    using assms(1) by (simp_all add: valid_83_def)
  have "dirent_to_display d = cstr (map to_upper (join_83 base ext))"
    unfolding dirent_to_display_def name ext layout_values takeWhile_padded_name [OF v(1,3)]
      takeWhile_padded_name [OF v(2,4)]
    by (simp add: padded_first [OF v(2)] join_83_def comp_def)
  then show ?thesis
    using valid_83_no_nul [OF valid_83_upper [OF assms(1)]] by (metis cstr_id map_upper_join)
qed

text \<open>C38. The name shown for an entry that was created with an 8.3 name is that name in upper case,
  and looking the shown name up again gives the same two fields.\<close>

theorem name_83_roundtrip:
  assumes "valid_83 base ext" and "split_name (join_83 base ext) = (de_name d, de_ext d)"
  shows "dirent_to_display d = map to_upper (join_83 base ext)
    \<and> split_name (dirent_to_display d) = (de_name d, de_ext d)"
proof -
  have disp: "dirent_to_display d = map to_upper (join_83 base ext)"
    using assms by (rule display_split_name)
  have "split_name (dirent_to_display d) = split_name (join_83 base ext)"
    by (simp add: disp map_upper_join split_name_join assms(1) valid_83_upper comp_def)
  with disp assms(2) show ?thesis by simp
qed

theorem name_83_roundtrip_witness:
  "let d = (dirent_at zero_sector 0)\<lparr>de_name := fst (split_name ''readme.txt''), de_ext := snd (split_name ''readme.txt'')\<rparr>
   in dirent_to_display d = ''README.TXT'' \<and> split_name ''README.TXT'' = split_name ''readme.txt''"
proof -
  let ?d = "(dirent_at zero_sector 0)\<lparr>de_name := fst (split_name ''readme.txt''), de_ext := snd (split_name ''readme.txt'')\<rparr>"
  have j: "join_83 ''readme'' ''txt'' = ''readme.txt''" by (simp add: join_83_def)
  have v: "valid_83 ''readme'' ''txt''" by (simp add: valid_83_def name_char_def)
  have f: "split_name (join_83 ''readme'' ''txt'') = (de_name ?d, de_ext ?d)" by (simp add: j)
  have h: "dirent_to_display ?d = map to_upper ''readme.txt'' \<and> split_name (dirent_to_display ?d) = split_name ''readme.txt''"
    using name_83_roundtrip [OF v f] unfolding f [symmetric] unfolding j .
  have up: "map to_upper ''readme.txt'' = ''README.TXT''" by code_simp
  have disp: "dirent_to_display ?d = ''README.TXT''" using h by (simp only: up)
  have "split_name ''README.TXT'' = split_name ''readme.txt''" using conjunct2 [OF h] unfolding disp .
  with disp show ?thesis by (simp only: Let_def simp_thms)
qed

text \<open>The entries \<open>.\<close> and \<open>..\<close> that \<open>fs_mkdir\<close> writes can never be named by a user: no name that
  \<open>split_name\<close> produces starts with a dot.\<close>

lemma split_name_no_dot: "split_name s = (n, e) \<Longrightarrow> byte_of CHR ''.'' \<notin> set n"
proof
  assume s: "split_name s = (n, e)" and "byte_of CHR ''.'' \<in> set n"
  moreover have "byte_of CHR ''.'' \<noteq> space" using byte_of_space by simp
  ultimately have "CHR ''.'' \<in> to_upper ` set (takeWhile (\<lambda>c. c \<noteq> CHR ''.'') s)"
    by (auto simp: split_name_def Let_def padded_def dest!: in_set_takeD)
  then obtain c where "c \<in> set (takeWhile (\<lambda>c. c \<noteq> CHR ''.'') s)" "to_upper c = CHR ''.''" by auto
  then show False using to_upper_eq_iff [of "CHR ''.''" c] set_takeWhileD by force
qed

lemma split_name_not_dots: "split_name s = (n, e) \<Longrightarrow> n \<noteq> DOT_NAME \<and> n \<noteq> DOTDOT_NAME"
  using split_name_no_dot [of s n e] by (auto simp: DOT_NAME_def DOTDOT_NAME_def padded_def)

end
