(* ===== verification/Dir.thy ===== *)
theory Dir
  imports FatOps Dirent
begin

text \<open>
  The directory abstraction of \<open>kernel/fs.c\<close>: the cached root directory, directories as either the
  root or a cluster chain of entries, the iterator over their slots, searching, finding a free
  slot and writing an entry. The iterator's loops do not end on a cyclic chain, so they are
  partial: \<open>None\<close> is a call that never returns. \<open>iter_yields\<close> says what an iteration that ends
  visits, and every loop is characterised over that list.
\<close>

section \<open>State\<close>

text \<open>The static variables of \<open>fs.c\<close>, and the disk.\<close>

record fs =
  fs_disk :: disk
  fs_root :: "dirent list"
  cwd_is_root :: bool
  cwd_cluster :: u16
  cwd_path :: string

record dir_ref =
  is_root :: bool
  dir_cluster :: u16

record entry_loc =
  loc_dir :: dir_ref
  root_index :: nat
  entry_cluster :: u16
  entry_index :: nat

record dir_iter =
  it_dir :: dir_ref
  it_root_index :: nat
  it_cluster :: u16
  in_cluster_index :: nat
  it_done :: bool

section \<open>The root directory cache\<close>

text \<open>Byte \<open>i\<close> of the array \<open>root\<close>.\<close>

definition root_byte :: "dirent list \<Rightarrow> nat \<Rightarrow> u8" where
  "root_byte root i = dirent_bytes (root ! (i div 32)) ! (i mod 32)"

definition root_load :: "fs \<Rightarrow> fs" where
  "root_load s = s\<lparr>fs_root :=
     map (\<lambda>j. dirent_at (disk_read_sector (fs_disk s) (of_nat (FS_ROOT_LBA + j div FS_ENTRIES_PER_CLUSTER)))
               (j mod FS_ENTRIES_PER_CLUSTER)) [0..<FS_ROOT_ENTRIES]\<rparr>"

definition root_save :: "fs \<Rightarrow> fs" where
  "root_save s = s\<lparr>fs_disk :=
     fold (\<lambda>k d. disk_write_sector d (of_nat (FS_ROOT_LBA + k)) (\<lambda>b. root_byte (fs_root s) (k * FS_BYTES_PER_SECTOR + b)))
       [0..<FS_ROOT_DIR_SECTORS] (fs_disk s)\<rparr>"

section \<open>Iterating over a directory\<close>

definition cwd_dir :: "fs \<Rightarrow> dir_ref" where
  "cwd_dir s = \<lparr>is_root = cwd_is_root s, dir_cluster = cwd_cluster s\<rparr>"

definition dir_iter_start :: "dir_ref \<Rightarrow> dir_iter" where
  "dir_iter_start dir = \<lparr>it_dir = dir, it_root_index = 0, it_cluster = dir_cluster dir,
     in_cluster_index = 0, it_done = False\<rparr>"

text \<open>\<open>None\<close> at the end; otherwise the entry and where it lies. Location fields that the source
  leaves unset are 0 here; no code reads them.\<close>

definition dir_iter_next :: "fs \<Rightarrow> dir_iter \<Rightarrow> (dirent \<times> entry_loc) option \<times> dir_iter" where
  "dir_iter_next s it =
     (if it_done it then (None, it)
      else if is_root (it_dir it) then
        (if it_root_index it \<ge> FS_ROOT_ENTRIES then (None, it\<lparr>it_done := True\<rparr>)
         else (Some (fs_root s ! it_root_index it,
                     \<lparr>loc_dir = it_dir it, root_index = it_root_index it, entry_cluster = 0, entry_index = 0\<rparr>),
               it\<lparr>it_root_index := it_root_index it + 1\<rparr>))
      else if \<not> is_link (it_cluster it) then (None, it\<lparr>it_done := True\<rparr>)
      else
        (let buf = disk_read_sector (fs_disk s) (cluster_to_lba (it_cluster it));
             out = dirent_at buf (in_cluster_index it);
             loc = \<lparr>loc_dir = it_dir it, root_index = 0, entry_cluster = it_cluster it,
                    entry_index = in_cluster_index it\<rparr>;
             i = in_cluster_index it + 1
         in (Some (out, loc),
             if i \<ge> FS_ENTRIES_PER_CLUSTER
             then it\<lparr>in_cluster_index := 0, it_cluster := fat_read (fs_disk s) (it_cluster it)\<rparr>
             else it\<lparr>in_cluster_index := i\<rparr>)))"

definition dir_write_entry :: "entry_loc \<Rightarrow> dirent \<Rightarrow> fs \<Rightarrow> fs" where
  "dir_write_entry loc entry s =
     (if is_root (loc_dir loc) then root_save (s\<lparr>fs_root := (fs_root s)[root_index loc := entry]\<rparr>)
      else
        (let lba = cluster_to_lba (entry_cluster loc);
             buf = disk_read_sector (fs_disk s) lba
         in s\<lparr>fs_disk := disk_write_sector (fs_disk s) lba (dirent_put buf (entry_index loc) entry)\<rparr>))"

text \<open>The test that every loop makes on a slot's first name byte.\<close>

definition unused :: "dirent \<Rightarrow> bool" where
  "unused e \<longleftrightarrow> (let first = de_name e ! 0 in first = FS_DIRENT_FREE \<or> first = FS_DIRENT_DELETED)"

partial_function (option) dir_scan_from ::
  "fs \<Rightarrow> dir_iter \<Rightarrow> u8 list \<Rightarrow> u8 list \<Rightarrow> (dirent \<times> entry_loc) option option" where
  "dir_scan_from s it name8 ext3 =
     (case dir_iter_next s it of
        (None, it') \<Rightarrow> Some None
      | (Some (e, l), it') \<Rightarrow>
          if unused e then dir_scan_from s it' name8 ext3
          else if fields_eq (de_name e) name8 FS_NAME_FIELD_LEN \<and> fields_eq (de_ext e) ext3 FS_EXT_FIELD_LEN
          then Some (Some (e, l))
          else dir_scan_from s it' name8 ext3)"

definition dir_scan :: "fs \<Rightarrow> dir_ref \<Rightarrow> u8 list \<Rightarrow> u8 list \<Rightarrow> (dirent \<times> entry_loc) option option" where
  "dir_scan s dir name8 ext3 = dir_scan_from s (dir_iter_start dir) name8 ext3"

text \<open>The search of \<open>dir_find_free\<close>: a free slot, or the last cluster of the directory.\<close>

partial_function (option) dir_free_from ::
  "fs \<Rightarrow> dir_ref \<Rightarrow> dir_iter \<Rightarrow> u16 \<Rightarrow> (entry_loc option \<times> u16) option" where
  "dir_free_from s dir it last_cluster =
     (case dir_iter_next s it of
        (None, it') \<Rightarrow> Some (None, last_cluster)
      | (Some (e, l), it') \<Rightarrow>
          (let last_cluster = (if is_root dir then last_cluster else entry_cluster l) in
           if unused e then Some (Some l, last_cluster)
           else dir_free_from s dir it' last_cluster))"

definition dir_find_free :: "fs \<Rightarrow> dir_ref \<Rightarrow> (entry_loc option \<times> fs) option" where
  "dir_find_free s dir = do {
     (found, last_cluster) \<leftarrow> dir_free_from s dir (dir_iter_start dir) (if is_root dir then 0 else dir_cluster dir);
     Some (case found of
         Some l \<Rightarrow> (Some l, s)
       | None \<Rightarrow>
           if is_root dir then (None, s)
           else (let (new_cluster, d) = fat_alloc_cluster (fs_disk s) in
             if new_cluster = 0 then (None, s\<lparr>fs_disk := d\<rparr>)
             else (let d = fat_write d last_cluster new_cluster;
                       d = disk_write_sector d (cluster_to_lba new_cluster) zero_sector
                   in (Some \<lparr>loc_dir = dir, root_index = 0, entry_cluster = new_cluster, entry_index = 0\<rparr>,
                       s\<lparr>fs_disk := d\<rparr>))))
   }"

section \<open>What an iteration visits\<close>

inductive iter_yields :: "fs \<Rightarrow> dir_iter \<Rightarrow> (dirent \<times> entry_loc) list \<Rightarrow> bool" for s where
  stop: "dir_iter_next s it = (None, it') \<Longrightarrow> iter_yields s it []"
| step: "dir_iter_next s it = (Some x, it') \<Longrightarrow> iter_yields s it' ls \<Longrightarrow> iter_yields s it (x # ls)"

inductive_cases iter_yields_NilE: "iter_yields s it []"
inductive_cases iter_yields_ConsE: "iter_yields s it (x # ls)"

definition cluster_slots :: "disk \<Rightarrow> dir_ref \<Rightarrow> u16 \<Rightarrow> (dirent \<times> entry_loc) list" where
  "cluster_slots d dir c = map (\<lambda>i. (dirent_at (d (cluster_to_lba c)) i,
     \<lparr>loc_dir = dir, root_index = 0, entry_cluster = c, entry_index = i\<rparr>)) [0..<16]"

definition root_slots :: "fs \<Rightarrow> dir_ref \<Rightarrow> (dirent \<times> entry_loc) list" where
  "root_slots s dir = map (\<lambda>i. (fs_root s ! i,
     \<lparr>loc_dir = dir, root_index = i, entry_cluster = 0, entry_index = 0\<rparr>)) [0..<128]"

text \<open>All slots of a directory whose clusters are \<open>xs\<close> (the root has none).\<close>

definition dir_slots :: "fs \<Rightarrow> dir_ref \<Rightarrow> u16 list \<Rightarrow> (dirent \<times> entry_loc) list" where
  "dir_slots s dir xs = (if is_root dir then root_slots s dir else concat (map (cluster_slots (fs_disk s) dir) xs))"

definition dir_chain :: "fs \<Rightarrow> dir_ref \<Rightarrow> u16 list \<Rightarrow> bool" where
  "dir_chain s dir xs \<longleftrightarrow> (if is_root dir then xs = [] else chain (fat_read (fs_disk s)) (dir_cluster dir) xs)"

lemma iter_yields_root:
  assumes "is_root (it_dir it)" "\<not> it_done it" "it_root_index it \<le> 128"
  shows "iter_yields s it (drop (it_root_index it) (root_slots s (it_dir it)))"
  using assms
proof (induction "128 - it_root_index it" arbitrary: it)
  case 0
  then show ?case by (auto intro!: iter_yields.stop simp: dir_iter_next_def root_slots_def)
next
  case (Suc n)
  let ?i = "it_root_index it"
  let ?it = "it\<lparr>it_root_index := ?i + 1\<rparr>"
  have i: "?i < 128" using Suc.hyps(2) by simp
  have "iter_yields s ?it (drop (Suc ?i) (root_slots s (it_dir it)))"
    using Suc.hyps(1) [of ?it] Suc.hyps(2) Suc.prems by simp
  moreover have "dir_iter_next s it = (Some (root_slots s (it_dir it) ! ?i), ?it)"
    using Suc.prems i by (simp add: dir_iter_next_def root_slots_def)
  moreover have "drop ?i (root_slots s (it_dir it)) = root_slots s (it_dir it) ! ?i # drop (Suc ?i) (root_slots s (it_dir it))"
    using i by (intro Cons_nth_drop_Suc [symmetric]) (simp add: root_slots_def)
  ultimately show ?case by (simp add: iter_yields.step)
qed

lemma iter_yields_cluster:
  assumes "\<not> is_root (it_dir it)" "\<not> it_done it" "is_link (it_cluster it)" "in_cluster_index it < 16"
    and "iter_yields s (it\<lparr>in_cluster_index := 0, it_cluster := fat_read (fs_disk s) (it_cluster it)\<rparr>) rest"
  shows "iter_yields s it (drop (in_cluster_index it) (cluster_slots (fs_disk s) (it_dir it) (it_cluster it)) @ rest)"
  using assms
proof (induction "15 - in_cluster_index it" arbitrary: it)
  case 0
  then have i: "in_cluster_index it = 15" by simp
  let ?sl = "cluster_slots (fs_disk s) (it_dir it) (it_cluster it)"
  have "drop 15 ?sl = ?sl ! 15 # drop (Suc 15) ?sl"
    by (intro Cons_nth_drop_Suc [symmetric]) (simp add: cluster_slots_def)
  also have "drop (Suc 15) ?sl = []" by (simp add: cluster_slots_def)
  finally have "drop 15 ?sl = [?sl ! 15]" .
  with 0 i show ?case
    by (auto intro!: iter_yields.step simp: dir_iter_next_def cluster_slots_def disk_simps Let_def)
next
  case (Suc n)
  let ?i = "in_cluster_index it" and ?sl = "cluster_slots (fs_disk s) (it_dir it) (it_cluster it)"
  let ?it = "it\<lparr>in_cluster_index := ?i + 1\<rparr>"
  have i: "?i < 15" using Suc.hyps(2) by simp
  have "iter_yields s ?it (drop (Suc ?i) ?sl @ rest)"
    using Suc.hyps(1) [of ?it] Suc.hyps(2) Suc.prems i by simp
  moreover have "dir_iter_next s it = (Some (?sl ! ?i), ?it)"
    using Suc.prems i by (simp add: dir_iter_next_def cluster_slots_def disk_simps Let_def)
  moreover have "drop ?i ?sl = ?sl ! ?i # drop (Suc ?i) ?sl"
    using i by (intro Cons_nth_drop_Suc [symmetric]) (simp add: cluster_slots_def)
  ultimately show ?case by (simp add: iter_yields.step)
qed

lemma iter_yields_chain:
  assumes "\<not> is_root (it_dir it)" "\<not> it_done it" "in_cluster_index it = 0"
    and "chain (fat_read (fs_disk s)) (it_cluster it) xs"
  shows "iter_yields s it (concat (map (cluster_slots (fs_disk s) (it_dir it)) xs))"
  using assms
proof (induction xs arbitrary: it)
  case Nil
  then show ?case by (auto intro!: iter_yields.stop simp: dir_iter_next_def)
next
  case (Cons x xs)
  let ?it = "it\<lparr>in_cluster_index := 0, it_cluster := fat_read (fs_disk s) (it_cluster it)\<rparr>"
  have "iter_yields s ?it (concat (map (cluster_slots (fs_disk s) (it_dir it)) xs))"
    using Cons.IH [of ?it] Cons.prems by simp
  with Cons.prems iter_yields_cluster [of it s] show ?case by simp
qed

lemma iter_yields_dir: "dir_chain s dir xs \<Longrightarrow> iter_yields s (dir_iter_start dir) (dir_slots s dir xs)"
  using iter_yields_root [of "dir_iter_start dir" s] iter_yields_chain [of "dir_iter_start dir" s xs]
  by (auto simp: dir_chain_def dir_slots_def dir_iter_start_def split: if_splits)

section \<open>The loops over a directory\<close>

definition slot_matches :: "u8 list \<Rightarrow> u8 list \<Rightarrow> dirent \<times> entry_loc \<Rightarrow> bool" where
  "slot_matches n e x \<longleftrightarrow> \<not> unused (fst x) \<and> fields_eq (de_name (fst x)) n FS_NAME_FIELD_LEN
     \<and> fields_eq (de_ext (fst x)) e FS_EXT_FIELD_LEN"

lemma slot_matches_pair [simp]:
  "slot_matches n e (d, l) \<longleftrightarrow> \<not> unused d \<and> fields_eq (de_name d) n 8 \<and> fields_eq (de_ext d) e 3"
  by (simp add: slot_matches_def)

lemma dir_scan_from_find:
  "iter_yields s it ls \<Longrightarrow> dir_scan_from s it n e = Some (find (slot_matches n e) ls)"
proof (induction rule: iter_yields.induct)
  case (stop it it')
  then show ?case by (subst dir_scan_from.simps) simp
next
  case (step it x it' ls)
  then show ?case by (subst dir_scan_from.simps) (auto split: prod.splits)
qed

lemma dir_scan_find:
  "dir_chain s dir xs \<Longrightarrow> dir_scan s dir n e = Some (find (slot_matches n e) (dir_slots s dir xs))"
  unfolding dir_scan_def by (rule dir_scan_from_find [OF iter_yields_dir])

lemma dir_free_from_find:
  "iter_yields s it ls \<Longrightarrow> dir_free_from s dir it c = Some
     (case find (\<lambda>x. unused (fst x)) ls of
        Some (e, l) \<Rightarrow> (Some l, if is_root dir then c else entry_cluster l)
      | None \<Rightarrow> (None, if is_root dir \<or> ls = [] then c else entry_cluster (snd (last ls))))"
proof (induction arbitrary: c rule: iter_yields.induct)
  case (stop it it')
  then show ?case by (subst dir_free_from.simps) simp
next
  case (step it x it' ls)
  obtain e l where x: "x = (e, l)" by (cases x)
  show ?case
    using step by (subst dir_free_from.simps) (auto simp: x Let_def split: option.splits)
qed

end
