(* ===== verification/Path.thy ===== *)
theory Path
  imports Dir
begin

text \<open>
  Path walking of \<open>kernel/fs.c\<close>: the display path kept beside the current directory
  (\<open>path_append\<close>, \<open>path_trim_last\<close>), \<open>walk_path\<close> and \<open>resolve_parent\<close>.
\<close>

section \<open>Results\<close>

text \<open>The source has one error code, \<open>-1\<close>. A call is \<open>None\<close> when it never returns, \<open>Some (Inl
  FsFailed)\<close> when it returns \<open>-1\<close>.\<close>

datatype fs_error = FsFailed

type_synonym 'a fs_result = "(fs_error + 'a) option"

section \<open>The display path\<close>

definition path_append :: "string \<Rightarrow> nat \<Rightarrow> dirent \<Rightarrow> string" where
  "path_append path_buf buf_len entry =
     (let len = length path_buf;
          disp = dirent_to_display entry;
          path_buf =
            (if len > 1 \<or> (len = 1 \<and> path_buf ! 0 \<noteq> CHR ''/'')
             then (if len < buf_len - 1 then path_buf @ ''/'' else path_buf)
             else if len = 0
             then (if len < buf_len - 1 then path_buf @ ''/'' else path_buf)
             else path_buf)
      in path_buf @ take (buf_len - 1 - length path_buf) disp)"

text \<open>The loop that looks for the last slash, downwards from \<open>len\<close>.\<close>

fun trim_from :: "string \<Rightarrow> nat \<Rightarrow> nat" where
  "trim_from p 0 = 0"
| "trim_from p (Suc len) = (if p ! Suc len \<noteq> CHR ''/'' then trim_from p len else Suc len)"

definition path_trim_last :: "string \<Rightarrow> string" where
  "path_trim_last path_buf =
     (if length path_buf \<le> 1 then path_buf
      else (let len = trim_from path_buf (length path_buf - 1);
                len = (if len = 0 then 1 else len)
            in take len path_buf))"

section \<open>Walking\<close>

text \<open>One component (at most \<open>FS_COMPONENT_LEN - 1\<close> characters) and what follows it and its
  slashes.\<close>

definition next_component :: "string \<Rightarrow> string \<times> string" where
  "next_component p =
     (let component = take (FS_COMPONENT_LEN - 1) (takeWhile (\<lambda>c. c \<noteq> CHR ''/'') p)
      in (component, dropWhile (\<lambda>c. c = CHR ''/'') (drop (length component) p)))"

lemma next_component_shorter: "p \<noteq> [] \<Longrightarrow> next_component p = (component, rest) \<Longrightarrow> length rest < length p"
proof -
  assume p: "p \<noteq> []" and n: "next_component p = (component, rest)"
  have le: "length rest \<le> length (drop (length component) p)"
  proof -
    have "rest = dropWhile (\<lambda>c. c = CHR ''/'') (drop (length component) p)"
      using n by (simp only: next_component_def Let_def prod.inject) blast
    then show ?thesis using length_dropWhile_le by metis
  qed
  show ?thesis
  proof (cases "component = []")
    case True
    with p n have "hd p = CHR ''/''" by (cases p) (auto simp: next_component_def Let_def split: if_splits)
    with p n True obtain q where "p = CHR ''/'' # q" by (cases p) auto
    with n True show ?thesis
      by (auto simp: next_component_def Let_def length_dropWhile_le less_Suc_eq_le)
  next
    case False
    with le p show ?thesis by (cases component; cases p) auto
  qed
qed

text \<open>The directory that \<open>..\<close> leads to: the root stays, a directory without a \<open>..\<close> entry stays, a
  zero cluster means the root.\<close>

definition walk_up :: "fs \<Rightarrow> dir_ref \<Rightarrow> dir_ref option" where
  "walk_up s dir =
     (if is_root dir then Some dir
      else do {
        r \<leftarrow> dir_scan s dir DOTDOT_NAME EMPTY_EXT;
        Some (case r of
            None \<Rightarrow> dir
          | Some (e, loc) \<Rightarrow>
              if first_cluster e = 0 then dir\<lparr>is_root := True\<rparr>
              else \<lparr>is_root = False, dir_cluster = first_cluster e\<rparr>)
      })"

function walk_from :: "fs \<Rightarrow> string \<Rightarrow> dir_ref \<Rightarrow> string option \<Rightarrow> nat \<Rightarrow> (dir_ref \<times> string option) fs_result" where
  "walk_from s p dir path_buf path_buf_len =
     (if p = [] then Some (Inr (dir, path_buf))
      else (case next_component p of (component, rest) \<Rightarrow>
        if component = [] \<or> str_eq component ''.'' then walk_from s rest dir path_buf path_buf_len
        else if str_eq component ''..'' then
          (case walk_up s dir of
             None \<Rightarrow> None
           | Some dir \<Rightarrow> walk_from s rest dir (map_option path_trim_last path_buf) path_buf_len)
        else (case split_name component of (n, e3) \<Rightarrow>
          (case dir_scan s dir n e3 of
             None \<Rightarrow> None
           | Some None \<Rightarrow> Some (Inl FsFailed)
           | Some (Some (entry, loc)) \<Rightarrow>
               if de_attr entry AND FS_ATTR_DIRECTORY = 0 then Some (Inl FsFailed)
               else walk_from s rest \<lparr>is_root = False, dir_cluster = first_cluster entry\<rparr>
                      (map_option (\<lambda>b. path_append b path_buf_len entry) path_buf) path_buf_len))))"
  by pat_completeness auto
termination
  by (relation "measure (\<lambda>(s, p, dir, b, n). length p)") (auto dest: next_component_shorter [OF _ sym])

declare walk_from.simps [simp del]

definition walk_path :: "fs \<Rightarrow> string \<Rightarrow> dir_ref \<Rightarrow> string option \<Rightarrow> nat \<Rightarrow> (dir_ref \<times> string option) fs_result" where
  "walk_path s path dir path_buf path_buf_len =
     (case path of
        c # p \<Rightarrow>
          if c = CHR ''/''
          then walk_from s p \<lparr>is_root = True, dir_cluster = 0\<rparr> (map_option (\<lambda>b. ''/'') path_buf) path_buf_len
          else walk_from s path dir path_buf path_buf_len
      | [] \<Rightarrow> walk_from s path dir path_buf path_buf_len)"

text \<open>The index of the last slash, \<open>-1\<close> without one.\<close>

fun last_slash_from :: "string \<Rightarrow> int \<Rightarrow> int \<Rightarrow> int" where
  "last_slash_from [] len last_slash = last_slash"
| "last_slash_from (c # cs) len last_slash =
     last_slash_from cs (len + 1) (if c = CHR ''/'' then len else last_slash)"

definition resolve_parent :: "fs \<Rightarrow> string \<Rightarrow> (dir_ref \<times> string) fs_result" where
  "resolve_parent s path =
     (if path = [] then Some (Inl FsFailed)
      else (let last_slash = last_slash_from path 0 (-1) in
        if last_slash < 0 then Some (Inr (cwd_dir s, str_copy_n path FS_COMPONENT_LEN))
        else (let leaf = str_copy_n (drop (nat (last_slash + 1)) path) FS_COMPONENT_LEN;
                  dl = nat (last_slash + 1);
                  dl = (if dl > 96 - 1 then 96 - 1 else dl);
                  dirpart = take dl path
              in case walk_path s dirpart (cwd_dir s) None 0 of
                   None \<Rightarrow> None
                 | Some (Inl err) \<Rightarrow> Some (Inl err)
                 | Some (Inr (d, b)) \<Rightarrow> Some (Inr (d, leaf)))))"

section \<open>Facts about paths\<close>

lemma last_slash_from_none: "CHR ''/'' \<notin> set p \<Longrightarrow> last_slash_from p i l = l"
  by (induction p i l rule: last_slash_from.induct) auto

lemma resolve_parent_plain:
  assumes "path \<noteq> []" "CHR ''/'' \<notin> set path"
  shows "resolve_parent s path = Some (Inr (cwd_dir s, take 12 path))"
  using assms by (simp add: resolve_parent_def last_slash_from_none str_copy_n_take)

lemma length_path_append:
  assumes "0 < n" "length p < n"
  shows "length (path_append p n e) < n"
  using assms by (auto simp: path_append_def Let_def min_def)

lemma trim_from_le: "trim_from p n \<le> n"
  by (induction p n rule: trim_from.induct) auto

lemma length_path_trim_last: "length (path_trim_last p) \<le> length p"
  by (simp add: path_trim_last_def Let_def)

end
