(* ===== verification/Console.thy ===== *)
theory Console
  imports Prelude
begin

text \<open>
  The text console of \<open>kernel/kernel.c\<close> (the VGA cell buffer, the cursor, scrolling) and the
  number printers (\<open>kprint_hex32\<close> there, \<open>kprint_uint\<close> in \<open>kernel/shell.c\<close>).
\<close>

section \<open>The VGA text screen\<close>

definition VGA_WIDTH :: nat where "VGA_WIDTH = 80"
definition VGA_HEIGHT :: nat where "VGA_HEIGHT = 25"
definition VGA_COLOR :: u16 where "VGA_COLOR = 0x0F"

lemmas vga_consts = VGA_WIDTH_def VGA_HEIGHT_def VGA_COLOR_def

record vga =
  vga_buffer :: "u16 list"
  cursor_row :: nat
  cursor_col :: nat

text \<open>A cell: the character in the low byte, the colour in the high byte.\<close>

definition vga_cell :: "char \<Rightarrow> u16" where
  "vga_cell c = ucast (byte_of c) OR push_bit 8 VGA_COLOR"

definition vga_update_cursor :: "vga \<Rightarrow> port_out" where
  "vga_update_cursor v =
     (let pos = of_nat (cursor_row v * VGA_WIDTH + cursor_col v) :: u16
      in [(0x3D4, 0x0F), (0x3D5, ucast (pos AND 0xFF)), (0x3D4, 0x0E), (0x3D5, ucast (drop_bit 8 pos AND 0xFF))])"

definition vga_clear :: "vga \<Rightarrow> vga" where
  "vga_clear v = \<lparr>vga_buffer = fold (\<lambda>i buf. buf[i := vga_cell CHR '' '']) [0..<VGA_WIDTH * VGA_HEIGHT] (vga_buffer v),
     cursor_row = 0, cursor_col = 0\<rparr>"

text \<open>The two loops that copy every row one up, in the order of the code.\<close>

definition move_rows_up :: "u16 list \<Rightarrow> u16 list" where
  "move_rows_up buf =
     fold (\<lambda>row. fold (\<lambda>col buf. buf[(row - 1) * VGA_WIDTH + col := buf ! (row * VGA_WIDTH + col)]) [0..<VGA_WIDTH])
       [1..<VGA_HEIGHT] buf"

definition vga_scroll_if_needed :: "vga \<Rightarrow> vga" where
  "vga_scroll_if_needed v =
     (if cursor_row v < VGA_HEIGHT then v
      else v\<lparr>vga_buffer :=
               fold (\<lambda>col buf. buf[(VGA_HEIGHT - 1) * VGA_WIDTH + col := vga_cell CHR '' '']) [0..<VGA_WIDTH]
                 (move_rows_up (vga_buffer v)),
             cursor_row := VGA_HEIGHT - 1\<rparr>)"

text \<open>The character handling of \<open>vga_putchar\<close>, before it scrolls.\<close>

definition vga_place :: "char \<Rightarrow> vga \<Rightarrow> vga" where
  "vga_place c v =
     (if c = CHR 0x0A then v\<lparr>cursor_col := 0, cursor_row := cursor_row v + 1\<rparr>
      else if c = CHR 0x08 then
        (let v = (if cursor_col v > 0 then v\<lparr>cursor_col := cursor_col v - 1\<rparr>
                  else if cursor_row v > 0 then v\<lparr>cursor_row := cursor_row v - 1, cursor_col := VGA_WIDTH - 1\<rparr>
                  else v);
             index = cursor_row v * VGA_WIDTH + cursor_col v
         in v\<lparr>vga_buffer := (vga_buffer v)[index := vga_cell CHR '' '']\<rparr>)
      else
        (let index = cursor_row v * VGA_WIDTH + cursor_col v;
             v = v\<lparr>vga_buffer := (vga_buffer v)[index := vga_cell c], cursor_col := cursor_col v + 1\<rparr>
         in if cursor_col v \<ge> VGA_WIDTH then v\<lparr>cursor_col := 0, cursor_row := cursor_row v + 1\<rparr> else v))"

definition vga_putchar :: "char \<Rightarrow> vga \<Rightarrow> vga \<times> port_out" where
  "vga_putchar c v = (let v = vga_scroll_if_needed (vga_place c v) in (v, vga_update_cursor v))"

text \<open>\<open>kprint\<close> stops at the terminator; the port writes of all characters are concatenated.\<close>

fun kprint :: "string \<Rightarrow> vga \<Rightarrow> vga \<times> port_out" where
  "kprint [] v = (v, [])"
| "kprint (c # str) v =
     (let (v, out) = vga_putchar c v; (v, out') = kprint str v in (v, out @ out'))"

definition vga_enable_cursor :: port_out where
  "vga_enable_cursor = [(0x3D4, 0x0A), (0x3D5, 0x0D), (0x3D4, 0x0B), (0x3D5, 0x0F)]"

section \<open>Printing numbers\<close>

definition hex_digits :: string where
  "hex_digits = ''0123456789ABCDEF''"

definition hex32_string :: "u32 \<Rightarrow> string" where
  "hex32_string val = ''0x'' @ map (\<lambda>i. hex_digits ! unat (drop_bit ((7 - i) * 4) val AND 0xF)) [0..<8]"

definition digit_char :: "nat \<Rightarrow> char" where
  "digit_char n = char_of (of_char (CHR ''0'') + n)"

text \<open>The loop of \<open>kprint_uint\<close>, which fills its buffer from the end.\<close>

function uint_loop :: "u32 \<Rightarrow> string \<Rightarrow> string" where
  "uint_loop val buf =
     (if val > 0 then uint_loop (val div 10) (digit_char (unat (val mod 10)) # buf) else buf)"
  by pat_completeness auto
termination
  by (relation "measure (\<lambda>(val, buf). unat val)") (auto simp: unat_div word_gt_0 unat_gt_0)

declare uint_loop.simps [simp del]

definition uint_string :: "u32 \<Rightarrow> string" where
  "uint_string val = (if val = 0 then ''0'' else uint_loop val [])"

text \<open>Reading a decimal numeral: the value of its digits.\<close>

definition digit_value :: "char \<Rightarrow> nat" where
  "digit_value c = of_char c - of_char (CHR ''0'')"

definition decimal_value :: "string \<Rightarrow> nat" where
  "decimal_value s = foldl (\<lambda>v c. 10 * v + digit_value c) 0 s"

lemma digit_value_char [simp]: "n < 10 \<Longrightarrow> digit_value (digit_char n) = n"
  by (simp add: digit_value_def digit_char_def)

lemma digit_char_nz: "n < 10 \<Longrightarrow> digit_char n \<noteq> CHR 0x00"
proof
  assume n: "n < 10" and "digit_char n = CHR 0x00"
  then have "of_char (digit_char n) = (0 :: nat)" by simp
  with n show False by (simp add: digit_char_def)
qed

lemma decimal_value_snoc: "decimal_value (s @ [c]) = 10 * decimal_value s + digit_value c"
  by (simp add: decimal_value_def)

lemma uint_loop_value:
  "\<exists>p. uint_loop val buf = p @ buf \<and> decimal_value p = unat val \<and> list_all (\<lambda>c. \<exists>n<10. c = digit_char n) p
      \<and> (\<forall>k. unat val < 10 ^ k \<longrightarrow> length p \<le> k)"
proof (induction val buf rule: uint_loop.induct)
  case (1 val buf)
  show ?case
  proof (cases "val > 0")
    case False
    then have "val = 0" by (simp add: word_gt_0)
    then show ?thesis by (subst uint_loop.simps) (auto simp: decimal_value_def)
  next
    case True
    let ?d = "digit_char (unat (val mod 10))"
    have m: "unat (val mod 10) < 10" by (simp add: unat_mod)
    from "1.IH" [OF True] obtain p where p: "uint_loop (val div 10) (?d # buf) = p @ ?d # buf"
      "decimal_value p = unat (val div 10)" "list_all (\<lambda>c. \<exists>n<10. c = digit_char n) p"
      "\<forall>k. unat (val div 10) < 10 ^ k \<longrightarrow> length p \<le> k" by blast
    have "decimal_value (p @ [?d]) = unat val"
      using m by (simp add: decimal_value_snoc p(2) unat_div unat_mod)
    moreover have "length (p @ [?d]) \<le> k" if k: "unat val < 10 ^ k" for k
    proof (cases k)
      case 0
      with k True show ?thesis by (simp add: word_gt_0 unat_0_iff)
    next
      case (Suc j)
      then have "unat (val div 10) < 10 ^ j"
        using k by (simp add: unat_div less_mult_imp_div_less mult.commute)
      then show ?thesis using p(4) Suc by simp
    qed
    moreover have "uint_loop val buf = (p @ [?d]) @ buf"
      using True p(1) by (subst uint_loop.simps) simp
    ultimately show ?thesis using p(3) m by (intro exI [of _ "p @ [?d]"]) auto
  qed
qed

text \<open>\<open>kprint_uint\<close> prints the decimal numeral of its argument, in at most the 10 characters
  that its 11-byte buffer has room for beside the terminator.\<close>

theorem uint_string_correct:
  "decimal_value (uint_string n) = unat n \<and> 0 < length (uint_string n) \<and> length (uint_string n) \<le> 10
   \<and> list_all (\<lambda>c. \<exists>d<10. c = digit_char d) (uint_string n)"
proof (cases "n = 0")
  case True
  have "digit_char 0 = CHR ''0''" by (simp add: digit_char_def char_of_eq_iff)
  then show ?thesis using True by (auto simp: uint_string_def decimal_value_def digit_value_def intro!: exI [of _ "0 :: nat"])
next
  case False
  from uint_loop_value [of n "[]"] obtain p where p: "uint_loop n [] = p" "decimal_value p = unat n"
    "list_all (\<lambda>c. \<exists>d<10. c = digit_char d) p" "\<forall>k. unat n < 10 ^ k \<longrightarrow> length p \<le> k" by auto
  have "unat n < 10 ^ 10" using unat_u32_less [of n] by (rule order_less_le_trans) simp
  moreover have "p \<noteq> []" using False p(2) by (auto simp: decimal_value_def unat_0_iff)
  ultimately show ?thesis using False p by (simp add: uint_string_def)
qed

section \<open>The screen invariant\<close>

definition vga_wf :: "vga \<Rightarrow> bool" where
  "vga_wf v \<longleftrightarrow> length (vga_buffer v) = VGA_WIDTH * VGA_HEIGHT \<and> cursor_row v < VGA_HEIGHT \<and> cursor_col v < VGA_WIDTH"

lemma fold_update_length: "length (fold (\<lambda>i buf. buf[f i := g i buf]) is buf) = length buf"
  by (induction "is" arbitrary: buf) auto

lemma length_move_rows_up: "length (move_rows_up buf) = length buf"
proof -
  have "length (fold (\<lambda>row. fold (\<lambda>col buf. buf[(row - 1) * VGA_WIDTH + col := buf ! (row * VGA_WIDTH + col)]) [0..<VGA_WIDTH]) rows buf)
      = length buf" for rows
    by (induction rows arbitrary: buf) (auto simp: fold_update_length)
  then show ?thesis by (simp add: move_rows_up_def)
qed

lemma vga_putchar_wf: "vga_wf v \<Longrightarrow> vga_wf (fst (vga_putchar c v))"
  by (auto simp: vga_wf_def vga_putchar_def vga_place_def vga_scroll_if_needed_def Let_def vga_consts
      fold_update_length length_move_rows_up)

lemma kprint_wf: "vga_wf v \<Longrightarrow> vga_wf (fst (kprint s v))"
proof (induction s arbitrary: v)
  case (Cons c s)
  from Cons.IH [OF vga_putchar_wf [OF Cons.prems, of c]] show ?case
    by (simp add: Let_def case_prod_unfold)
qed simp

section \<open>Scrolling\<close>

lemma copy_down:
  "n + 80 \<le> length buf \<Longrightarrow>
   fold (\<lambda>i buf. buf[i := buf ! (i + 80)]) [0..<n] buf = take n (drop 80 buf) @ drop n buf"
proof (induction n)
  case (Suc n)
  let ?pre = "take n (drop 80 buf)"
  have len: "length ?pre = n" using Suc.prems by simp
  have d: "drop n buf = buf ! n # drop (Suc n) buf" using Suc.prems by (simp add: Cons_nth_drop_Suc)
  have t: "take (Suc n) (drop 80 buf) = ?pre @ [buf ! (n + 80)]"
    using Suc.prems by (simp add: take_Suc_conv_app_nth add.commute)
  have "(?pre @ drop n buf) ! (n + 80) = buf ! (n + 80)"
    using Suc.prems by (simp only: nth_append len) simp
  moreover have "(?pre @ drop n buf)[n := x] = ?pre @ x # drop (Suc n) buf" for x
    unfolding d by (simp only: list_update_append len) simp
  ultimately show ?case using Suc by (simp add: t del: take_Suc_conv_app_nth)
qed simp

lemma row_indices: "concat (map (\<lambda>r. map (\<lambda>c. (r - 1) * 80 + c) [0..<80]) [1..<Suc m]) = [0..<m * 80]"
proof (induction m)
  case (Suc m)
  have "[0..<Suc m * 80] = [0..<m * 80] @ map (\<lambda>c. m * 80 + c) [0..<80]"
    using upt_add_eq_append [of 0 "m * 80" 80] map_add_upt [of "m * 80" 80] by (simp add: add.commute)
  with Suc show ?case by simp
qed simp

lemma fold_concat_map: "fold f (concat (map g xs)) b = fold (\<lambda>x. fold f (g x)) xs b"
  by (induction xs arbitrary: b) auto

lemma move_rows_up_eq:
  assumes "length buf = 2000"
  shows "move_rows_up buf = drop 80 buf @ drop 1920 buf"
proof -
  let ?f = "\<lambda>i buf. buf[i := buf ! (i + 80)] :: u16 list"
  have "move_rows_up buf = fold (\<lambda>r. fold ?f (map (\<lambda>c. (r - 1) * 80 + c) [0..<80])) [1..<25] buf"
    unfolding move_rows_up_def vga_consts
    by (intro fold_cong refl) (auto simp: fold_map comp_def algebra_simps diff_mult_distrib intro!: fold_cong)
  also have "\<dots> = fold ?f [0..<24 * 80] buf"
    using row_indices [of 24] by (simp only: fold_concat_map [symmetric]) simp
  also have "\<dots> = drop 80 buf @ drop 1920 buf"
    using assms by (subst copy_down) simp_all
  finally show ?thesis .
qed

lemma blank_tail:
  "length buf = 2000 \<Longrightarrow> n \<le> 80 \<Longrightarrow> fold (\<lambda>col buf. buf[1920 + col := x]) [0..<n] buf = take 1920 buf @ replicate n x @ drop (1920 + n) buf"
proof (induction n)
  case (Suc n)
  have "drop (1920 + n) buf = buf ! (1920 + n) # drop (Suc (1920 + n)) buf"
    using Suc.prems by (intro Cons_nth_drop_Suc [symmetric]) simp
  with Suc show ?case by (simp add: list_update_append replicate_append_same [symmetric] min_def)
qed simp

text \<open>When the cursor runs off the last line the screen moves up by exactly one row: the top row
  is gone, every other row is kept in order, the new last row is blank, and the cursor stands on it.\<close>

theorem vga_scroll_shifts:
  assumes "length (vga_buffer v) = VGA_WIDTH * VGA_HEIGHT" "cursor_row v \<ge> VGA_HEIGHT"
  shows "vga_buffer (vga_scroll_if_needed v) = drop VGA_WIDTH (vga_buffer v) @ replicate VGA_WIDTH (vga_cell CHR '' '')
    \<and> cursor_row (vga_scroll_if_needed v) = VGA_HEIGHT - 1"
proof -
  have len: "length (vga_buffer v) = 2000" using assms(1) by (simp add: vga_consts)
  have "fold (\<lambda>col buf. buf[1920 + col := vga_cell CHR '' '']) [0..<80] (move_rows_up (vga_buffer v))
      = drop 80 (vga_buffer v) @ replicate 80 (vga_cell CHR '' '')"
    using len by (subst blank_tail) (simp_all add: length_move_rows_up move_rows_up_eq)
  then show ?thesis
    using assms(2) by (simp add: vga_scroll_if_needed_def vga_consts)
qed

theorem vga_scroll_shifts_witness:
  "vga_buffer (vga_scroll_if_needed \<lparr>vga_buffer = replicate 2000 7, cursor_row = 25, cursor_col = 0\<rparr>)
     = drop VGA_WIDTH (replicate 2000 7) @ replicate VGA_WIDTH (vga_cell CHR '' '')
   \<and> cursor_row (vga_scroll_if_needed \<lparr>vga_buffer = replicate 2000 7, cursor_row = 25, cursor_col = 0\<rparr>) = VGA_HEIGHT - 1"
  using vga_scroll_shifts [of "\<lparr>vga_buffer = replicate 2000 7, cursor_row = 25, cursor_col = 0\<rparr>"]
  by (simp add: vga_consts)

end
