(* ===== verification/Fs.thy ===== *)
theory Fs
  imports Path Console
begin

text \<open>
  The public interface of the file system (\<open>fs_init\<close> to \<open>fs_debug_stats\<close> in \<open>kernel/fs.c\<close>). Each
  operation takes the file system's state and returns the C return value with the new state;
  the outer \<open>option\<close> is \<open>None\<close> for a call that never returns (a directory scan on a cyclic chain).
\<close>

section \<open>Formatting and mounting\<close>

definition put_bytes :: "sector \<Rightarrow> nat \<Rightarrow> u8 list \<Rightarrow> sector" where
  "put_bytes buf i bs = (\<lambda>j. if i \<le> j \<and> j < i + length bs then bs ! (j - i) else buf j)"

definition put16 :: "sector \<Rightarrow> nat \<Rightarrow> u16 \<Rightarrow> sector" where
  "put16 buf i v = put_bytes buf i [lo8 v, hi8 v]"

definition put32 :: "sector \<Rightarrow> nat \<Rightarrow> u32 \<Rightarrow> sector" where
  "put32 buf i v = put16 (put16 buf i (lo16 v)) (i + 2) (hi16 v)"

definition fs_marker :: "u8 list" where
  "fs_marker = map byte_of ''RINKFS16''"

definition is_formatted :: "sector \<Rightarrow> bool" where
  "is_formatted buf \<longleftrightarrow> list_all (\<lambda>i. buf (54 + i) = fs_marker ! i) [0..<8]"

definition boot_sector :: sector where
  "boot_sector =
     (let buf = zero_sector;
          buf = buf(0 := 0xEB, 1 := 0x3C, 2 := 0x90);
          buf = put_bytes buf 3 (map byte_of ''RINKOS  '');
          buf = put16 buf 11 (of_nat FS_BYTES_PER_SECTOR);
          buf = buf(13 := of_nat FS_SECTORS_PER_CLUSTER);
          buf = put16 buf 14 (of_nat (FS_FAT1_LBA - FS_BOOT_LBA));
          buf = buf(16 := of_nat FS_NUM_FATS);
          buf = put16 buf 17 (of_nat FS_ROOT_ENTRIES);
          buf = put16 buf 19 (of_nat (FS_IMAGE_TOTAL_SECTORS - FS_VOL_START_LBA));
          buf = buf(21 := 0xF8);
          buf = put16 buf 22 (of_nat FS_FAT_SIZE_SECTORS);
          buf = put16 buf 24 0;
          buf = put16 buf 26 0;
          buf = put32 buf 28 (of_nat FS_VOL_START_LBA);
          buf = put32 buf 32 0;
          buf = buf(36 := 0x80, 37 := 0, 38 := 0x29);
          buf = put32 buf 39 0x52494E4B;
          buf = put_bytes buf 43 (map byte_of ''RINKOS FS  '')
      in put_bytes buf 54 fs_marker)"

definition clear_fats :: "disk \<Rightarrow> disk" where
  "clear_fats d = fold (\<lambda>k d. disk_write_sector (disk_write_sector d (of_nat (FS_FAT1_LBA + k)) zero_sector)
                                 (of_nat (FS_FAT2_LBA + k)) zero_sector) [0..<FS_FAT_SIZE_SECTORS] d"

definition fs_init :: "fs \<Rightarrow> fs" where
  "fs_init s =
     (let buf = disk_read_sector (fs_disk s) (of_nat FS_BOOT_LBA);
          s = (if \<not> is_formatted buf then
                 (let d = disk_write_sector (fs_disk s) (of_nat FS_BOOT_LBA) boot_sector;
                      d = clear_fats d;
                      d = fat_write d 0 FS_CLUSTER_BAD;
                      d = fat_write d 1 FS_CLUSTER_EOC;
                      root = map (\<lambda>e. e\<lparr>de_name := (de_name e)[0 := FS_DIRENT_FREE], first_cluster := 0, file_size := 0\<rparr>)
                               (fs_root s)
                  in root_save (s\<lparr>fs_disk := d, fs_root := root\<rparr>))
               else root_load s)
      in s\<lparr>cwd_is_root := True, cwd_cluster := 0, cwd_path := ''/''\<rparr>)"

section \<open>Creating files\<close>

definition new_dirent :: "u8 list \<Rightarrow> u8 list \<Rightarrow> u8 \<Rightarrow> u16 \<Rightarrow> dirent" where
  "new_dirent n e attr cluster = \<lparr>de_name = n, de_ext = e, de_attr = attr, de_reserved = replicate 10 0,
     de_time = 0, de_date = 0, first_cluster = cluster, file_size = 0\<rparr>"

definition fs_create :: "string \<Rightarrow> fs \<Rightarrow> (int \<times> fs) option" where
  "fs_create path s = do {
     r \<leftarrow> resolve_parent s path;
     case r of
       Inl err \<Rightarrow> Some (-1, s)
     | Inr (parent, leaf) \<Rightarrow>
         if leaf = [] then Some (-1, s)
         else (case split_name leaf of (n, e) \<Rightarrow> do {
           found \<leftarrow> dir_scan s parent n e;
           if found \<noteq> None then Some (-1, s)
           else do {
             (loc, s) \<leftarrow> dir_find_free s parent;
             case loc of
               None \<Rightarrow> Some (-1, s)
             | Some loc \<Rightarrow> Some (0, dir_write_entry loc (new_dirent n e FS_ATTR_NORMAL 0) s)
           }
         })
   }"

section \<open>Writing\<close>

text \<open>A sector buffer zeroed and then filled with \<open>bs\<close> from the start.\<close>

definition sector_of :: "u8 list \<Rightarrow> sector" where
  "sector_of bs = put_bytes zero_sector 0 bs"

text \<open>The loop of \<open>fs_write\<close>: \<open>n\<close> clusters to go, \<open>data\<close> the bytes not yet written. The result
  says whether all clusters could be allocated.\<close>

fun write_clusters :: "nat \<Rightarrow> disk \<Rightarrow> u16 \<Rightarrow> u16 \<Rightarrow> u8 list \<Rightarrow> bool \<times> u16 \<times> disk" where
  "write_clusters 0 d first prev data = (True, first, d)"
| "write_clusters (Suc n) d first prev data =
     (let (c, d) = fat_alloc_cluster d in
      if c = 0 then (False, first, d)
      else
        (let (first, d) = (if first = 0 then (c, d) else (first, fat_write d prev c));
             prev = c;
             chunk = take FS_BYTES_PER_SECTOR data;
             d = disk_write_sector d (cluster_to_lba c) (sector_of chunk)
         in write_clusters n d first prev (drop FS_BYTES_PER_SECTOR data)))"

text \<open>What both \<open>fs_write\<close> and \<open>fs_append\<close> do first: look the file up, creating it if needed.\<close>

definition fs_open_or_create :: "string \<Rightarrow> fs \<Rightarrow> ((dirent \<times> entry_loc) option \<times> fs) option" where
  "fs_open_or_create path s = do {
     r \<leftarrow> resolve_parent s path;
     case r of
       Inl err \<Rightarrow> Some (None, s)
     | Inr (parent, leaf) \<Rightarrow>
         if leaf = [] then Some (None, s)
         else (case split_name leaf of (n, e) \<Rightarrow> do {
           existed \<leftarrow> dir_scan s parent n e;
           case existed of
             Some dl \<Rightarrow> Some (Some dl, s)
           | None \<Rightarrow> do {
               (ret, s) \<leftarrow> fs_create path s;
               if ret < 0 then Some (None, s)
               else do {
                 found \<leftarrow> dir_scan s parent n e;
                 Some (found, s)
               }
             }
         })
   }"

definition fs_write_entry :: "dirent \<Rightarrow> entry_loc \<Rightarrow> u8 list \<Rightarrow> fs \<Rightarrow> int \<times> fs" where
  "fs_write_entry d loc data s =
     (let size = of_nat (length data) :: u32;
          s = (if first_cluster d \<noteq> 0 then s\<lparr>fs_disk := fat_free_chain (first_cluster d) (fs_disk s)\<rparr> else s);
          d = d\<lparr>first_cluster := 0, file_size := 0\<rparr>
      in if size = 0 then (0, dir_write_entry loc d s)
         else
           (let clusters_needed = unat ((size + of_nat FS_BYTES_PER_SECTOR - 1) div of_nat FS_BYTES_PER_SECTOR);
                (ok, first, dk) = write_clusters clusters_needed (fs_disk s) 0 0 data
            in if ok then (0, dir_write_entry loc (d\<lparr>first_cluster := first, file_size := size\<rparr>) (s\<lparr>fs_disk := dk\<rparr>))
               else (-1, dir_write_entry loc d
                           (s\<lparr>fs_disk := if first \<noteq> 0 then fat_free_chain first dk else dk\<rparr>))))"

text \<open>\<open>data\<close> has the length that the caller passes as \<open>size\<close>.\<close>

definition fs_write :: "string \<Rightarrow> u8 list \<Rightarrow> fs \<Rightarrow> (int \<times> fs) option" where
  "fs_write path data s = do {
     (found, s) \<leftarrow> fs_open_or_create path s;
     Some (case found of
         None \<Rightarrow> (-1, s)
       | Some (d, loc) \<Rightarrow>
           if de_attr d AND FS_ATTR_DIRECTORY \<noteq> 0 then (-1, s)
           else fs_write_entry d loc data s)
   }"

section \<open>Reading\<close>

text \<open>\<open>n\<close> sectors to go, \<open>sz\<close> bytes still wanted.\<close>

fun read_clusters :: "nat \<Rightarrow> disk \<Rightarrow> u16 \<Rightarrow> nat \<Rightarrow> u8 list" where
  "read_clusters 0 d c sz = []"
| "read_clusters (Suc n) d c sz =
     (if \<not> is_link c then []
      else
        (let sector_buf = disk_read_sector d (cluster_to_lba c);
             chunk = (if sz < FS_BYTES_PER_SECTOR then sz else FS_BYTES_PER_SECTOR)
         in map sector_buf [0..<chunk] @ read_clusters n d (fat_read d c) (sz - chunk)))"

definition fs_read :: "string \<Rightarrow> u32 \<Rightarrow> fs \<Rightarrow> u8 list fs_result" where
  "fs_read path max_size s = do {
     r \<leftarrow> resolve_parent s path;
     case r of
       Inl err \<Rightarrow> Some (Inl err)
     | Inr (parent, leaf) \<Rightarrow> (case split_name leaf of (n, e) \<Rightarrow> do {
         found \<leftarrow> dir_scan s parent n e;
         Some (case found of
             None \<Rightarrow> Inl FsFailed
           | Some (d, loc) \<Rightarrow>
               if de_attr d AND FS_ATTR_DIRECTORY \<noteq> 0 then Inl FsFailed
               else
                 (let size = (if file_size d > max_size then max_size else file_size d);
                      sectors_needed = unat ((size + of_nat FS_BYTES_PER_SECTOR - 1) div of_nat FS_BYTES_PER_SECTOR)
                  in Inr (read_clusters sectors_needed (fs_disk s) (first_cluster d) (unat size))))
       })
   }"

section \<open>Listing\<close>

partial_function (option) fs_list_from :: "fs \<Rightarrow> dir_iter \<Rightarrow> bool \<Rightarrow> string \<Rightarrow> (bool \<times> string) option" where
  "fs_list_from s it any out =
     (case dir_iter_next s it of
        (None, it') \<Rightarrow> Some (any, out)
      | (Some (e, loc), it') \<Rightarrow>
          if unused e then fs_list_from s it' any out
          else if fields_eq (de_name e) DOT_NAME FS_NAME_FIELD_LEN then fs_list_from s it' any out
          else if fields_eq (de_name e) DOTDOT_NAME FS_NAME_FIELD_LEN then fs_list_from s it' any out
          else fs_list_from s it' True
                 (out @ ''  '' @ dirent_to_display e @
                  (if de_attr e AND FS_ATTR_DIRECTORY \<noteq> 0 then ''  <DIR>'' @ [CHR 0x0A]
                   else ''  ('' @ hex32_string (file_size e) @ '' bytes)'' @ [CHR 0x0A])))"

definition fs_list :: "fs \<Rightarrow> string option" where
  "fs_list s = do {
     (any, out) \<leftarrow> fs_list_from s (dir_iter_start (cwd_dir s)) False [];
     Some (if \<not> any then out @ ''  (empty)'' @ [CHR 0x0A] else out)
   }"

section \<open>Deleting\<close>

definition fs_delete :: "string \<Rightarrow> fs \<Rightarrow> (int \<times> fs) option" where
  "fs_delete path s = do {
     r \<leftarrow> resolve_parent s path;
     case r of
       Inl err \<Rightarrow> Some (-1, s)
     | Inr (parent, leaf) \<Rightarrow> (case split_name leaf of (n, e) \<Rightarrow> do {
         found \<leftarrow> dir_scan s parent n e;
         Some (case found of
             None \<Rightarrow> (-1, s)
           | Some (d, loc) \<Rightarrow>
               if de_attr d AND FS_ATTR_DIRECTORY \<noteq> 0 then (-1, s)
               else
                 (let s = (if first_cluster d \<noteq> 0 then s\<lparr>fs_disk := fat_free_chain (first_cluster d) (fs_disk s)\<rparr> else s)
                  in (0, dir_write_entry loc
                           (d\<lparr>de_name := (de_name d)[0 := FS_DIRENT_DELETED], first_cluster := 0, file_size := 0\<rparr>) s)))
       })
   }"

section \<open>Appending\<close>

text \<open>The second loop of \<open>fs_append\<close>; the third component is the data that was not written.\<close>

function append_clusters :: "disk \<Rightarrow> u16 \<Rightarrow> u16 \<Rightarrow> u8 list \<Rightarrow> bool \<times> u16 \<times> u8 list \<times> disk" where
  "append_clusters d first prev data =
     (if data = [] then (True, first, [], d)
      else
        (case fat_alloc_cluster d of (c, d) \<Rightarrow>
           if c = 0 then (False, first, data, d)
           else
             (let d = (if first = 0 then d else if prev \<noteq> 0 then fat_write d prev c else d);
                  first = (if first = 0 then c else first);
                  d = disk_write_sector d (cluster_to_lba c) (sector_of (take FS_BYTES_PER_SECTOR data))
              in append_clusters d first c (drop FS_BYTES_PER_SECTOR data))))"
  by pat_completeness auto
termination
  by (relation "measure (\<lambda>(d, first, prev, data). length data)") auto

declare append_clusters.simps [simp del]

definition fs_append_entry :: "dirent \<Rightarrow> entry_loc \<Rightarrow> u8 list \<Rightarrow> fs \<Rightarrow> int \<times> fs" where
  "fs_append_entry d loc data s =
     (if data = [] then (0, s)
      else
        (let cur = file_size d;
             first = first_cluster d;
             prev = (if cur > 0
                     then cluster_at_index (fs_disk s) first (unat ((cur - 1) div of_nat FS_BYTES_PER_SECTOR)) else 0)
         in if cur > 0 \<and> prev = 0 then (-1, s)
            else
              (let off = unat (cur mod of_nat FS_BYTES_PER_SECTOR);
                   fits = (if cur > 0 \<and> off \<noteq> 0 then take (FS_BYTES_PER_SECTOR - off) data else []);
                   dk = (if cur > 0 \<and> off \<noteq> 0
                         then disk_write_sector (fs_disk s) (cluster_to_lba prev)
                                (put_bytes (disk_read_sector (fs_disk s) (cluster_to_lba prev)) off fits)
                         else fs_disk s);
                   (ok, first, rest, dk) = append_clusters dk first prev (drop (length fits) data);
                   written = of_nat (length data - length rest) :: u32
               in (if ok then 0 else -1,
                   dir_write_entry loc (d\<lparr>first_cluster := first, file_size := cur + written\<rparr>) (s\<lparr>fs_disk := dk\<rparr>)))))"

definition fs_append :: "string \<Rightarrow> u8 list \<Rightarrow> fs \<Rightarrow> (int \<times> fs) option" where
  "fs_append path data s = do {
     (found, s) \<leftarrow> fs_open_or_create path s;
     Some (case found of
         None \<Rightarrow> (-1, s)
       | Some (d, loc) \<Rightarrow>
           if de_attr d AND FS_ATTR_DIRECTORY \<noteq> 0 then (-1, s)
           else fs_append_entry d loc data s)
   }"

section \<open>Renaming, status\<close>

definition fs_rename :: "string \<Rightarrow> string \<Rightarrow> fs \<Rightarrow> (int \<times> fs) option" where
  "fs_rename old_path new_path s = do {
     r \<leftarrow> resolve_parent s old_path;
     case r of
       Inl err \<Rightarrow> Some (-1, s)
     | Inr (old_parent, old_leaf) \<Rightarrow> (case split_name old_leaf of (on, oe) \<Rightarrow> do {
         found \<leftarrow> dir_scan s old_parent on oe;
         case found of
           None \<Rightarrow> Some (-1, s)
         | Some (d, loc) \<Rightarrow> do {
             r \<leftarrow> resolve_parent s new_path;
             case r of
               Inl err \<Rightarrow> Some (-1, s)
             | Inr (new_parent, new_leaf) \<Rightarrow>
                 if new_leaf = [] then Some (-1, s)
                 else (case split_name new_leaf of (nn, ne) \<Rightarrow>
                   if is_root new_parent \<noteq> is_root old_parent \<or> dir_cluster new_parent \<noteq> dir_cluster old_parent
                   then Some (-1, s)
                   else do {
                     target \<leftarrow> dir_scan s new_parent nn ne;
                     Some (if target \<noteq> None then (-1, s)
                           else (0, dir_write_entry loc (d\<lparr>de_name := nn, de_ext := ne\<rparr>) s))
                   })
           }
       })
   }"

definition fs_stat :: "string \<Rightarrow> fs \<Rightarrow> u32 fs_result" where
  "fs_stat path s = do {
     r \<leftarrow> resolve_parent s path;
     case r of
       Inl err \<Rightarrow> Some (Inl err)
     | Inr (parent, leaf) \<Rightarrow> (case split_name leaf of (n, e) \<Rightarrow> do {
         found \<leftarrow> dir_scan s parent n e;
         Some (case found of None \<Rightarrow> Inl FsFailed | Some (d, loc) \<Rightarrow> Inr (file_size d))
       })
   }"

section \<open>Directories\<close>

definition fs_mkdir :: "string \<Rightarrow> fs \<Rightarrow> (int \<times> fs) option" where
  "fs_mkdir path s = do {
     r \<leftarrow> resolve_parent s path;
     case r of
       Inl err \<Rightarrow> Some (-1, s)
     | Inr (parent, leaf) \<Rightarrow>
         if leaf = [] \<or> str_eq leaf ''.'' \<or> str_eq leaf ''..'' then Some (-1, s)
         else (case split_name leaf of (n, e) \<Rightarrow> do {
           found \<leftarrow> dir_scan s parent n e;
           if found \<noteq> None then Some (-1, s)
           else
             (case fat_alloc_cluster (fs_disk s) of (new_cluster, dk) \<Rightarrow>
               if new_cluster = 0 then Some (-1, s\<lparr>fs_disk := dk\<rparr>)
               else
                 (let s = s\<lparr>fs_disk := disk_write_sector dk (cluster_to_lba new_cluster) zero_sector\<rparr>;
                      dot = new_dirent DOT_NAME EMPTY_EXT FS_ATTR_DIRECTORY new_cluster;
                      dotdot = dot\<lparr>de_name := DOTDOT_NAME, first_cluster := if is_root parent then 0 else dir_cluster parent\<rparr>;
                      here = \<lparr>is_root = False, dir_cluster = new_cluster\<rparr>;
                      loc0 = \<lparr>loc_dir = here, root_index = 0, entry_cluster = new_cluster, entry_index = 0\<rparr>;
                      loc1 = \<lparr>loc_dir = here, root_index = 0, entry_cluster = new_cluster, entry_index = 1\<rparr>;
                      s = dir_write_entry loc1 dotdot (dir_write_entry loc0 dot s)
                  in do {
                    (loc, s) \<leftarrow> dir_find_free s parent;
                    Some (case loc of
                        None \<Rightarrow> (-1, s\<lparr>fs_disk := fat_free_chain new_cluster (fs_disk s)\<rparr>)
                      | Some loc \<Rightarrow> (0, dir_write_entry loc (new_dirent n e FS_ATTR_DIRECTORY new_cluster) s))
                  }))
         })
   }"

text \<open>The emptiness loop of \<open>fs_rmdir\<close>.\<close>

partial_function (option) dir_empty_from :: "fs \<Rightarrow> dir_iter \<Rightarrow> bool option" where
  "dir_empty_from s it =
     (case dir_iter_next s it of
        (None, it') \<Rightarrow> Some True
      | (Some (e, l), it') \<Rightarrow>
          if unused e then dir_empty_from s it'
          else if fields_eq (de_name e) DOT_NAME FS_NAME_FIELD_LEN then dir_empty_from s it'
          else if fields_eq (de_name e) DOTDOT_NAME FS_NAME_FIELD_LEN then dir_empty_from s it'
          else Some False)"

definition fs_rmdir :: "string \<Rightarrow> fs \<Rightarrow> (int \<times> fs) option" where
  "fs_rmdir path s = do {
     r \<leftarrow> resolve_parent s path;
     case r of
       Inl err \<Rightarrow> Some (-1, s)
     | Inr (parent, leaf) \<Rightarrow>
         if leaf = [] \<or> str_eq leaf ''.'' \<or> str_eq leaf ''..'' then Some (-1, s)
         else (case split_name leaf of (n, e) \<Rightarrow> do {
           found \<leftarrow> dir_scan s parent n e;
           case found of
             None \<Rightarrow> Some (-1, s)
           | Some (d, loc) \<Rightarrow>
               if de_attr d AND FS_ATTR_DIRECTORY = 0 then Some (-1, s)
               else
                 (let target = \<lparr>is_root = False, dir_cluster = first_cluster d\<rparr>;
                      cur = cwd_dir s
                  in if \<not> is_root cur \<and> dir_cluster cur = dir_cluster target then Some (-1, s)
                     else do {
                       empty \<leftarrow> dir_empty_from s (dir_iter_start target);
                       Some (if \<not> empty then (-1, s)
                             else (0, dir_write_entry loc
                                   (d\<lparr>de_name := (de_name d)[0 := FS_DIRENT_DELETED], first_cluster := 0, file_size := 0\<rparr>)
                                   (s\<lparr>fs_disk := fat_free_chain (first_cluster d) (fs_disk s)\<rparr>)))
                     })
         })
   }"

definition fs_chdir :: "string \<Rightarrow> fs \<Rightarrow> (int \<times> fs) option" where
  "fs_chdir path s = do {
     r \<leftarrow> walk_path s path (cwd_dir s) (Some (str_copy_n (cwd_path s) 128)) 128;
     Some (case r of
         Inl err \<Rightarrow> (-1, s)
       | Inr (d, buf) \<Rightarrow>
           (0, s\<lparr>cwd_is_root := is_root d, cwd_cluster := dir_cluster d,
                 cwd_path := (case buf of None \<Rightarrow> cwd_path s | Some b \<Rightarrow> str_copy_n b 128)\<rparr>))
   }"

definition fs_getcwd :: "nat \<Rightarrow> fs \<Rightarrow> string" where
  "fs_getcwd max_len s = str_copy_n (cwd_path s) max_len"

text \<open>The three counts: root entries in use, free clusters, all clusters.\<close>

definition fs_debug_stats :: "fs \<Rightarrow> nat \<times> nat \<times> nat" where
  "fs_debug_stats s =
     (length (filter (\<lambda>i. \<not> unused (fs_root s ! i)) [0..<FS_ROOT_ENTRIES]),
      length (filter (\<lambda>c. fat_read (fs_disk s) (of_nat c) = FS_CLUSTER_FREE)
        [FS_FIRST_DATA_CLUSTER..<FS_FIRST_DATA_CLUSTER + FS_TOTAL_DATA_CLUSTERS]),
      FS_TOTAL_DATA_CLUSTERS)"

end
