(* ===== verification/Heap.thy ===== *)
theory Heap
  imports Prelude
begin

text \<open>
  The kernel heap of \<open>kernel/mm.c\<close>: a singly linked list of block headers lying in the memory they
  describe. The store maps an address to the header that lies there; loops over the list are
  partial (\<open>None\<close>: the list is cyclic and the loop never ends). The abstract view is the list of
  blocks in address order, and \<open>kmalloc\<close> and \<open>kfree\<close> refine first fit with splitting and
  merging of neighbours on that list.
\<close>

section \<open>The memory map and the heap's extent\<close>

record mmap_entry =
  mm_base :: "64 word"
  mm_length :: "64 word"
  mm_type :: u32
  mm_acpi_ext :: u32

fun heap_end_loop :: "u32 \<Rightarrow> mmap_entry list \<Rightarrow> u32 \<Rightarrow> u32" where
  "heap_end_loop heap_start [] best_end = best_end"
| "heap_end_loop heap_start (e # entries) best_end =
     (if mm_type e \<noteq> 1 then heap_end_loop heap_start entries best_end
      else if mm_base e > 0xFFFFFFFF then heap_end_loop heap_start entries best_end
      else
        (let region_start = ucast (mm_base e) :: u32;
             region_end = ucast (mm_base e + mm_length e) :: u32
         in if region_start \<le> heap_start \<and> region_end > heap_start \<and> region_end > best_end
            then heap_end_loop heap_start entries region_end
            else heap_end_loop heap_start entries best_end))"

text \<open>\<open>entries\<close> are the \<open>MMAP_COUNT\<close> entries that the boot loader left at \<open>MMAP_ADDR\<close>.\<close>

definition find_heap_end :: "u32 \<Rightarrow> mmap_entry list \<Rightarrow> u32" where
  "find_heap_end heap_start entries =
     (let best_end = heap_end_loop heap_start entries (heap_start + 0x10000)
      in if best_end > 0x90000 then 0x90000 else best_end)"

section \<open>Blocks\<close>

record block_header =
  bh_size :: u32
  bh_free :: bool
  bh_next :: u32

text \<open>\<open>sizeof(block_header_t)\<close> on the 32-bit target.\<close>

definition HDR :: u32 where
  "HDR = 12"

record heap =
  hdrs :: "u32 \<Rightarrow> block_header"
  heap_start :: u32

text \<open>\<open>bss_end\<close> is the address of the linker symbol \<open>_bss_end\<close>.\<close>

definition kmalloc_init :: "u32 \<Rightarrow> mmap_entry list \<Rightarrow> heap \<Rightarrow> heap" where
  "kmalloc_init bss_end entries h =
     (let heap_end = find_heap_end bss_end entries
      in h\<lparr>heap_start := bss_end,
           hdrs := (hdrs h)(bss_end := \<lparr>bh_size = heap_end - bss_end - HDR, bh_free = True, bh_next = 0\<rparr>)\<rparr>)"

definition split_block :: "u32 \<Rightarrow> u32 \<Rightarrow> heap \<Rightarrow> heap" where
  "split_block block sz h =
     (let b = hdrs h block in
      if bh_size b \<ge> sz + HDR + 4 then
        (let new_block = block + HDR + sz;
             n = \<lparr>bh_size = bh_size b - sz - HDR, bh_free = True, bh_next = bh_next b\<rparr>
         in h\<lparr>hdrs := (hdrs h)(new_block := n, block := b\<lparr>bh_size := sz, bh_next := new_block\<rparr>)\<rparr>)
      else h)"

partial_function (option) kmalloc_from :: "heap \<Rightarrow> u32 \<Rightarrow> u32 \<Rightarrow> (u32 \<times> heap) option" where
  "kmalloc_from h sz cur =
     (if cur = 0 then Some (0, h)
      else if bh_free (hdrs h cur) \<and> bh_size (hdrs h cur) \<ge> sz then
        (let h = split_block cur sz h
         in Some (cur + HDR, h\<lparr>hdrs := (hdrs h)(cur := (hdrs h cur)\<lparr>bh_free := False\<rparr>)\<rparr>))
      else kmalloc_from h sz (bh_next (hdrs h cur)))"

text \<open>The result is the pointer, 0 for NULL.\<close>

definition kmalloc :: "u32 \<Rightarrow> heap \<Rightarrow> (u32 \<times> heap) option" where
  "kmalloc sz h =
     (if sz = 0 \<or> heap_start h = 0 then Some (0, h)
      else (let sz = (sz + 3) AND NOT 3 in kmalloc_from h sz (heap_start h)))"

partial_function (option) coalesce_from :: "heap \<Rightarrow> u32 \<Rightarrow> heap option" where
  "coalesce_from h cur =
     (if cur \<noteq> 0 \<and> bh_next (hdrs h cur) \<noteq> 0 then
        (let c = hdrs h cur; n = hdrs h (bh_next c) in
         if bh_free c \<and> bh_free n
         then coalesce_from (h\<lparr>hdrs := (hdrs h)(cur := c\<lparr>bh_size := bh_size c + (HDR + bh_size n), bh_next := bh_next n\<rparr>)\<rparr>) cur
         else coalesce_from h (bh_next c))
      else Some h)"

definition coalesce :: "heap \<Rightarrow> heap option" where
  "coalesce h = coalesce_from h (heap_start h)"

definition kfree :: "u32 \<Rightarrow> heap \<Rightarrow> heap option" where
  "kfree ptr h =
     (if ptr = 0 then Some h
      else (let block = ptr - HDR
            in coalesce (h\<lparr>hdrs := (hdrs h)(block := (hdrs h block)\<lparr>bh_free := True\<rparr>)\<rparr>)))"

text \<open>The sums \<open>(total, used, free)\<close>.\<close>

partial_function (option) stats_from :: "heap \<Rightarrow> u32 \<Rightarrow> u32 \<Rightarrow> u32 \<Rightarrow> u32 \<Rightarrow> (u32 \<times> u32 \<times> u32) option" where
  "stats_from h cur t u f =
     (if cur = 0 then Some (t, u, f)
      else (let b = hdrs h cur in
        if bh_free b then stats_from h (bh_next b) (t + bh_size b) u (f + bh_size b)
        else stats_from h (bh_next b) (t + bh_size b) (u + bh_size b) f))"

definition kmalloc_stats :: "heap \<Rightarrow> (u32 \<times> u32 \<times> u32) option" where
  "kmalloc_stats h = stats_from h (heap_start h) 0 0 0"

section \<open>The abstract heap: blocks in address order\<close>

text \<open>A block: the address of its header, its usable size, whether it is free.\<close>

type_synonym block = "nat \<times> nat \<times> bool"

fun abs_alloc :: "nat \<Rightarrow> block list \<Rightarrow> (nat \<times> block list) option" where
  "abs_alloc n [] = None"
| "abs_alloc n ((a, sz, fr) # bs) =
     (if fr \<and> n \<le> sz then
        Some (a, if n + 16 \<le> sz then (a, n, False) # (a + 12 + n, sz - n - 12, True) # bs else (a, sz, False) # bs)
      else (case abs_alloc n bs of None \<Rightarrow> None | Some (r, bs') \<Rightarrow> Some (r, (a, sz, fr) # bs')))"

fun abs_merge :: "block list \<Rightarrow> block list" where
  "abs_merge ((a, s1, f1) # (b, s2, f2) # bs) =
     (if f1 \<and> f2 then abs_merge ((a, s1 + 12 + s2, True) # bs) else (a, s1, f1) # abs_merge ((b, s2, f2) # bs))"
| "abs_merge bs = bs"

definition abs_mark :: "nat \<Rightarrow> block list \<Rightarrow> block list" where
  "abs_mark a bs = map (\<lambda>(b, sz, fr). (b, sz, fr \<or> b = a)) bs"

definition abs_free :: "nat \<Rightarrow> block list \<Rightarrow> block list" where
  "abs_free a bs = abs_merge (abs_mark a bs)"

text \<open>Each block ends where the next begins, from \<open>lo\<close> to \<open>hi\<close>.\<close>

fun tiles :: "nat \<Rightarrow> block list \<Rightarrow> nat \<Rightarrow> bool" where
  "tiles lo [] hi \<longleftrightarrow> lo = hi"
| "tiles lo ((a, sz, fr) # bs) hi \<longleftrightarrow> a = lo \<and> tiles (lo + 12 + sz) bs hi"

text \<open>The list in the store from \<open>p\<close> on is \<open>bs\<close>.\<close>

fun heap_list :: "(u32 \<Rightarrow> block_header) \<Rightarrow> u32 \<Rightarrow> block list \<Rightarrow> bool" where
  "heap_list m p [] \<longleftrightarrow> p = 0"
| "heap_list m p ((a, sz, fr) # bs) \<longleftrightarrow>
     p \<noteq> 0 \<and> unat p = a \<and> unat (bh_size (m p)) = sz \<and> bh_free (m p) = fr \<and> heap_list m (bh_next (m p)) bs"

definition heap_rep :: "nat \<Rightarrow> nat \<Rightarrow> heap \<Rightarrow> block list \<Rightarrow> bool" where
  "heap_rep lo hi h bs \<longleftrightarrow> 0 < lo \<and> hi < 2147483648 \<and> tiles lo bs hi \<and> heap_list (hdrs h) (heap_start h) bs"

lemma tiles_le: "tiles lo bs hi \<Longrightarrow> lo \<le> hi"
  by (induction lo bs hi rule: tiles.induct) auto

lemma tiles_bounds: "tiles lo bs hi \<Longrightarrow> (a, sz, fr) \<in> set bs \<Longrightarrow> lo \<le> a \<and> a + 12 + sz \<le> hi"
proof (induction lo bs hi rule: tiles.induct)
  case (2 lo a' sz' fr' bs hi)
  then show ?case using tiles_le [of "lo + 12 + sz'" bs hi] by force
qed simp

lemma tiles_addr: "tiles lo bs hi \<Longrightarrow> a \<in> fst ` set bs \<Longrightarrow> lo \<le> a \<and> a < hi"
  using tiles_bounds by fastforce

lemma heap_list_cong:
  "heap_list m p bs \<Longrightarrow> (\<And>q. unat q \<in> fst ` set bs \<Longrightarrow> m' q = m q) \<Longrightarrow> heap_list m' p bs"
proof (induction m p bs rule: heap_list.induct)
  case (2 m p a sz fr bs)
  then have "m' p = m p" by simp
  with 2 show ?case by simp
qed simp

section \<open>Refinement of \<open>kmalloc\<close>\<close>

lemma u32_mod: "n < 2147483648 \<Longrightarrow> n mod 4294967296 = (n :: nat)"
  by simp

lemma split_block_frame: "unat q < unat p \<Longrightarrow> unat p + 12 + unat n < 2147483648 \<Longrightarrow> hdrs (split_block p n h) q = hdrs h q"
  by (auto simp: split_block_def Let_def HDR_def unat_word_ariths)

lemma kmalloc_from_found:
  assumes m: "p \<noteq> 0" "unat p = lo" "bh_free (hdrs h p)" "n \<le> bh_size (hdrs h p)"
    and sz: "sz = unat (bh_size (hdrs h p))"
    and rest: "heap_list (hdrs h) (bh_next (hdrs h p)) bs" "tiles (lo + 12 + sz) bs hi" "hi < 2147483648"
  shows "\<exists>h'. kmalloc_from h n p = Some (of_nat lo + HDR, h')
    \<and> heap_list (hdrs h') p (if unat n + 16 \<le> sz then (lo, unat n, False) # (lo + 12 + unat n, sz - unat n - 12, True) # bs
                              else (lo, sz, False) # bs)
    \<and> heap_start h' = heap_start h \<and> (\<forall>q. unat q < lo \<longrightarrow> hdrs h' q = hdrs h q)"
proof -
  let ?h1 = "split_block p n h"
  let ?h' = "?h1\<lparr>hdrs := (hdrs ?h1)(p := (hdrs ?h1 p)\<lparr>bh_free := False\<rparr>)\<rparr>"
  have km: "kmalloc_from h n p = Some (of_nat lo + HDR, ?h')"
    using m by (subst kmalloc_from.simps) (auto simp: Let_def)
  have hi: "lo + 12 + sz \<le> hi" using tiles_le [OF rest(2)] .
  have nle: "unat n \<le> sz" using m(4) sz by (simp add: word_le_nat_alt)
  have tail: "lo + 12 + sz \<le> unat q" if "unat q \<in> fst ` set bs" for q :: u32
    using tiles_addr [OF rest(2) that] by simp
  have "unat (n + HDR + 4) = unat n + 16"
    using nle hi rest(3) by (simp add: unat_word_ariths HDR_def u32_mod)
  then have cond: "n + HDR + 4 \<le> bh_size (hdrs h p) \<longleftrightarrow> unat n + 16 \<le> sz"
    by (simp only: word_le_nat_alt sz)
  have frame: "hdrs ?h' q = hdrs h q" if "unat q < lo" for q
    using that m(2) hi nle rest(3) split_block_frame [of q p n h] by auto
  show ?thesis
  proof (cases "unat n + 16 \<le> sz")
    case True
    have new: "unat (p + HDR + n) = lo + 12 + unat n"
      using m(2) nle hi rest(3) by (simp add: unat_word_ariths HDR_def u32_mod)
    have sz': "unat (bh_size (hdrs h p) - n - HDR) = sz - unat n - 12"
    proof -
      have "unat (bh_size (hdrs h p) - n) = sz - unat n" using m(4) sz by (simp add: unat_diff_u32)
      then show ?thesis using True by (simp add: unat_diff_u32 HDR_def word_le_nat_alt)
    qed
    have ne: "p + HDR + n \<noteq> p" "p + HDR + n \<noteq> 0"
      unfolding word_unat_eq_iff new using m(2) by simp_all
    have start: "heap_start ?h1 = heap_start h" by (simp add: split_block_def Let_def)
    have h1: "hdrs ?h1 = (hdrs h)(p + HDR + n := \<lparr>bh_size = bh_size (hdrs h p) - n - HDR, bh_free = True, bh_next = bh_next (hdrs h p)\<rparr>,
        p := (hdrs h p)\<lparr>bh_size := n, bh_next := p + HDR + n\<rparr>)"
      using True cond by (simp add: split_block_def Let_def)
    have "heap_list (hdrs ?h') (bh_next (hdrs h p)) bs"
    proof (rule heap_list_cong [OF rest(1)])
      fix q :: u32 assume "unat q \<in> fst ` set bs"
      then have "lo + 12 + sz \<le> unat q" by (rule tail)
      then have "q \<noteq> p" "q \<noteq> p + HDR + n" using m(2) new True by auto
      then show "hdrs ?h' q = hdrs h q" by (simp add: h1)
    qed
    moreover have "hdrs ?h' (p + HDR + n) = \<lparr>bh_size = bh_size (hdrs h p) - n - HDR, bh_free = True, bh_next = bh_next (hdrs h p)\<rparr>"
      and "hdrs ?h' p = \<lparr>bh_size = n, bh_free = False, bh_next = p + HDR + n\<rparr>"
      using ne h1 by simp_all
    ultimately have "heap_list (hdrs ?h') p ((lo, unat n, False) # (lo + 12 + unat n, sz - unat n - 12, True) # bs)"
      using m(1,2) ne new sz' by simp
    then show ?thesis
      using km True frame start by (intro exI [of _ ?h']) simp
  next
    case False
    then have h1: "?h1 = h" using cond by (simp add: split_block_def Let_def)
    have "heap_list (hdrs ?h') (bh_next (hdrs h p)) bs"
      by (rule heap_list_cong [OF rest(1)]) (use tail m(2) in \<open>force simp: h1\<close>)
    then show ?thesis
      using km False m sz frame by (intro exI [of _ ?h']) (auto simp: h1)
  qed
qed

lemma kmalloc_from_refines:
  assumes "heap_list (hdrs h) p bs" "tiles lo bs hi" "hi < 2147483648"
  shows "case abs_alloc (unat n) bs of
      None \<Rightarrow> kmalloc_from h n p = Some (0, h)
    | Some (a, bs') \<Rightarrow> \<exists>h'. kmalloc_from h n p = Some (of_nat a + HDR, h') \<and> heap_list (hdrs h') p bs'
        \<and> heap_start h' = heap_start h \<and> (\<forall>q. unat q < lo \<longrightarrow> hdrs h' q = hdrs h q)"
  using assms
proof (induction bs arbitrary: p lo)
  case Nil
  then show ?case by (subst kmalloc_from.simps) simp
next
  case (Cons b bs)
  obtain a sz fr where b: "b = (a, sz, fr)" by (cases b)
  let ?nx = "bh_next (hdrs h p)"
  from Cons.prems b have p: "p \<noteq> 0" "unat p = lo" "unat (bh_size (hdrs h p)) = sz" "bh_free (hdrs h p) = fr" "a = lo"
    and rest: "heap_list (hdrs h) ?nx bs" "tiles (lo + 12 + sz) bs hi" by auto
  show ?case
  proof (cases "fr \<and> unat n \<le> sz")
    case True
    with p have "bh_free (hdrs h p)" "n \<le> bh_size (hdrs h p)" by (auto simp: word_le_nat_alt)
    from kmalloc_from_found [OF p(1,2) this _ rest Cons.prems(3)] p True
    show ?thesis by (auto simp: b)
  next
    case False
    then have skip: "kmalloc_from h n p = kmalloc_from h n ?nx"
      using p by (subst kmalloc_from.simps) (auto simp: word_le_nat_alt)
    have keep: "heap_list (hdrs h') p (b # bs')"
      if "heap_list (hdrs h') ?nx bs'" "\<forall>q. unat q < lo + 12 + sz \<longrightarrow> hdrs h' q = hdrs h q" for h' bs'
      using that p b by simp
    have abs: "abs_alloc (unat n) (b # bs) = map_option (\<lambda>(r, bs'). (r, b # bs')) (abs_alloc (unat n) bs)"
      using False by (auto simp: b split: option.splits)
    show ?thesis
    proof (cases "abs_alloc (unat n) bs")
      case None
      with Cons.IH [OF rest Cons.prems(3)] show ?thesis by (simp add: abs skip)
    next
      case (Some r)
      obtain a' bs' where r: "r = (a', bs')" by (cases r)
      from Cons.IH [OF rest Cons.prems(3)] Some r obtain h' where
        h': "kmalloc_from h n ?nx = Some (of_nat a' + HDR, h')" "heap_list (hdrs h') ?nx bs'"
          "heap_start h' = heap_start h" "\<forall>q. unat q < lo + 12 + sz \<longrightarrow> hdrs h' q = hdrs h q" by auto
      then show ?thesis using keep [OF h'(2,4)] by (simp add: abs skip Some r)
    qed
  qed
qed

lemma tiles_abs_alloc:
  "abs_alloc n bs = Some (a, bs') \<Longrightarrow> tiles lo bs hi \<Longrightarrow> tiles lo bs' hi"
proof (induction n bs arbitrary: lo bs' rule: abs_alloc.induct)
  case (2 n a' sz fr bs)
  show ?case
  proof (cases "fr \<and> n \<le> sz")
    case True
    with 2 show ?thesis by (auto split: if_splits simp: algebra_simps)
  next
    case False
    with 2 show ?thesis by (auto split: option.splits)
  qed
qed simp

definition align4 :: "u32 \<Rightarrow> u32" where
  "align4 n = (n + 3) AND NOT 3"

text \<open>\<open>kmalloc\<close> is first fit on the abstract list; when no block fits, nothing changes.\<close>

lemma kmalloc_refines:
  assumes "heap_rep lo hi h bs" "bs \<noteq> []" "n \<noteq> 0"
  shows "case abs_alloc (unat (align4 n)) bs of
      None \<Rightarrow> kmalloc n h = Some (0, h)
    | Some (a, bs') \<Rightarrow> \<exists>h'. kmalloc n h = Some (of_nat a + HDR, h') \<and> heap_rep lo hi h' bs'"
proof -
  have "heap_start h \<noteq> 0" using assms(1,2) by (cases bs) (auto simp: heap_rep_def)
  then have "kmalloc n h = kmalloc_from h (align4 n) (heap_start h)"
    using assms(3) by (simp add: kmalloc_def align4_def)
  then show ?thesis
    using kmalloc_from_refines [of h "heap_start h" bs lo hi "align4 n"] assms(1) tiles_abs_alloc [of "unat (align4 n)" bs]
    by (fastforce simp: heap_rep_def split: option.splits)
qed

section \<open>Refinement of \<open>kfree\<close>\<close>

lemma abs_mark_tiles: "tiles lo (abs_mark a bs) hi \<longleftrightarrow> tiles lo bs hi"
  by (induction lo bs hi rule: tiles.induct) (auto simp: abs_mark_def)

lemma tiles_abs_merge: "tiles lo bs hi \<Longrightarrow> tiles lo (abs_merge bs) hi"
  by (induction bs arbitrary: lo rule: abs_merge.induct) (auto simp: algebra_simps)

lemma heap_list_mark:
  assumes "heap_list m p bs"
  shows "heap_list (m(q := (m q)\<lparr>bh_free := True\<rparr>)) p (abs_mark (unat q) bs)"
  using assms
proof (induction m p bs rule: heap_list.induct)
  case (2 m p a sz fr bs)
  show ?case
  proof (cases "p = q")
    case False
    then have "unat p \<noteq> unat q" by (simp add: word_unat_eq_iff)
    with 2 False show ?thesis by (auto simp: abs_mark_def)
  qed (use 2 in \<open>auto simp: abs_mark_def\<close>)
qed (simp add: abs_mark_def)

lemma coalesce_from_refines:
  assumes "heap_list (hdrs h) p bs" "tiles lo bs hi" "hi < 2147483648"
  shows "\<exists>h'. coalesce_from h p = Some h' \<and> heap_list (hdrs h') p (abs_merge bs)
    \<and> heap_start h' = heap_start h \<and> (\<forall>q. unat q < lo \<longrightarrow> hdrs h' q = hdrs h q)"
  using assms
proof (induction bs arbitrary: h p lo rule: abs_merge.induct)
  case (1 a s1 f1 b s2 f2 bs)
  let ?c = "hdrs h p" and ?nx = "bh_next (hdrs h p)"
  from "1.prems" have p: "p \<noteq> 0" "unat p = lo" "a = lo" "unat (bh_size ?c) = s1" "bh_free ?c = f1"
    and nx: "?nx \<noteq> 0" "unat ?nx = lo + 12 + s1" "unat (bh_size (hdrs h ?nx)) = s2" "bh_free (hdrs h ?nx) = f2"
    and rest: "heap_list (hdrs h) (bh_next (hdrs h ?nx)) bs" "tiles (lo + 12 + s1 + 12 + s2) bs hi"
    by (auto simp: add.assoc)
  have hi: "lo + 12 + s1 + 12 + s2 \<le> hi" using tiles_le [OF rest(2)] .
  show ?case
  proof (cases "f1 \<and> f2")
    case True
    let ?h = "h\<lparr>hdrs := (hdrs h)(p := ?c\<lparr>bh_size := bh_size ?c + (HDR + bh_size (hdrs h ?nx)), bh_next := bh_next (hdrs h ?nx)\<rparr>)\<rparr>"
    have co: "coalesce_from h p = coalesce_from ?h p"
      using p nx True by (subst coalesce_from.simps) (simp add: Let_def)
    have "unat (bh_size ?c + (HDR + bh_size (hdrs h ?nx))) = s1 + 12 + s2"
      using p nx hi "1.prems"(3) by (simp add: unat_word_ariths HDR_def u32_mod)
    moreover have "heap_list (hdrs ?h) (bh_next (hdrs h ?nx)) bs"
    proof (rule heap_list_cong [OF rest(1)])
      fix q :: u32 assume "unat q \<in> fst ` set bs"
      then have "lo < unat q" using tiles_addr [OF rest(2)] by fastforce
      then show "hdrs ?h q = hdrs h q" using p by auto
    qed
    ultimately have "heap_list (hdrs ?h) p ((a, s1 + 12 + s2, True) # bs)" using p True by simp
    moreover have "tiles lo ((a, s1 + 12 + s2, True) # bs) hi" using p rest by (simp add: algebra_simps)
    ultimately obtain h' where "coalesce_from ?h p = Some h'" "heap_list (hdrs h') p (abs_merge ((a, s1 + 12 + s2, True) # bs))"
      "heap_start h' = heap_start ?h" "\<forall>q. unat q < lo \<longrightarrow> hdrs h' q = hdrs ?h q"
      using "1.IH"(1) [OF True, of ?h p lo] "1.prems"(3) by blast
    then show ?thesis using co True p by (intro exI [of _ h']) auto
  next
    case False
    have co: "coalesce_from h p = coalesce_from h ?nx"
      using p nx False by (subst coalesce_from.simps) (auto simp: Let_def)
    have "heap_list (hdrs h) ?nx ((b, s2, f2) # bs)" "tiles (lo + 12 + s1) ((b, s2, f2) # bs) hi"
      using "1.prems" by auto
    then obtain h' where h': "coalesce_from h ?nx = Some h'" "heap_list (hdrs h') ?nx (abs_merge ((b, s2, f2) # bs))"
      "heap_start h' = heap_start h" "\<forall>q. unat q < lo + 12 + s1 \<longrightarrow> hdrs h' q = hdrs h q"
      using "1.IH"(2) [OF False] "1.prems"(3) by blast
    then have "hdrs h' p = ?c" using p by simp
    with h' p False co show ?thesis by (intro exI [of _ h']) auto
  qed
next
  case "2_1"
  then show ?case by (subst coalesce_from.simps) simp
next
  case "2_2"
  then show ?case by (subst coalesce_from.simps) (auto elim: heap_list.elims)
qed

lemma kfree_refines:
  assumes "heap_rep lo hi h bs" "ptr \<noteq> 0"
  shows "\<exists>h'. kfree ptr h = Some h' \<and> heap_rep lo hi h' (abs_free (unat (ptr - HDR)) bs)"
proof -
  let ?h = "h\<lparr>hdrs := (hdrs h)(ptr - HDR := (hdrs h (ptr - HDR))\<lparr>bh_free := True\<rparr>)\<rparr>"
  have "heap_list (hdrs ?h) (heap_start h) (abs_mark (unat (ptr - HDR)) bs)"
    using heap_list_mark assms(1) by (simp add: heap_rep_def)
  moreover have "tiles lo (abs_mark (unat (ptr - HDR)) bs) hi" "hi < 2147483648" "0 < lo"
    using assms(1) by (simp_all add: heap_rep_def abs_mark_tiles)
  ultimately show ?thesis
    using coalesce_from_refines [of ?h "heap_start h"] assms(2) tiles_abs_merge
    by (fastforce simp: kfree_def coalesce_def heap_rep_def abs_free_def Let_def)
qed

end
