(* ===== verification/HeapSafe.thy ===== *)
theory HeapSafe
  imports Heap
begin

text \<open>
  What the users of the heap rely on, as an interface: an allocated region is apart from all regions
  in use, releasing one returns exactly it, and both calls return. The interface is interpreted on
  \<open>kmalloc\<close> and \<open>kfree\<close> of \<open>kernel/mm.c\<close>, and the runs of every client that releases only what it
  owns follow.
\<close>

section \<open>The interface\<close>

datatype heap_op = Alloc u32 | Release nat

text \<open>A client run: the client keeps the pointers it owns and releases one of them by its position.\<close>

fun heap_run :: "(u32 \<Rightarrow> 's \<Rightarrow> (u32 \<times> 's) option) \<Rightarrow> (u32 \<Rightarrow> 's \<Rightarrow> 's option) \<Rightarrow> heap_op list \<Rightarrow> 's \<Rightarrow> u32 list
    \<Rightarrow> ('s \<times> u32 list) option" where
  "heap_run alloc free [] s ps = Some (s, ps)"
| "heap_run alloc free (Alloc n # ops) s ps =
     (case alloc n s of None \<Rightarrow> None
      | Some (p, s') \<Rightarrow> heap_run alloc free ops s' (if p = 0 then ps else p # ps))"
| "heap_run alloc free (Release i # ops) s ps =
     (if i < length ps then
        (case free (ps ! i) s of None \<Rightarrow> None
         | Some s' \<Rightarrow> heap_run alloc free ops s' (remove1 (ps ! i) ps))
      else heap_run alloc free ops s ps)"

definition apart :: "(u32 \<times> nat) set \<Rightarrow> bool" where
  "apart L \<longleftrightarrow> (\<forall>(p, m) \<in> L. \<forall>(q, k) \<in> L. (p, m) = (q, k) \<or> unat p + m < unat q \<or> unat q + k < unat p)"

locale allocator =
  fixes alloc :: "u32 \<Rightarrow> 's \<Rightarrow> (u32 \<times> 's) option"
    and free :: "u32 \<Rightarrow> 's \<Rightarrow> 's option"
    and inv :: "'s \<Rightarrow> (u32 \<times> nat) set \<Rightarrow> bool"
  assumes alloc_law: "inv s L \<Longrightarrow> \<exists>p s'. alloc n s = Some (p, s') \<and>
      (if p = 0 then s' = s else \<exists>m. (n \<le> 0xFFFFFFFC \<longrightarrow> unat n \<le> m) \<and> p \<notin> fst ` L \<and> inv s' (insert (p, m) L))"
    and free_law: "inv s L \<Longrightarrow> (p, m) \<in> L \<Longrightarrow> \<exists>s'. free p s = Some s' \<and> inv s' (L - {(p, m)})"
    and inv_apart: "inv s L \<Longrightarrow> apart L"
    and inv_nonnull: "inv s L \<Longrightarrow> (p, m) \<in> L \<Longrightarrow> p \<noteq> 0"
begin

lemma owned_unique:
  assumes "inv s L" "(p, m) \<in> L" "(p, k) \<in> L"
  shows "m = k"
proof -
  from assms(2,3) inv_apart [OF assms(1)] have "(p, m) = (p, k) \<or> unat p + m < unat p \<or> unat p + k < unat p"
    unfolding apart_def by blast
  then show ?thesis by simp
qed

lemma owned_remove:
  assumes "inv s L" "(p, m) \<in> L"
  shows "fst ` (L - {(p, m)}) = fst ` L - {p}"
proof -
  have "x = (p, m)" if "x \<in> L" "fst x = p" for x
    using owned_unique [OF assms(1) _ assms(2), of "snd x"] that by (cases x) simp
  then have "fst x \<noteq> p" if "x \<in> L" "x \<noteq> (p, m)" for x using that by blast
  then have "fst ` (L - {(p, m)}) \<subseteq> fst ` L - {p}" by blast
  moreover have "fst ` L - {p} \<subseteq> fst ` (L - {(p, m)})" by force
  ultimately show ?thesis by blast
qed

text \<open>Every client run returns, and ends owning pairwise separate regions, each pointer once.\<close>

lemma run_safe:
  assumes "inv s L" "fst ` L = set ps" "distinct ps"
  shows "\<exists>s' ps' L'. heap_run alloc free ops s ps = Some (s', ps') \<and> inv s' L' \<and> fst ` L' = set ps' \<and> distinct ps'"
  using assms
proof (induction ops arbitrary: s L ps)
  case (Cons opn ops)
  show ?case
  proof (cases opn)
    case (Alloc n)
    from alloc_law [OF Cons.prems(1), of n] obtain p s' where a: "alloc n s = Some (p, s')"
      "if p = 0 then s' = s else \<exists>m. (n \<le> 0xFFFFFFFC \<longrightarrow> unat n \<le> m) \<and> p \<notin> fst ` L \<and> inv s' (insert (p, m) L)" by blast
    show ?thesis
    proof (cases "p = 0")
      case True
      with a Cons Alloc show ?thesis by simp
    next
      case False
      with a obtain m where "p \<notin> fst ` L" "inv s' (insert (p, m) L)" by auto
      with False a Cons.prems show ?thesis
        using Cons.IH [of s' "insert (p, m) L" "p # ps"] by (simp add: Alloc)
    qed
  next
    case (Release i)
    show ?thesis
    proof (cases "i < length ps")
      case True
      then have "ps ! i \<in> fst ` L" using Cons.prems(2) by simp
      then obtain m where m: "(ps ! i, m) \<in> L" by auto
      from free_law [OF Cons.prems(1) this] obtain s' where
        s': "free (ps ! i) s = Some s'" "inv s' (L - {(ps ! i, m)})" by blast
      moreover have "fst ` (L - {(ps ! i, m)}) = set (remove1 (ps ! i) ps)"
        using owned_remove [OF Cons.prems(1) m] Cons.prems(2,3) by (simp add: set_remove1_eq)
      moreover have "distinct (remove1 (ps ! i) ps)" using Cons.prems(3) by simp
      ultimately show ?thesis
        using Cons.IH [of s' "L - {(ps ! i, m)}" "remove1 (ps ! i) ps"] True by (simp add: Release)
    next
      case False
      with Cons Release show ?thesis by simp
    qed
  qed
qed auto

end

section \<open>Settled lists and used blocks\<close>

text \<open>No two neighbours are both free.\<close>

fun settled :: "block list \<Rightarrow> bool" where
  "settled ((a, s1, f1) # (b, s2, f2) # bs) \<longleftrightarrow> \<not> (f1 \<and> f2) \<and> settled ((b, s2, f2) # bs)"
| "settled bs \<longleftrightarrow> True"

definition used :: "block list \<Rightarrow> (nat \<times> nat) set" where
  "used bs = {(a, sz). (a, sz, False) \<in> set bs}"

lemma used_simps [simp]:
  "used [] = {}"
  "used ((a, sz, True) # bs) = used bs"
  "used ((a, sz, False) # bs) = insert (a, sz) (used bs)"
  by (auto simp: used_def)

lemma used_Cons: "used ((a, sz, fr) # bs) = (if fr then used bs else insert (a, sz) (used bs))"
  by (cases fr) auto

lemma abs_merge_hd: "\<exists>s' bs'. abs_merge ((a, sz, fr) # bs) = (a, s', fr) # bs'"
proof (induction "(a, sz, fr) # bs" arbitrary: sz fr bs rule: abs_merge.induct)
  case (1 s1 f1 b s2 f2 bs)
  then show ?case by (cases "f1 \<and> f2") (simp; fastforce)+
qed auto

lemma settled_abs_merge: "settled (abs_merge bs)"
proof (induction bs rule: abs_merge.induct)
  case (1 a s1 f1 b s2 f2 bs)
  show ?case
  proof (cases "f1 \<and> f2")
    case True
    with 1(1) show ?thesis by simp
  next
    case False
    obtain s' bs' where "abs_merge ((b, s2, f2) # bs) = (b, s', f2) # bs'" using abs_merge_hd by blast
    with 1(2) False show ?thesis by auto
  qed
qed auto

lemma abs_merge_settled: "settled bs \<Longrightarrow> abs_merge bs = bs"
  by (induction bs rule: abs_merge.induct) auto

lemma used_abs_merge: "used (abs_merge bs) = used bs"
  by (induction bs rule: abs_merge.induct) (auto simp: used_Cons)

lemma abs_mark_simps [simp]:
  "abs_mark a [] = []"
  "abs_mark a ((b, sz, fr) # bs) = (b, sz, fr \<or> b = a) # abs_mark a bs"
  by (simp_all add: abs_mark_def)

lemma abs_mark_id: "a \<notin> fst ` set bs \<Longrightarrow> abs_mark a bs = bs"
  by (induction bs) auto

lemma used_mark: "used (abs_mark a bs) = {(b, sz) \<in> used bs. b \<noteq> a}"
  by (induction bs) (auto simp: used_Cons split: if_splits)

lemma used_abs_free: "used (abs_free a bs) = {(b, sz) \<in> used bs. b \<noteq> a}"
  by (simp add: abs_free_def used_abs_merge used_mark)

lemma settled_tail: "settled (b # bs) \<Longrightarrow> settled bs"
  by (cases bs; cases b) (auto elim: settled.elims)

lemma settled_ConsI: "settled bs \<Longrightarrow> \<not> fr \<or> bs = [] \<or> \<not> snd (snd (hd bs)) \<Longrightarrow> settled ((a, sz, fr) # bs)"
  by (cases bs) auto

lemma settled_after_free: "settled ((a, sz, True) # bs) \<Longrightarrow> bs = [] \<or> \<not> snd (snd (hd bs))"
  by (cases bs) auto

text \<open>First fit takes a free block that is big enough; everything used before stays as it was.\<close>

lemma abs_alloc_used:
  "abs_alloc n bs = Some (a, bs') \<Longrightarrow> \<exists>sz. n \<le> sz \<and> (a, sz) \<in> used bs' \<and> used bs' = insert (a, sz) (used bs)"
proof (induction n bs arbitrary: bs' rule: abs_alloc.induct)
  case (2 n b sz fr bs)
  show ?case
  proof (cases "fr \<and> n \<le> sz")
    case True
    with 2 show ?thesis by (auto split: if_splits)
  next
    case False
    with 2(2) obtain bs'' where "abs_alloc n bs = Some (a, bs'')" "bs' = (b, sz, fr) # bs''"
      by (auto split: option.splits)
    with 2(1) [OF False] show ?thesis by (auto simp: used_Cons)
  qed
qed simp

lemma abs_alloc_addr: "abs_alloc n bs = Some (a, bs') \<Longrightarrow> \<exists>sz. (a, sz, True) \<in> set bs"
  by (induction n bs arbitrary: bs' rule: abs_alloc.induct) (fastforce split: if_splits option.splits)+

lemma abs_alloc_hd_used:
  "abs_alloc n bs = Some (a, bs') \<Longrightarrow> bs \<noteq> [] \<Longrightarrow> \<not> snd (snd (hd bs)) \<Longrightarrow> hd bs' = hd bs \<and> bs' \<noteq> []"
  by (cases "(n, bs)" rule: abs_alloc.cases) (auto split: option.splits if_splits)

lemma settled_abs_alloc: "abs_alloc n bs = Some (a, bs') \<Longrightarrow> settled bs \<Longrightarrow> settled bs'"
proof (induction n bs arbitrary: bs' rule: abs_alloc.induct)
  case (2 n b sz fr bs)
  show ?case
  proof (cases "fr \<and> n \<le> sz")
    case True
    with 2(3) have "settled bs" "bs = [] \<or> \<not> snd (snd (hd bs))"
      using settled_tail settled_after_free by auto
    with True 2(2) show ?thesis by (auto split: if_splits intro!: settled_ConsI)
  next
    case False
    with 2(2) obtain bs'' where bs': "abs_alloc n bs = Some (a, bs'')" "bs' = (b, sz, fr) # bs''"
      by (auto split: option.splits)
    have "settled bs''" using 2(1) [OF False bs'(1)] settled_tail [OF 2(3)] by blast
    moreover have "fr \<Longrightarrow> bs'' = [] \<or> \<not> snd (snd (hd bs''))"
      using settled_after_free [of b sz bs] 2(3) abs_alloc_hd_used [OF bs'(1)] bs'(1) by (cases "bs = []") auto
    ultimately show ?thesis unfolding bs' by (intro settled_ConsI) auto
  qed
qed simp

section \<open>The interface on \<open>kmalloc\<close> and \<open>kfree\<close>\<close>

text \<open>The pointer that \<open>kmalloc\<close> returns for the block at an address.\<close>

definition ptr :: "nat \<Rightarrow> u32" where
  "ptr a = of_nat (a + 12)"

text \<open>The pointers the heap's users hold, with the size of the region at each.\<close>

definition regions :: "block list \<Rightarrow> (u32 \<times> nat) set" where
  "regions bs = (\<lambda>(a, sz). (ptr a, sz)) ` used bs"

definition heap_owns :: "nat \<Rightarrow> nat \<Rightarrow> heap \<Rightarrow> (u32 \<times> nat) set \<Rightarrow> bool" where
  "heap_owns lo hi h L \<longleftrightarrow> (\<exists>bs. heap_rep lo hi h bs \<and> bs \<noteq> [] \<and> settled bs \<and> L = regions bs)"

lemma clear_low_bits: "x AND NOT (mask k) = push_bit k (drop_bit k (x :: u32))"
  by (rule bit_word_eqI) (auto simp: bit_simps)

lemma unat_align4: "unat (align4 n) = unat (n + 3) div 4 * 4"
proof -
  have "(3 :: u32) = mask 2" by (simp add: mask_eq_exp_minus_1)
  then have "align4 n = push_bit 2 (drop_bit 2 (n + 3))"
    unfolding align4_def by (metis clear_low_bits)
  then have "unat (align4 n) = take_bit 32 (unat (n + 3) div 4 * 4)"
    by (simp only: unsigned_push_bit_eq unsigned_drop_bit_eq) (simp add: push_bit_eq_mult drop_bit_eq_div take_bit_eq_mod unat_mod)
  moreover have "unat (n + 3) div 4 * 4 < 2 ^ 32"
    by (rule le_less_trans [OF div_times_less_eq_dividend]) (use unsigned_less [of "n + 3"] in simp)
  ultimately show ?thesis by (simp only: take_bit_nat_eq_self)
qed

lemma align4_ge: "n \<le> 0xFFFFFFFC \<Longrightarrow> unat n \<le> unat (align4 n)"
proof -
  assume "n \<le> 0xFFFFFFFC"
  then have "unat (n + 3) = unat n + 3" by (simp add: word_le_nat_alt unat_word_ariths)
  then show "unat n \<le> unat (align4 n)" unfolding unat_align4 by simp
qed

lemma region_unat: "a + 12 < 2147483648 \<Longrightarrow> unat (ptr a) = a + 12"
  by (simp add: ptr_def unat_word_ariths unat_of_nat)

lemma ptr_hdr:
  assumes "a + 12 < 2147483648"
  shows "ptr a \<noteq> 0" "unat (ptr a - HDR) = a"
  using region_unat [OF assms] by (auto simp: HDR_def unat_diff_u32 word_le_nat_alt)

lemma used_tiles:
  assumes "heap_rep lo hi h bs" "(a, sz) \<in> used bs"
  shows "lo \<le> a" "a + 12 + sz < 2147483648"
  using tiles_bounds [of lo bs hi a sz False] assms by (auto simp: heap_rep_def used_def)

lemma used_apart:
  "tiles lo bs hi \<Longrightarrow> (a, s) \<in> used bs \<Longrightarrow> (b, t) \<in> used bs \<Longrightarrow> (a, s) = (b, t) \<or> a + 12 + s \<le> b \<or> b + 12 + t \<le> a"
proof (induction lo bs hi rule: tiles.induct)
  case (2 lo a' sz fr bs hi)
  have *: "lo + 12 + sz \<le> x" if "(x, y) \<in> used bs" for x y
    using tiles_bounds [of "lo + 12 + sz" bs hi x y False] 2(2) that by (simp add: used_def)
  have IH: "(a, s) = (b, t) \<or> a + 12 + s \<le> b \<or> b + 12 + t \<le> a" if "(a, s) \<in> used bs" "(b, t) \<in> used bs"
    using 2(1) 2(2) that by simp
  from 2(2-4) IH show ?case by (auto simp: used_Cons split: if_splits dest: *)
qed simp

lemma tiles_unique: "tiles lo bs hi \<Longrightarrow> (a, s, f) \<in> set bs \<Longrightarrow> (a, t, g) \<in> set bs \<Longrightarrow> f = g \<and> s = t"
proof (induction lo bs hi rule: tiles.induct)
  case (2 lo a' sz fr bs hi)
  have "lo + 12 + sz \<le> x" if "(x, y) \<in> set bs" for x y
    using tiles_bounds [of "lo + 12 + sz" bs hi x "fst y" "snd y"] 2(2) that by simp
  with 2 show ?case by fastforce
qed simp

lemma regions_apart:
  assumes "heap_rep lo hi h bs"
  shows "apart (regions bs)"
proof -
  have t: "tiles lo bs hi" using assms by (simp add: heap_rep_def)
  have "(ptr a, s) = (ptr b, t) \<or> unat (ptr a) + s < unat (ptr b)
      \<or> unat (ptr b) + t < unat (ptr a)"
    if "(a, s) \<in> used bs" "(b, t) \<in> used bs" for a s b t
  proof -
    have "unat (ptr a) = a + 12" "unat (ptr b) = b + 12"
      using used_tiles [OF assms that(1)] used_tiles [OF assms that(2)] by (simp_all only: region_unat)
    then show ?thesis using used_apart [OF t that] by auto
  qed
  then show ?thesis unfolding apart_def regions_def by auto
qed

lemma abs_merge_nonempty: "bs \<noteq> [] \<Longrightarrow> abs_merge bs \<noteq> []"
  by (induction bs rule: abs_merge.induct) auto

lemma abs_free_nonempty: "bs \<noteq> [] \<Longrightarrow> abs_free a bs \<noteq> []"
  unfolding abs_free_def by (rule abs_merge_nonempty) (cases bs; auto)

lemma image_remove: "f ` {x \<in> A. f x \<noteq> y} = f ` A - {y}"
  by blast

lemma kmalloc_owns:
  assumes "heap_owns lo hi h L"
  shows "\<exists>p h'. kmalloc n h = Some (p, h') \<and> (if p = 0 then h' = h
     else \<exists>m. (n \<le> 0xFFFFFFFC \<longrightarrow> unat n \<le> m) \<and> p \<notin> fst ` L \<and> heap_owns lo hi h' (insert (p, m) L))" (is "\<exists>p h'. ?Q p h'")
proof -
  from assms obtain bs where bs: "heap_rep lo hi h bs" "bs \<noteq> []" "settled bs" "L = regions bs"
    by (auto simp: heap_owns_def)
  show "\<exists>p h'. ?Q p h'"
  proof (cases "n = 0 \<or> abs_alloc (unat (align4 n)) bs = None")
    case True
    then have "kmalloc n h = Some (0, h)"
      using kmalloc_refines [OF bs(1,2), of n] by (cases "n = 0") (auto simp: kmalloc_def)
    then have "?Q 0 h" by simp
    then show ?thesis by blast
  next
    case False
    then obtain a bs' where ab: "abs_alloc (unat (align4 n)) bs = Some (a, bs')" "n \<noteq> 0" by auto
    with kmalloc_refines [OF bs(1,2), of n] obtain h' where
      h': "kmalloc n h = Some (ptr a, h')" "heap_rep lo hi h' bs'" by (auto simp: HDR_def ptr_def add.commute)
    from abs_alloc_used [OF ab(1)] obtain sz where
      sz: "unat (align4 n) \<le> sz" "(a, sz) \<in> used bs'" "used bs' = insert (a, sz) (used bs)" by blast
    have a: "a + 12 < 2147483648" using used_tiles [OF h'(2) sz(2)] by simp
    obtain sz0 where free: "(a, sz0, True) \<in> set bs" using abs_alloc_addr [OF ab(1)] by blast
    have "ptr a \<noteq> (0 :: u32)" using region_unat [OF a] by auto
    moreover have "ptr a \<notin> fst ` L"
    proof
      assume "ptr a \<in> fst ` L"
      then obtain b t where b: "(b, t) \<in> used bs" "ptr a = ptr b"
        by (auto simp: bs(4) regions_def)
      have "unat (ptr b) = b + 12" using used_tiles [OF bs(1) b(1)] by (intro region_unat) simp
      then have "a = b" using region_unat [OF a] b(2) by simp
      then have "(a, t, False) \<in> set bs" using b by (simp add: used_def)
      with tiles_unique [OF _ this free, of lo hi] bs(1) show False by (simp add: heap_rep_def)
    qed
    moreover have "heap_owns lo hi h' (insert (ptr a, sz) L)"
      unfolding heap_owns_def using h'(2) settled_abs_alloc [OF ab(1) bs(3)] sz(2,3) bs(4)
      by (intro exI [of _ bs']) (auto simp: regions_def)
    moreover have "n \<le> 0xFFFFFFFC \<longrightarrow> unat n \<le> sz" using align4_ge [of n] sz(1) by linarith
    ultimately have "?Q (ptr a) h'" using h'(1) by auto
    then show ?thesis by blast
  qed
qed

lemma kfree_owns:
  assumes "heap_owns lo hi h L" "(p, m) \<in> L"
  shows "\<exists>h'. kfree p h = Some h' \<and> heap_owns lo hi h' (L - {(p, m)})"
proof -
  from assms obtain bs where bs: "heap_rep lo hi h bs" "bs \<noteq> []" "settled bs" "L = regions bs"
    by (auto simp: heap_owns_def)
  with assms obtain a where a: "(a, m) \<in> used bs" "p = ptr a" by (auto simp: regions_def)
  note a2 = used_tiles [OF bs(1) a(1)]
  have p: "unat p = a + 12" using a2 unfolding a(2) by (intro region_unat) simp
  have "p \<noteq> 0" and hdr: "unat (p - HDR) = a" using ptr_hdr [of a] a2 a(2) by auto
  from kfree_refines [OF bs(1) this(1)] obtain h' where
    h': "kfree p h = Some h'" "heap_rep lo hi h' (abs_free a bs)" unfolding hdr by blast
  have *: "(ptr b, t) = (p, m) \<longleftrightarrow> b = a" if "(b, t) \<in> used bs" for b t
    using used_tiles [OF bs(1) that] region_unat [of b] p a(2) used_apart [OF _ a(1) that, of lo hi] bs(1)
    by (auto simp: heap_rep_def)
  have "regions (abs_free a bs) = (\<lambda>(b, t). (ptr b, t)) ` {x \<in> used bs. fst x \<noteq> a}"
    unfolding regions_def used_abs_free by (rule arg_cong [where f = "image _"]) auto
  also have "{x \<in> used bs. fst x \<noteq> a} = {x \<in> used bs. (case x of (b, t) \<Rightarrow> (ptr b, t)) \<noteq> (p, m)}"
    using * by (intro Collect_cong conj_cong refl) (clarsimp simp del: Pair_inject)
  also have "(\<lambda>(b, t). (ptr b, t)) ` \<dots> = regions bs - {(p, m)}"
    unfolding regions_def by (rule image_remove)
  finally have "regions (abs_free a bs) = L - {(p, m)}" unfolding bs(4) .
  then show ?thesis
    unfolding heap_owns_def using h' settled_abs_merge abs_free_nonempty [OF bs(2)]
    by (intro exI [of _ h']) (auto simp: abs_free_def)
qed

interpretation hp: allocator kmalloc kfree "heap_owns lo hi" for lo hi
proof unfold_locales
  fix s L
  assume i: "heap_owns lo hi s L"
  then obtain bs where bs: "heap_rep lo hi s bs" "L = regions bs" by (auto simp: heap_owns_def)
  then show "apart L" by (simp add: regions_apart)
  show "p \<noteq> 0" if L: "(p, m) \<in> L" for p m
  proof -
    obtain a where a: "(a, m) \<in> used bs" "p = ptr a" using L bs(2) by (auto simp: regions_def)
    have "unat p = a + 12" using used_tiles [OF bs(1) a(1)] unfolding a(2) by (intro region_unat) simp
    then show ?thesis by auto
  qed
qed (fact kmalloc_owns kfree_owns)+

text \<open>Every region lies in the heap, behind its header.\<close>

lemma region_in_heap:
  assumes "heap_owns lo hi h L" "(p, m) \<in> L"
  shows "lo + 12 \<le> unat p \<and> unat p + m \<le> hi \<and> hi < 2147483648"
proof -
  obtain bs where bs: "heap_rep lo hi h bs" "L = regions bs" using assms(1) by (auto simp: heap_owns_def)
  obtain a where a: "(a, m) \<in> used bs" "p = ptr a" using assms(2) bs(2) by (auto simp: regions_def)
  then have "tiles lo bs hi" "hi < 2147483648" "(a, m, False) \<in> set bs" using bs(1) by (simp_all add: heap_rep_def used_def)
  moreover from this have "lo \<le> a \<and> a + 12 + m \<le> hi" using tiles_bounds by blast
  moreover from calculation have "unat p = a + 12" unfolding a(2) by (intro region_unat) simp
  ultimately show ?thesis by simp
qed

section \<open>The heap at boot\<close>

lemma heap_end_loop_ge: "best \<le> heap_end_loop start entries best"
  by (induction start entries best rule: heap_end_loop.induct) (auto simp: Let_def intro: order_trans less_imp_le)

lemma heap_end_bounds:
  assumes "bss_end \<le> 0x80000"
  shows "bss_end + 0x10000 \<le> find_heap_end bss_end entries" "find_heap_end bss_end entries \<le> 0x90000"
proof -
  have "bss_end + 0x10000 \<le> 0x90000"
    using assms by (simp add: word_le_nat_alt unat_word_ariths)
  then show "bss_end + 0x10000 \<le> find_heap_end bss_end entries" "find_heap_end bss_end entries \<le> 0x90000"
    using heap_end_loop_ge [of "bss_end + 0x10000" bss_end entries] by (auto simp: find_heap_end_def Let_def)
qed

text \<open>C39. Whatever memory map the boot loader left, the heap ends at or below \<open>0x90000\<close>, and for a kernel image
  that ends by \<open>0x80000\<close> it has at least 64 KiB.\<close>

theorem find_heap_end_range:
  assumes "bss_end \<le> 0x80000"
  shows "bss_end + 0x10000 \<le> find_heap_end bss_end entries \<and> find_heap_end bss_end entries \<le> 0x90000"
  using heap_end_bounds [OF assms] by blast

theorem find_heap_end_range_witness:
  "(0x12000 :: u32) + 0x10000 \<le> find_heap_end 0x12000 [\<lparr>mm_base = 0, mm_length = 0x9FC00, mm_type = 1, mm_acpi_ext = 1\<rparr>]
   \<and> find_heap_end 0x12000 [\<lparr>mm_base = 0, mm_length = 0x9FC00, mm_type = 1, mm_acpi_ext = 1\<rparr>] \<le> 0x90000"
  by (rule find_heap_end_range) simp

lemma kmalloc_init_rep:
  assumes "0 < bss_end" "bss_end \<le> 0x80000"
  shows "heap_rep (unat bss_end) (unat (find_heap_end bss_end entries)) (kmalloc_init bss_end entries h)
    [(unat bss_end, unat (find_heap_end bss_end entries) - unat bss_end - 12, True)]"
proof -
  let ?e = "find_heap_end bss_end entries"
  have e: "bss_end + 0x10000 \<le> ?e" "?e \<le> 0x90000"
    using heap_end_bounds [OF assms(2)] by blast+
  moreover have "unat (bss_end + 0x10000) = unat bss_end + 0x10000"
    using assms(2) by (simp add: word_le_nat_alt unat_word_ariths)
  ultimately have ge: "unat bss_end + 0x10000 \<le> unat ?e" "unat ?e \<le> 0x90000"
    by (simp_all add: word_le_nat_alt)
  then have "unat (?e - bss_end) = unat ?e - unat bss_end" by (simp add: unat_diff_u32 word_le_nat_alt)
  then have "unat (?e - bss_end - HDR) = unat ?e - unat bss_end - 12"
    using ge by (simp add: unat_diff_u32 word_le_nat_alt HDR_def)
  with ge assms(1) show ?thesis
    by (auto simp: heap_rep_def kmalloc_init_def Let_def word_less_nat_alt)
qed

lemma kmalloc_init_owns:
  assumes "0 < bss_end" "bss_end \<le> 0x80000"
  shows "heap_owns (unat bss_end) (unat (find_heap_end bss_end entries)) (kmalloc_init bss_end entries h) {}"
  unfolding heap_owns_def using kmalloc_init_rep [OF assms, of entries h]
  by (intro exI conjI, assumption) (auto simp: regions_def)

section \<open>Properties\<close>

text \<open>C25. \<open>kmalloc\<close> implements first fit with splitting on the list of blocks: it returns the first free block
  that holds the request rounded up to 4 bytes, and NULL with the heap unchanged exactly when no block does.
  The scan of the list always ends.\<close>

theorem kmalloc_first_fit:
  assumes "heap_rep lo hi h bs" "bs \<noteq> []" "n \<noteq> 0"
  shows "case abs_alloc (unat (align4 n)) bs of
      None \<Rightarrow> kmalloc n h = Some (0, h)
    | Some (a, bs') \<Rightarrow> \<exists>h'. kmalloc n h = Some (ptr a, h') \<and> heap_rep lo hi h' bs'"
proof (cases "abs_alloc (unat (align4 n)) bs")
  case None
  with kmalloc_refines [OF assms] show ?thesis by simp
next
  case (Some r)
  with kmalloc_refines [OF assms] show ?thesis by (cases r) (simp add: ptr_def HDR_def add.commute)
qed

definition boot_heap :: heap where
  "boot_heap = kmalloc_init 0x12000 [] \<lparr>hdrs = (\<lambda>_. \<lparr>bh_size = 0, bh_free = False, bh_next = 0\<rparr>), heap_start = 0\<rparr>"

lemma find_heap_end_boot: "find_heap_end 0x12000 [] = 0x22000"
  by (simp add: find_heap_end_def)

lemma boot_heap_rep: "heap_rep 0x12000 0x22000 boot_heap [(0x12000, 0xFFF4, True)]"
  using kmalloc_init_rep [of "0x12000" "[]" "\<lparr>hdrs = (\<lambda>_. \<lparr>bh_size = 0, bh_free = False, bh_next = 0\<rparr>), heap_start = 0\<rparr>"]
  by (simp add: boot_heap_def find_heap_end_boot)

theorem kmalloc_first_fit_witness:
  "\<exists>h'. kmalloc 13 boot_heap = Some (ptr 0x12000, h')
    \<and> heap_rep 0x12000 0x22000 h' [(0x12000, 16, False), (0x1201C, 65496, True)]"
  using kmalloc_first_fit [OF boot_heap_rep, of 13] by (simp add: unat_align4)

text \<open>C26. \<open>kfree\<close> of a used block returns and implements release with merging on the list of blocks; it leaves
  no two neighbouring free blocks, so the free memory never stays fragmented across neighbours.\<close>

theorem kfree_merges:
  assumes "heap_rep lo hi h bs" "(a, sz) \<in> used bs"
  shows "\<exists>h'. kfree (ptr a) h = Some h' \<and> heap_rep lo hi h' (abs_free a bs) \<and> settled (abs_free a bs)
    \<and> used (abs_free a bs) = used bs - {(a, sz)}"
proof -
  have "a + 12 < 2147483648" using used_tiles [OF assms] by simp
  note hdr = ptr_hdr [OF this]
  have "t = sz" if "(a, t) \<in> used bs" for t
    using used_apart [OF _ assms(2) that, of lo hi] assms(1) by (auto simp: heap_rep_def)
  then have "used (abs_free a bs) = used bs - {(a, sz)}" by (auto simp: used_abs_free)
  moreover have "settled (abs_free a bs)" by (simp add: abs_free_def settled_abs_merge)
  ultimately show ?thesis using kfree_refines [OF assms(1) hdr(1)] unfolding hdr(2) by blast
qed

lemma heap_rep_mono_start: "heap_rep lo hi h bs \<Longrightarrow> bs \<noteq> [] \<Longrightarrow> heap_start h \<noteq> 0"
  by (cases bs) (auto simp: heap_rep_def)

text \<open>Allocating and releasing restores the list of blocks.\<close>

lemma abs_alloc_free:
  "abs_alloc n bs = Some (a, bs') \<Longrightarrow> tiles lo bs hi \<Longrightarrow> settled bs \<Longrightarrow> abs_free a bs' = bs"
proof (induction n bs arbitrary: lo bs' rule: abs_alloc.induct)
  case (2 n b sz fr bs)
  have rest: "tiles (lo + 12 + sz) bs hi" "b = lo" "settled bs" using 2(3,4) settled_tail by auto
  show ?case
  proof (cases "fr \<and> n \<le> sz")
    case True
    then have "b = a" using 2(2) by (auto split: if_splits)
    moreover have "a \<notin> fst ` set bs" using tiles_addr [OF rest(1)] rest(2) \<open>b = a\<close> by fastforce
    ultimately show ?thesis
      using True 2(2) abs_merge_settled [OF 2(4)] by (auto simp: abs_free_def abs_mark_id split: if_splits)
  next
    case False
    with 2(2) obtain bs'' where bs': "abs_alloc n bs = Some (a, bs'')" "bs' = (b, sz, fr) # bs''"
      by (auto split: option.splits)
    obtain sz0 where "(a, sz0, True) \<in> set bs" using abs_alloc_addr [OF bs'(1)] by blast
    then have "a \<noteq> b" using tiles_bounds [OF rest(1)] rest(2) by force
    moreover have IH: "abs_merge (abs_mark a bs'') = bs"
      using 2(1) [OF False bs'(1) rest(1,3)] by (simp add: abs_free_def)
    moreover have "abs_merge ((b, sz, fr) # abs_mark a bs'') = (b, sz, fr) # abs_merge (abs_mark a bs'')"
    proof (cases "fr \<and> bs'' \<noteq> []")
      case True
      have "bs \<noteq> []" using bs'(1) by auto
      moreover have "\<not> snd (snd (hd bs))" using settled_after_free [of b sz bs] 2(4) True calculation by auto
      ultimately have hd: "hd bs'' = hd bs" "\<not> snd (snd (hd bs''))" using abs_alloc_hd_used [OF bs'(1)] by auto
      obtain c t g cs where c: "bs'' = (c, t, g) # cs" using True by (cases bs'') auto
      have "(c, t, g) \<in> set bs" using hd(1) c \<open>bs \<noteq> []\<close> hd_in_set [of bs] by simp
      moreover have "\<not> g" using hd(2) c by simp
      ultimately have "c \<noteq> a" using tiles_unique [OF rest(1), of a t g sz0 True] \<open>(a, sz0, True) \<in> set bs\<close> by auto
      with c \<open>\<not> g\<close> show ?thesis by simp
    qed (cases bs''; auto)
    ultimately show ?thesis by (simp add: bs'(2) abs_free_def)
  qed
qed simp

text \<open>Releasing what was just allocated restores the heap: on a heap without neighbouring free blocks, a
  successful \<open>kmalloc\<close> followed by \<open>kfree\<close> of its result returns to the very same list of blocks.\<close>

theorem kmalloc_kfree_roundtrip:
  assumes "heap_rep lo hi h bs" "settled bs" "kmalloc n h = Some (p, h1)" "p \<noteq> 0"
  shows "\<exists>h2. kfree p h1 = Some h2 \<and> heap_rep lo hi h2 bs"
proof -
  have n: "n \<noteq> 0" using assms(3,4) by (auto simp: kmalloc_def)
  have ne: "bs \<noteq> []" using assms by (auto simp: heap_rep_def kmalloc_def)
  have t: "tiles lo bs hi" using assms(1) by (simp add: heap_rep_def)
  obtain a bs' where ab: "abs_alloc (unat (align4 n)) bs = Some (a, bs')"
    using kmalloc_refines [OF assms(1) ne n] assms(3,4) by (auto split: option.splits)
  with kmalloc_refines [OF assms(1) ne n] assms(3) have h1: "p = ptr a" "heap_rep lo hi h1 bs'"
    by (auto simp: ptr_def HDR_def add.commute)
  obtain sz where "(a, sz) \<in> used bs'" using abs_alloc_used [OF ab] by blast
  from used_tiles [OF h1(2) this] have "a + 12 < 2147483648" by simp
  note hdr = ptr_hdr [OF this]
  from kfree_refines [OF h1(2) hdr(1)] show ?thesis
    unfolding hdr(2) h1(1) abs_alloc_free [OF ab t assms(2)] .
qed

lemma boot_alloc:
  "\<exists>h'. kmalloc 13 boot_heap = Some (ptr 0x12000, h')
    \<and> heap_rep 0x12000 0x22000 h' [(0x12000, 16, False), (0x1201C, 65496, True)]"
  using kmalloc_refines [OF boot_heap_rep, of 13] by (simp add: unat_align4 ptr_def HDR_def)

theorem kmalloc_kfree_roundtrip_witness:
  "\<exists>p h1 h2. kmalloc 13 boot_heap = Some (p, h1) \<and> p \<noteq> 0 \<and> kfree p h1 = Some h2
    \<and> heap_rep 0x12000 0x22000 h2 [(0x12000, 0xFFF4, True)]"
proof -
  obtain h1 where h1: "kmalloc 13 boot_heap = Some (ptr 0x12000, h1)"
    using boot_alloc by blast
  moreover have "ptr 0x12000 \<noteq> 0" using ptr_hdr(1) [of "0x12000"] by simp
  ultimately show ?thesis using kmalloc_kfree_roundtrip [OF boot_heap_rep _ h1] by auto
qed

theorem kfree_merges_witness:
  "\<exists>h h'. heap_rep 0x12000 0x22000 h [(0x12000, 16, False), (0x1201C, 65496, True)]
    \<and> kfree (ptr 0x12000) h = Some h' \<and> heap_rep 0x12000 0x22000 h' [(0x12000, 0xFFF4, True)]"
proof -
  obtain h where h: "heap_rep 0x12000 0x22000 h [(0x12000, 16, False), (0x1201C, 65496, True)]"
    using boot_alloc by blast
  with kfree_merges [OF h, of "0x12000" 16] show ?thesis by (auto simp: abs_free_def)
qed

lemma used_empty_single:
  assumes "used bs = {}" "settled bs" "bs \<noteq> []" "tiles lo bs hi"
  shows "bs = [(lo, hi - lo - 12, True)]"
proof -
  obtain a sz fr cs where b: "bs = (a, sz, fr) # cs" using assms(3) by (cases bs) auto
  have "fr" using assms(1) b by (cases fr) auto
  moreover have "cs = []"
  proof (rule ccontr)
    assume "cs \<noteq> []"
    then obtain c t g ds where c: "cs = (c, t, g) # ds" by (cases cs) auto
    have "g" using assms(1) b c by (cases g) (auto simp: used_Cons split: if_splits)
    then show False using assms(2) b c \<open>fr\<close> by simp
  qed
  ultimately show ?thesis using assms(4) b by auto
qed

text \<open>C4. From boot on, every sequence of \<open>kmalloc\<close> calls and \<open>kfree\<close> calls on owned pointers returns, for
  every memory map: the regions owned at the end are pairwise apart (with room for a header between
  them), and a client that has released everything is back at the one free block of boot. Nothing leaks.\<close>

theorem heap_clients_safe:
  assumes "0 < bss_end" "bss_end \<le> 0x80000"
  shows "\<exists>h' ps bs. heap_run kmalloc kfree ops (kmalloc_init bss_end entries h) [] = Some (h', ps)
    \<and> heap_rep (unat bss_end) (unat (find_heap_end bss_end entries)) h' bs \<and> settled bs
    \<and> distinct ps \<and> fst ` regions bs = set ps \<and> apart (regions bs)
    \<and> (ps = [] \<longrightarrow> bs = [(unat bss_end, unat (find_heap_end bss_end entries) - unat bss_end - 12, True)])"
proof -
  let ?lo = "unat bss_end" and ?hi = "unat (find_heap_end bss_end entries)"
  obtain h' ps L where r: "heap_run kmalloc kfree ops (kmalloc_init bss_end entries h) [] = Some (h', ps)"
    "heap_owns ?lo ?hi h' L" "fst ` L = set ps" "distinct ps"
    using hp.run_safe [OF kmalloc_init_owns [OF assms, of entries h], of "[]" ops] by auto
  from r(2) obtain bs where bs: "heap_rep ?lo ?hi h' bs" "bs \<noteq> []" "settled bs" "L = regions bs"
    unfolding heap_owns_def by blast
  have "bs = [(?lo, ?hi - ?lo - 12, True)]" if "ps = []"
    by (rule used_empty_single) (use that r(3) bs in \<open>auto simp: heap_rep_def regions_def\<close>)
  then show ?thesis using r bs hp.inv_apart [OF r(2)] by blast
qed

theorem heap_clients_safe_witness:
  "\<exists>h' ps bs. heap_run kmalloc kfree [Alloc 100, Alloc 5, Release 1, Release 0]
      (kmalloc_init 0x12000 [] \<lparr>hdrs = (\<lambda>_. \<lparr>bh_size = 0, bh_free = False, bh_next = 0\<rparr>), heap_start = 0\<rparr>) [] = Some (h', ps)
    \<and> heap_rep (unat (0x12000 :: u32)) (unat (find_heap_end 0x12000 [])) h' bs \<and> settled bs
    \<and> distinct ps \<and> fst ` regions bs = set ps \<and> apart (regions bs)"
proof -
  have "(0 :: u32) < 0x12000" "(0x12000 :: u32) \<le> 0x80000" by simp_all
  from heap_clients_safe [OF this, of "[Alloc 100, Alloc 5, Release 1, Release 0]" "[]"
      "\<lparr>hdrs = (\<lambda>_. \<lparr>bh_size = 0, bh_free = False, bh_next = 0\<rparr>), heap_start = 0\<rparr>"]
  show ?thesis by blast
qed

section \<open>The statistics\<close>

definition total_size :: "(bool \<Rightarrow> bool) \<Rightarrow> block list \<Rightarrow> nat" where
  "total_size P bs = sum_list (map (\<lambda>(a, sz, fr). if P fr then sz else 0) bs)"

lemma stats_from_eq:
  "heap_list (hdrs h) p bs \<Longrightarrow> stats_from h p t u f =
     Some (t + of_nat (total_size (\<lambda>_. True) bs), u + of_nat (total_size Not bs), f + of_nat (total_size id bs))"
proof (induction bs arbitrary: p t u f)
  case Nil
  then show ?case by (subst stats_from.simps) (simp add: total_size_def)
next
  case (Cons b bs)
  obtain a sz fr where b: "b = (a, sz, fr)" by (cases b)
  with Cons.prems have "p \<noteq> 0" "bh_size (hdrs h p) = of_nat sz" "bh_free (hdrs h p) = fr" "heap_list (hdrs h) (bh_next (hdrs h p)) bs"
    by auto
  with Cons.IH show ?case
    by (subst stats_from.simps) (simp add: b Let_def total_size_def add.assoc)
qed

lemma tiles_total: "tiles lo bs hi \<Longrightarrow> lo + total_size (\<lambda>_. True) bs + 12 * length bs = hi"
  by (induction lo bs hi rule: tiles.induct) (auto simp: total_size_def)

lemma total_size_split: "total_size (\<lambda>_. True) bs = total_size Not bs + total_size id bs"
  by (induction bs) (auto simp: total_size_def)

text \<open>The numbers that \<open>kmalloc_stats\<close> reports are exact: its loop ends, used plus free is the total, and the
  total and one header per block account for every byte of the heap.\<close>

theorem kmalloc_stats_exact:
  assumes "heap_rep lo hi h bs"
  shows "\<exists>t u f. kmalloc_stats h = Some (t, u, f) \<and> unat u = total_size Not bs \<and> unat f = total_size id bs
    \<and> unat t = unat u + unat f \<and> lo + unat t + 12 * length bs = hi"
proof -
  have t: "lo + total_size (\<lambda>_. True) bs + 12 * length bs = hi" "hi < 2147483648"
    using tiles_total assms by (auto simp: heap_rep_def)
  have "unat (of_nat n :: u32) = n" if "n \<le> total_size (\<lambda>_. True) bs" for n
    using that t by (simp add: unat_of_nat)
  moreover have "kmalloc_stats h =
      Some (of_nat (total_size (\<lambda>_. True) bs), of_nat (total_size Not bs), of_nat (total_size id bs))"
    using stats_from_eq [of h "heap_start h" bs 0 0 0] assms by (simp add: kmalloc_stats_def heap_rep_def)
  ultimately show ?thesis using t(1) total_size_split [of bs] by (simp del: of_nat_add)
qed

theorem kmalloc_stats_exact_witness:
  "\<exists>t u f. kmalloc_stats boot_heap = Some (t, u, f) \<and> unat u = 0 \<and> unat f = 0xFFF4
    \<and> unat t = unat u + unat f \<and> 0x12000 + unat t + 12 * length [(0x12000 :: nat, 0xFFF4 :: nat, True)] = 0x22000"
  using kmalloc_stats_exact [OF boot_heap_rep] by (simp add: total_size_def)

section \<open>The size that wraps\<close>

text \<open>The rounding \<open>(size + 3) & ~3\<close> wraps for the three largest sizes, for which \<open>kmalloc\<close> does not fail:
  on the heap of boot it hands out a block of size 0.\<close>

theorem kmalloc_size_wraps:
  "list_all (\<lambda>n. \<exists>h'. kmalloc n boot_heap = Some (ptr 0x12000, h')
     \<and> heap_rep 0x12000 0x22000 h' [(0x12000, 0, False), (0x1200C, 0xFFE8, True)])
   [0xFFFFFFFD, 0xFFFFFFFE, 0xFFFFFFFF]"
proof -
  have "\<exists>h'. kmalloc n boot_heap = Some (ptr 0x12000, h')
     \<and> heap_rep 0x12000 0x22000 h' [(0x12000, 0, False), (0x1200C, 0xFFE8, True)]"
    if n: "n \<in> {0xFFFFFFFD, 0xFFFFFFFE, 0xFFFFFFFF}" for n :: u32
  proof -
    have "unat (align4 n) = 0" using n by (auto simp: unat_align4)
    moreover have "n \<noteq> 0" using n by auto
    ultimately show ?thesis
      using kmalloc_refines [OF boot_heap_rep, of n] by (simp add: ptr_def HDR_def)
  qed
  then show ?thesis by simp
qed

end
