(* ===== verification/Task.thy ===== *)
theory Task
  imports HeapSafe Console
begin

text \<open>
  The tasks of \<open>kernel/task.c\<close>: the task table, creation on a stack from the heap, the round-robin
  scheduler that the timer interrupt calls, and killing. \<open>task_switch\<close> of
  \<open>kernel/interrupts.asm\<close> appears as what it does to the two stack pointers. The scheduler's search
  loop is partial (\<open>None\<close>: it never ends); the invariant of the reachable states rules that out.
\<close>

section \<open>State\<close>

definition MAX_TASKS :: nat where "MAX_TASKS = 8"
definition TASK_STACK_SIZE :: u32 where "TASK_STACK_SIZE = 16384"

record task =
  tk_esp :: u32
  tk_used :: bool
  tk_name :: string
  tk_stack_base :: u32

text \<open>The static variables of \<open>task.c\<close>, with the heap that the stacks come from and the words of
  memory.\<close>

record tasking =
  tasks :: "task list"
  current_task :: int
  task_count :: nat
  theap :: heap
  mem :: "u32 \<Rightarrow> u32"

section \<open>Operations\<close>

definition tasks_init :: "tasking \<Rightarrow> tasking" where
  "tasks_init s = s\<lparr>tasks := map (\<lambda>i. (tasks s ! i)\<lparr>tk_used := False\<rparr>) [0..<MAX_TASKS],
     current_task := -1, task_count := 0\<rparr>"

text \<open>The \<open>do\<close> loop of \<open>schedule\<close>.\<close>

partial_function (option) next_used :: "task list \<Rightarrow> nat \<Rightarrow> int \<Rightarrow> int option" where
  "next_used ts count n =
     (let n = (n + 1) mod int count
      in if \<not> tk_used (ts ! nat n) then next_used ts count n else Some n)"

text \<open>\<open>esp\<close> is the stack pointer that \<open>task_switch\<close> saves. The first component of the result is
  the stack pointer it loads, when the switch takes place.\<close>

definition schedule :: "u32 \<Rightarrow> tasking \<Rightarrow> (u32 option \<times> tasking) option" where
  "schedule esp s =
     (if task_count s = 0 then Some (None, s)
      else
        (case next_used (tasks s) (task_count s) (current_task s) of
           None \<Rightarrow> None
         | Some n \<Rightarrow>
             if current_task s = -1
             then Some (Some (tk_esp (tasks s ! nat n)), s\<lparr>current_task := n\<rparr>)
             else if n = current_task s then Some (None, s)
             else
               (let prev = current_task s;
                    s = s\<lparr>current_task := n\<rparr>;
                    s = s\<lparr>tasks := (tasks s)[nat prev := (tasks s ! nat prev)\<lparr>tk_esp := esp\<rparr>]\<rparr>
                in Some (Some (tk_esp (tasks s ! nat n)), s))))"

text \<open>\<open>name_copy\<close> has the body of \<open>str_copy_n\<close>. The pushes of the initial stack write downwards from
  its end; nothing tests the result of \<open>kmalloc\<close>.\<close>

definition push_word :: "u32 \<Rightarrow> u32 \<times> (u32 \<Rightarrow> u32) \<Rightarrow> u32 \<times> (u32 \<Rightarrow> u32)" where
  "push_word v st = (case st of (sp, m) \<Rightarrow> (sp - 4, m(sp - 4 := v)))"

definition task_create_named :: "u32 \<Rightarrow> string \<Rightarrow> tasking \<Rightarrow> (int \<times> tasking) option" where
  "task_create_named entry nm s =
     (if task_count s \<ge> MAX_TASKS then Some (-1, s)
      else do {
        (stack, h) \<leftarrow> kmalloc TASK_STACK_SIZE (theap s);
        let (sp, m) = push_word 0 (push_word 0 (push_word 0 (push_word 0 (push_word entry (stack + TASK_STACK_SIZE, mem s)))));
            slot = task_count s
        in Some (int slot,
             s\<lparr>theap := h, mem := m, task_count := slot + 1,
               tasks := (tasks s)[slot := \<lparr>tk_esp = sp, tk_used = True, tk_name = str_copy_n nm 16, tk_stack_base = stack\<rparr>]\<rparr>)
      })"

definition task_create :: "u32 \<Rightarrow> tasking \<Rightarrow> tasking option" where
  "task_create entry s = map_option snd (task_create_named entry ''unnamed'' s)"

text \<open>The text that \<open>task_list\<close> prints.\<close>

definition task_list :: "tasking \<Rightarrow> string" where
  "task_list s = concat (map (\<lambda>i.
     if \<not> tk_used (tasks s ! i) then []
     else ''  ['' @ uint_string (of_nat i) @ ''] '' @ tk_name (tasks s ! i) @
       (if int i = current_task s then '' - running'' else []) @ [CHR 0x0A]) [0..<task_count s])"

definition task_kill :: "int \<Rightarrow> tasking \<Rightarrow> (int \<times> tasking) option" where
  "task_kill tid s =
     (if tid < 0 \<or> tid \<ge> int (task_count s) then Some (-1, s)
      else if \<not> tk_used (tasks s ! nat tid) then Some (-1, s)
      else if tid = current_task s then Some (-1, s)
      else if tid = 0 then Some (-1, s)
      else do {
        h \<leftarrow> kfree (tk_stack_base (tasks s ! nat tid)) (theap s);
        Some (0, s\<lparr>theap := h, tasks := (tasks s)[nat tid := (tasks s ! nat tid)\<lparr>tk_used := False\<rparr>]\<rparr>)
      })"

definition task_current_id :: "tasking \<Rightarrow> int" where
  "task_current_id s = current_task s"

section \<open>The search loop\<close>

text \<open>The next used task in cyclic order, found within \<open>count\<close> steps.\<close>

definition cyc :: "nat \<Rightarrow> int \<Rightarrow> nat \<Rightarrow> nat" where
  "cyc count n d = nat ((n + 1 + int d) mod int count)"

lemma next_used_step:
  "next_used ts count n = (if tk_used (ts ! nat ((n + 1) mod int count)) then Some ((n + 1) mod int count)
     else next_used ts count ((n + 1) mod int count))"
  by (subst next_used.simps) (simp add: Let_def)

lemma next_used_finds:
  assumes "0 < count" "tk_used (ts ! cyc count n d)" "\<forall>k<d. \<not> tk_used (ts ! cyc count n k)"
  shows "next_used ts count n = Some (int (cyc count n d))"
  using assms
proof (induction d arbitrary: n)
  case 0
  then show ?case by (subst next_used_step) (simp add: cyc_def)
next
  case (Suc d)
  let ?n = "(n + 1) mod int count"
  have cyc: "cyc count ?n k = cyc count n (Suc k)" for k
    using mod_add_left_eq [of "n + 1" "int count" "1 + int k"] by (simp add: cyc_def ac_simps)
  have "\<not> tk_used (ts ! cyc count n 0)" using Suc.prems(3) by blast
  then have "\<not> tk_used (ts ! nat ?n)" by (simp add: cyc_def)
  then have "next_used ts count n = next_used ts count ?n" by (subst next_used_step) simp
  also have "\<dots> = Some (int (cyc count ?n d))"
    by (rule Suc.IH) (use Suc.prems in \<open>auto simp: cyc\<close>)
  finally show ?case by (simp add: cyc)
qed

lemma cyc_less: "0 < count \<Longrightarrow> cyc count n d < count"
  by (simp add: cyc_def nat_less_iff)

text \<open>Every slot is reached within \<open>count\<close> steps.\<close>

lemma cyc_reaches:
  assumes "i < count"
  shows "\<exists>d<count. cyc count n d = i"
proof -
  let ?d = "nat ((int i - n - 1) mod int count)"
  have "?d < count" using assms by (simp add: nat_less_iff)
  moreover have "int ?d = (int i - n - 1) mod int count" using assms by simp
  then have "(n + 1 + int ?d) mod int count = int i"
    using assms by (simp add: mod_simps)
  then have "cyc count n ?d = i" by (simp add: cyc_def)
  ultimately show ?thesis by blast
qed

lemma next_used_first:
  assumes "i < count" "tk_used (ts ! i)"
  shows "\<exists>d<count. next_used ts count n = Some (int (cyc count n d)) \<and> tk_used (ts ! cyc count n d)
    \<and> (\<forall>k<d. \<not> tk_used (ts ! cyc count n k))"
proof -
  obtain e where e: "e < count" "tk_used (ts ! cyc count n e)" using cyc_reaches [OF assms(1), of n] assms(2) by blast
  let ?P = "\<lambda>d. tk_used (ts ! cyc count n d)"
  obtain d where d: "?P d" "\<forall>k<d. \<not> ?P k" using exists_least_iff [of ?P] e(2) by blast
  have "d \<le> e" using d(2) e(2) by (meson not_le_imp_less)
  then have "d < count" using e(1) by simp
  moreover have "next_used ts count n = Some (int (cyc count n d))"
    using next_used_finds [OF _ d] assms(1) by simp
  ultimately show ?thesis using d by blast
qed

section \<open>The invariant of the task table\<close>

definition task_used :: "tasking \<Rightarrow> nat \<Rightarrow> bool" where
  "task_used s i \<longleftrightarrow> i < task_count s \<and> tk_used (tasks s ! i)"

definition task_wf :: "tasking \<Rightarrow> bool" where
  "task_wf s \<longleftrightarrow> length (tasks s) = MAX_TASKS \<and> task_count s \<le> MAX_TASKS
     \<and> (current_task s = -1 \<or> 0 \<le> current_task s \<and> task_used s (nat (current_task s)))
     \<and> (0 < task_count s \<longrightarrow> task_used s 0)"

lemma task_wf_current: "task_wf s \<Longrightarrow> -1 \<le> current_task s \<and> current_task s < int (task_count s)"
  by (auto simp: task_wf_def task_used_def)

lemma tasks_init_wf: "task_wf (tasks_init s)"
  by (simp add: task_wf_def tasks_init_def MAX_TASKS_def)

text \<open>What a tick does to the table: it moves on to the next used task and saves one stack pointer.\<close>

lemma schedule_picks:
  assumes "task_wf s" "0 < task_count s"
  shows "\<exists>d r s'. schedule esp s = Some (r, s') \<and> d < task_count s
    \<and> current_task s' = int (cyc (task_count s) (current_task s) d) \<and> task_used s (cyc (task_count s) (current_task s) d)
    \<and> (\<forall>k<d. \<not> task_used s (cyc (task_count s) (current_task s) k))
    \<and> task_count s' = task_count s \<and> theap s' = theap s \<and> mem s' = mem s \<and> length (tasks s') = length (tasks s)
    \<and> (\<forall>i. (tasks s' ! i)\<lparr>tk_esp := 0\<rparr> = (tasks s ! i)\<lparr>tk_esp := 0\<rparr>)"
proof -
  let ?n = "task_count s" and ?c = "current_task s"
  have "task_used s 0" using assms by (simp add: task_wf_def)
  then obtain d where d: "d < ?n" "next_used (tasks s) ?n ?c = Some (int (cyc ?n ?c d))"
    "tk_used (tasks s ! cyc ?n ?c d)" "\<forall>k<d. \<not> tk_used (tasks s ! cyc ?n ?c k)"
    using next_used_first [of 0 ?n "tasks s" ?c] by (auto simp: task_used_def)
  have len: "length (tasks s) = 8" "nat ?c < 8"
    using assms(1) task_wf_current [OF assms(1)] by (auto simp: task_wf_def MAX_TASKS_def)
  have esp: "((tasks s)[nat ?c := (tasks s ! nat ?c)\<lparr>tk_esp := esp\<rparr>] ! i)\<lparr>tk_esp := 0\<rparr> = (tasks s ! i)\<lparr>tk_esp := 0\<rparr>" for i
    using len by (cases "i = nat ?c") auto
  show ?thesis
    using d assms(2) esp cyc_less [OF assms(2), of ?c]
    by (intro exI [of _ d]) (auto simp: schedule_def Let_def task_used_def)
qed

lemma same_but_esp_used: "x\<lparr>tk_esp := 0\<rparr> = y\<lparr>tk_esp := 0\<rparr> \<Longrightarrow> tk_used x = tk_used y \<and> tk_stack_base x = tk_stack_base y"
  by (cases x; cases y) simp

lemma schedule_idle: "task_count s = 0 \<Longrightarrow> schedule esp s = Some (None, s)"
  by (simp add: schedule_def)

lemma schedule_used:
  assumes "task_wf s" "schedule esp s = Some (r, s')"
  shows "task_used s' i = task_used s i" "tk_stack_base (tasks s' ! i) = tk_stack_base (tasks s ! i)"
    "task_count s' = task_count s" "theap s' = theap s" "mem s' = mem s" "task_wf s'"
proof -
  have *: "task_count s' = task_count s \<and> theap s' = theap s \<and> mem s' = mem s
      \<and> (\<forall>i. task_used s' i = task_used s i \<and> tk_stack_base (tasks s' ! i) = tk_stack_base (tasks s ! i)) \<and> task_wf s'"
  proof (cases "task_count s = 0")
    case True
    with assms schedule_idle [OF True] show ?thesis by auto
  next
    case False
    then obtain d where d: "current_task s' = int (cyc (task_count s) (current_task s) d)"
      "task_used s (cyc (task_count s) (current_task s) d)"
      "task_count s' = task_count s" "theap s' = theap s" "mem s' = mem s" "length (tasks s') = length (tasks s)"
      "\<forall>i. (tasks s' ! i)\<lparr>tk_esp := 0\<rparr> = (tasks s ! i)\<lparr>tk_esp := 0\<rparr>"
      using schedule_picks [OF assms(1), of esp] assms(2) by auto
    have u: "task_used s' i = task_used s i \<and> tk_stack_base (tasks s' ! i) = tk_stack_base (tasks s ! i)" for i
      using d(3) same_but_esp_used [OF spec [OF d(7), of i]] by (simp add: task_used_def)
    then show ?thesis using d assms(1) by (simp add: task_wf_def)
  qed
  then show "task_used s' i = task_used s i" "tk_stack_base (tasks s' ! i) = tk_stack_base (tasks s ! i)"
    "task_count s' = task_count s" "theap s' = theap s" "mem s' = mem s" "task_wf s'" by blast+
qed

text \<open>On every well-formed task table the scheduler returns, and the task it makes current is the first used
  one after the current task in cyclic order; of the table it changes at most saved stack pointers.\<close>

theorem schedule_round_robin:
  assumes "task_wf s" "0 < task_count s"
  shows "\<exists>d r s'. schedule esp s = Some (r, s') \<and> task_wf s' \<and> d < task_count s
    \<and> current_task s' = int (cyc (task_count s) (current_task s) d) \<and> task_used s (cyc (task_count s) (current_task s) d)
    \<and> (\<forall>k<d. \<not> task_used s (cyc (task_count s) (current_task s) k))
    \<and> (\<forall>i. (tasks s' ! i)\<lparr>tk_esp := 0\<rparr> = (tasks s ! i)\<lparr>tk_esp := 0\<rparr>)"
  using schedule_picks [OF assms, of esp] schedule_used(6) [OF assms(1), of esp] by blast

definition three_tasks :: tasking where
  "three_tasks = \<lparr>tasks = map (\<lambda>i. \<lparr>tk_esp = of_nat i, tk_used = (i = 0 \<or> i = 2), tk_name = [], tk_stack_base = 0\<rparr>) [0..<8],
     current_task = 0, task_count = 3, theap = boot_heap, mem = \<lambda>_. 0\<rparr>"

lemma three_tasks_wf: "task_wf three_tasks"
  by (simp add: task_wf_def task_used_def three_tasks_def MAX_TASKS_def)

theorem schedule_round_robin_witness:
  "\<exists>r s'. schedule 7 three_tasks = Some (r, s') \<and> task_wf s' \<and> current_task s' = 2"
proof -
  have n: "task_count three_tasks = 3" "current_task three_tasks = 0" by (simp_all add: three_tasks_def)
  obtain d r s' where d: "schedule 7 three_tasks = Some (r, s')" "task_wf s'" "d < 3"
    "current_task s' = int (cyc 3 0 d)" "task_used three_tasks (cyc 3 0 d)" "\<forall>k<d. \<not> task_used three_tasks (cyc 3 0 k)"
    using schedule_round_robin [OF three_tasks_wf, of 7] n by auto
  have u: "\<not> task_used three_tasks 1" "task_used three_tasks 2" by (simp_all add: three_tasks_def task_used_def)
  have c: "cyc 3 0 0 = 1" "cyc 3 0 1 = 2" by (simp_all add: cyc_def)
  have "d \<noteq> 0"
  proof
    assume "d = 0"
    with d(5) u(1) c(1) show False by simp
  qed
  moreover have "\<not> 1 < d" using d(6) u(2) c(2) by auto
  ultimately have "d = 1" by simp
  with d c show ?thesis by auto
qed

section \<open>Fairness\<close>

text \<open>Consecutive ticks, each with the stack pointer it interrupts.\<close>

fun tick_run :: "u32 list \<Rightarrow> tasking \<Rightarrow> tasking option" where
  "tick_run [] s = Some s"
| "tick_run (esp # esps) s = (case schedule esp s of None \<Rightarrow> None | Some (r, s') \<Rightarrow> tick_run esps s')"

lemma cyc_cyc: "0 < count \<Longrightarrow> cyc count (int (cyc count n d)) e = cyc count n (d + 1 + e)"
  using mod_add_left_eq [of "n + 1 + int d" "int count" "1 + int e"]
  by (simp add: cyc_def ac_simps)

lemma tick_run_reaches:
  assumes "task_wf s" "d < task_count s" "task_used s (cyc (task_count s) (current_task s) d)" "d < length esps"
  shows "\<exists>k s'. 0 < k \<and> k \<le> Suc d \<and> tick_run (take k esps) s = Some s' \<and> current_task s' = int (cyc (task_count s) (current_task s) d)"
  using assms
proof (induction d arbitrary: s esps rule: less_induct)
  case (less d)
  let ?n = "task_count s" and ?c = "current_task s"
  obtain esp es where es: "esps = esp # es" using less.prems(4) by (cases esps) auto
  have n: "0 < ?n" using less.prems(2) by simp
  obtain d0 r s1 where s1: "schedule esp s = Some (r, s1)" "current_task s1 = int (cyc ?n ?c d0)"
    "\<forall>k<d0. \<not> task_used s (cyc ?n ?c k)"
    using schedule_picks [OF less.prems(1) n, of esp] by auto
  note keep = schedule_used [OF less.prems(1) s1(1)]
  have "d0 \<le> d" using s1(3) less.prems(3) by (meson not_le_imp_less)
  show ?case
  proof (cases "d0 = d")
    case True
    with s1 es show ?thesis by (intro exI [of _ "Suc 0"] exI [of _ s1]) auto
  next
    case False
    let ?e = "d - d0 - 1"
    have e: "?e < d" "d0 + 1 + ?e = d" using \<open>d0 \<le> d\<close> False by auto
    have cyc: "cyc ?n (current_task s1) ?e = cyc ?n ?c d"
      using cyc_cyc [OF n, of ?c d0 ?e] e(2) by (simp add: s1(2))
    from less.IH [OF e(1) keep(6), of es, unfolded keep(1,3) cyc] less.prems e es obtain k s2 where
      k: "0 < k" "k \<le> Suc ?e" "tick_run (take k es) s1 = Some s2" "current_task s2 = int (cyc ?n ?c d)"
      by auto
    then show ?thesis using s1(1) es e by (intro exI [of _ "Suc k"] exI [of _ s2]) auto
  qed
qed

text \<open>C17. Round robin is fair: every used task runs within as many consecutive ticks as there are slots in use,
  whatever the interrupted stack pointers are.\<close>

theorem scheduler_fair:
  assumes "task_wf s" "task_used s i" "length esps = task_count s"
  shows "\<exists>k s'. 0 < k \<and> k \<le> task_count s \<and> tick_run (take k esps) s = Some s' \<and> current_task s' = int i"
proof -
  have "i < task_count s" using assms(2) by (simp add: task_used_def)
  then obtain d where d: "d < task_count s" "cyc (task_count s) (current_task s) d = i"
    using cyc_reaches by blast
  with tick_run_reaches [OF assms(1) d(1), of esps] assms(2,3) obtain k s' where
    "0 < k" "k \<le> Suc d" "tick_run (take k esps) s = Some s'" "current_task s' = int i" by auto
  with d(1) show ?thesis by (intro exI [of _ k] exI [of _ s']) auto
qed

theorem scheduler_fair_witness:
  "\<exists>k s'. 0 < k \<and> k \<le> 3 \<and> tick_run (take k [7, 8, 9]) three_tasks = Some s' \<and> current_task s' = 2"
  using scheduler_fair [OF three_tasks_wf, of 2 "[7, 8, 9]"] by (simp add: three_tasks_def task_used_def)

section \<open>Stacks\<close>

text \<open>The events that touch the table or the heap: a tick, creation, killing, and another client's
  allocation.\<close>

datatype task_event = Tick u32 | Create u32 string | Kill int | Reserve u32

definition task_step :: "task_event \<Rightarrow> tasking \<Rightarrow> tasking option" where
  "task_step e s =
     (case e of
        Tick esp \<Rightarrow> map_option snd (schedule esp s)
      | Create entry nm \<Rightarrow> map_option snd (task_create_named entry nm s)
      | Kill i \<Rightarrow> map_option snd (task_kill i s)
      | Reserve n \<Rightarrow> map_option (\<lambda>(p, h). s\<lparr>theap := h\<rparr>) (kmalloc n (theap s)))"

definition task_run :: "task_event list \<Rightarrow> tasking \<Rightarrow> tasking option" where
  "task_run = run_steps task_step"

lemma task_run_simps [simp]:
  "task_run [] s = Some s" "task_run (e # es) s = (case task_step e s of None \<Rightarrow> None | Some s' \<Rightarrow> task_run es s')"
  unfolding task_run_def by simp_all

text \<open>The stack of a used task is a live region of the heap, its own, unless \<open>kmalloc\<close> gave NULL.\<close>

definition stack_of :: "tasking \<Rightarrow> nat \<Rightarrow> u32" where
  "stack_of s i = tk_stack_base (tasks s ! i)"

definition stacks_owned :: "tasking \<Rightarrow> (u32 \<times> nat) set \<Rightarrow> bool" where
  "stacks_owned s L \<longleftrightarrow>
     (\<forall>i. task_used s i \<longrightarrow> stack_of s i \<noteq> 0 \<longrightarrow> (\<exists>m \<ge> 16384. (stack_of s i, m) \<in> L)) \<and>
     (\<forall>i j. task_used s i \<longrightarrow> task_used s j \<longrightarrow> stack_of s i \<noteq> 0 \<longrightarrow> stack_of s i = stack_of s j \<longrightarrow> i = j)"

definition task_inv :: "nat \<Rightarrow> nat \<Rightarrow> tasking \<Rightarrow> bool" where
  "task_inv lo hi s \<longleftrightarrow> task_wf s \<and> (\<exists>L. heap_owns lo hi (theap s) L \<and> stacks_owned s L)"

lemma stacks_owned_live: "stacks_owned s L \<Longrightarrow> task_used s i \<Longrightarrow> stack_of s i \<noteq> 0 \<Longrightarrow> \<exists>m \<ge> 16384. (stack_of s i, m) \<in> L"
  by (simp add: stacks_owned_def)

lemma stacks_owned_inj: "stacks_owned s L \<Longrightarrow> task_used s i \<Longrightarrow> task_used s j \<Longrightarrow> stack_of s i \<noteq> 0
    \<Longrightarrow> stack_of s i = stack_of s j \<Longrightarrow> i = j"
  unfolding stacks_owned_def by blast

lemma stacks_ownedI:
  assumes "\<And>i. task_used s i \<Longrightarrow> stack_of s i \<noteq> 0 \<Longrightarrow> \<exists>m \<ge> 16384. (stack_of s i, m) \<in> L"
    and "\<And>i j. task_used s i \<Longrightarrow> task_used s j \<Longrightarrow> stack_of s i \<noteq> 0 \<Longrightarrow> stack_of s i = stack_of s j \<Longrightarrow> i = j"
  shows "stacks_owned s L"
  using assms unfolding stacks_owned_def by blast

lemma stacks_owned_mono: "stacks_owned s L \<Longrightarrow> L \<subseteq> L' \<Longrightarrow> stacks_owned s L'"
  unfolding stacks_owned_def by blast

lemma stacks_owned_cong:
  assumes "stacks_owned s L" "\<And>i. task_used s' i \<Longrightarrow> task_used s i" "\<And>i. task_used s' i \<Longrightarrow> stack_of s' i = stack_of s i"
  shows "stacks_owned s' L"
  using assms unfolding stacks_owned_def by metis

lemma tick_inv:
  assumes "task_inv lo hi s"
  shows "\<exists>r s'. schedule esp s = Some (r, s') \<and> task_inv lo hi s'"
proof -
  have wf: "task_wf s" using assms by (simp add: task_inv_def)
  obtain r s' where s': "schedule esp s = Some (r, s')"
    using schedule_picks [OF wf, of esp] schedule_idle [of s esp] by blast
  note keep = schedule_used [OF wf s']
  have "stacks_owned s' L" if "stacks_owned s L" for L
    by (rule stacks_owned_cong [OF that]) (simp_all add: keep stack_of_def)
  then show ?thesis using assms s' keep by (auto simp: task_inv_def)
qed

lemma create_entry:
  assumes "task_wf s" "task_count s < 8" "kmalloc TASK_STACK_SIZE (theap s) = Some (p, h)"
  shows "\<exists>s'. task_create_named entry nm s = Some (int (task_count s), s') \<and> task_wf s' \<and> theap s' = h
    \<and> task_count s' = Suc (task_count s) \<and> current_task s' = current_task s
    \<and> (\<forall>i. task_used s' i \<longleftrightarrow> task_used s i \<or> i = task_count s)
    \<and> (\<forall>i. stack_of s' i = (if i = task_count s then p else stack_of s i))
    \<and> tasks s' ! task_count s = \<lparr>tk_esp = p + 16364, tk_used = True, tk_name = take 15 nm, tk_stack_base = p\<rparr>
    \<and> mem s' = (mem s)(p + 16380 := entry, p + 16376 := 0, p + 16372 := 0, p + 16368 := 0, p + 16364 := 0)"
proof -
  have len: "length (tasks s) = 8" using assms(1) by (simp add: task_wf_def MAX_TASKS_def)
  define s' where "s' = s\<lparr>theap := h, task_count := task_count s + 1,
     mem := (mem s)(p + 16380 := entry, p + 16376 := 0, p + 16372 := 0, p + 16368 := 0, p + 16364 := 0),
     tasks := (tasks s)[task_count s := \<lparr>tk_esp = p + 16364, tk_used = True, tk_name = take 15 nm, tk_stack_base = p\<rparr>]\<rparr>"
  have c: "task_create_named entry nm s = Some (int (task_count s), s')"
    using assms(2,3) by (simp add: task_create_named_def MAX_TASKS_def push_word_def TASK_STACK_SIZE_def s'_def
        str_copy_n_take diff_diff_eq add.commute [of p] Let_def)
  have u: "task_used s' i \<longleftrightarrow> task_used s i \<or> i = task_count s" for i
    using assms(2) len by (auto simp: task_used_def s'_def nth_list_update)
  have st: "stack_of s' i = (if i = task_count s then p else stack_of s i)" for i
    using assms(2) len by (simp add: stack_of_def s'_def)
  have "task_wf s'"
    using assms(1,2) len unfolding task_wf_def u by (auto simp: s'_def MAX_TASKS_def)
  with c u st assms(2) len show ?thesis by (intro exI [of _ s']) (simp add: s'_def)
qed

lemma create_inv:
  assumes "task_inv lo hi s"
  shows "\<exists>r s'. task_create_named entry nm s = Some (r, s') \<and> task_inv lo hi s'"
proof (cases "task_count s < 8")
  case False
  with assms show ?thesis by (auto simp: task_create_named_def MAX_TASKS_def)
next
  case True
  obtain L where wf: "task_wf s" and L: "heap_owns lo hi (theap s) L" "stacks_owned s L"
    using assms by (auto simp: task_inv_def)
  from hp.alloc_law [OF L(1), of TASK_STACK_SIZE] obtain p h where
    k: "kmalloc TASK_STACK_SIZE (theap s) = Some (p, h)" and
    p: "if p = 0 then h = theap s else \<exists>m. (TASK_STACK_SIZE \<le> 0xFFFFFFFC \<longrightarrow> unat TASK_STACK_SIZE \<le> m)
          \<and> p \<notin> fst ` L \<and> heap_owns lo hi h (insert (p, m) L)" by blast
  from create_entry [OF wf True k, of entry nm] obtain s' where
    s': "task_create_named entry nm s = Some (int (task_count s), s')" "task_wf s'" "theap s' = h"
      "\<forall>i. task_used s' i \<longleftrightarrow> task_used s i \<or> i = task_count s"
      "\<forall>i. stack_of s' i = (if i = task_count s then p else stack_of s i)" by auto
  have "\<exists>L'. heap_owns lo hi h L' \<and> stacks_owned s' L'"
  proof (cases "p = 0")
    case True
    have "stacks_owned s' L"
    proof (rule stacks_ownedI)
      fix i assume i: "task_used s' i" "stack_of s' i \<noteq> 0"
      then show "\<exists>k \<ge> 16384. (stack_of s' i, k) \<in> L"
        using True s'(4,5) stacks_owned_live [OF L(2), of i] by (cases "i = task_count s") auto
    next
      fix i j assume ij: "task_used s' i" "task_used s' j" "stack_of s' i \<noteq> 0" "stack_of s' i = stack_of s' j"
      then show "i = j"
        using True s'(4,5) stacks_owned_inj [OF L(2), of i j]
        by (cases "i = task_count s"; cases "j = task_count s") auto
    qed
    with True p L(1) show ?thesis by auto
  next
    case False
    then obtain m where m: "16384 \<le> m" "p \<notin> fst ` L" "heap_owns lo hi h (insert (p, m) L)"
      using p by (auto simp: TASK_STACK_SIZE_def)
    have old: "stack_of s i \<noteq> p" if "task_used s i" for i
      using stacks_owned_live [OF L(2) that] m(2) False by force
    have "stacks_owned s' (insert (p, m) L)"
    proof (rule stacks_ownedI)
      fix i assume i: "task_used s' i" "stack_of s' i \<noteq> 0"
      show "\<exists>k \<ge> 16384. (stack_of s' i, k) \<in> insert (p, m) L"
        using i s'(4,5) m(1) stacks_owned_live [OF L(2), of i] by (cases "i = task_count s") auto
    next
      fix i j assume ij: "task_used s' i" "task_used s' j" "stack_of s' i \<noteq> 0" "stack_of s' i = stack_of s' j"
      then show "i = j"
        using s'(4,5) old [of i] old [of j] stacks_owned_inj [OF L(2), of i j]
        by (cases "i = task_count s"; cases "j = task_count s") auto
    qed
    with m(3) show ?thesis by blast
  qed
  with s' show ?thesis by (auto simp: task_inv_def)
qed

text \<open>Killing: which calls are refused, and what the others do.\<close>

lemma kill_refused:
  "tid \<le> 0 \<or> \<not> task_used s (nat tid) \<or> tid = current_task s \<Longrightarrow> task_kill tid s = Some (-1, s)"
  by (auto simp: task_kill_def task_used_def)

lemma kill_done:
  assumes "0 < tid" "task_used s (nat tid)" "tid \<noteq> current_task s" "kfree (stack_of s (nat tid)) (theap s) = Some h"
  shows "task_kill tid s = Some (0, s\<lparr>theap := h, tasks := (tasks s)[nat tid := (tasks s ! nat tid)\<lparr>tk_used := False\<rparr>]\<rparr>)"
  using assms by (auto simp: task_kill_def task_used_def stack_of_def nat_less_iff)

lemma kill_wf:
  assumes "task_wf s" "0 < tid" "task_used s (nat tid)" "tid \<noteq> current_task s"
    and "s' = s\<lparr>theap := h, tasks := (tasks s)[nat tid := (tasks s ! nat tid)\<lparr>tk_used := False\<rparr>]\<rparr>"
  shows "task_wf s'" "task_used s' i \<longleftrightarrow> task_used s i \<and> i \<noteq> nat tid" "stack_of s' i = stack_of s i"
proof -
  have len: "nat tid < length (tasks s)" using assms(1,3) by (auto simp: task_wf_def task_used_def)
  show u: "task_used s' i \<longleftrightarrow> task_used s i \<and> i \<noteq> nat tid" for i
    using len by (auto simp: task_used_def assms(5) nth_list_update)
  show "stack_of s' i = stack_of s i"
    using len by (simp add: stack_of_def assms(5) nth_list_update)
  show "task_wf s'"
    using assms(1-4) unfolding task_wf_def u by (auto simp: assms(5))
qed

lemma kill_inv:
  assumes "task_inv lo hi s"
  shows "\<exists>r s'. task_kill tid s = Some (r, s') \<and> task_inv lo hi s'"
proof (cases "tid \<le> 0 \<or> \<not> task_used s (nat tid) \<or> tid = current_task s")
  case True
  from kill_refused [OF this] assms show ?thesis by auto
next
  case False
  then have t: "0 < tid" "task_used s (nat tid)" "tid \<noteq> current_task s" by auto
  obtain L where wf: "task_wf s" and L: "heap_owns lo hi (theap s) L" "stacks_owned s L"
    using assms by (auto simp: task_inv_def)
  let ?b = "stack_of s (nat tid)"
  have "\<exists>h L'. kfree ?b (theap s) = Some h \<and> heap_owns lo hi h L' \<and> L' \<subseteq> L \<and> (\<forall>x \<in> L. fst x \<noteq> ?b \<longrightarrow> x \<in> L')"
  proof (cases "?b = 0")
    case True
    with L(1) show ?thesis by (auto simp: kfree_def)
  next
    case b: False
    then obtain m where "(?b, m) \<in> L" using L(2) t(2) unfolding stacks_owned_def by blast
    from hp.free_law [OF L(1) this] show ?thesis by (metis DiffI Diff_subset fst_conv singletonD)
  qed
  then obtain h L' where h: "kfree ?b (theap s) = Some h" "heap_owns lo hi h L'" "\<forall>x \<in> L. fst x \<noteq> ?b \<longrightarrow> x \<in> L'"
    by blast
  define s' where "s' = s\<lparr>theap := h, tasks := (tasks s)[nat tid := (tasks s ! nat tid)\<lparr>tk_used := False\<rparr>]\<rparr>"
  note k = kill_wf [OF wf t s'_def]
  have "stacks_owned s' L'"
  proof (rule stacks_ownedI; unfold k(2,3))
    fix i assume i: "task_used s i \<and> i \<noteq> nat tid" "stack_of s i \<noteq> 0"
    then have "stack_of s i \<noteq> ?b" using stacks_owned_inj [OF L(2), of i "nat tid"] t(2) by auto
    moreover obtain m where "16384 \<le> m" "(stack_of s i, m) \<in> L" using stacks_owned_live [OF L(2), of i] i by auto
    ultimately show "\<exists>m \<ge> 16384. (stack_of s i, m) \<in> L'" using h(3) by auto
  qed (use stacks_owned_inj [OF L(2)] in blast)
  then show ?thesis
    using kill_done [OF t h(1)] k(1) h(2) by (auto simp: task_inv_def s'_def)
qed

lemma reserve_inv:
  assumes "task_inv lo hi s"
  shows "\<exists>p h. kmalloc n (theap s) = Some (p, h) \<and> task_inv lo hi (s\<lparr>theap := h\<rparr>)"
proof -
  obtain L where wf: "task_wf s" and L: "heap_owns lo hi (theap s) L" "stacks_owned s L"
    using assms by (auto simp: task_inv_def)
  from hp.alloc_law [OF L(1), of n] obtain p h where
    k: "kmalloc n (theap s) = Some (p, h)" and
    p: "if p = 0 then h = theap s else \<exists>m. (n \<le> 0xFFFFFFFC \<longrightarrow> unat n \<le> m)
          \<and> p \<notin> fst ` L \<and> heap_owns lo hi h (insert (p, m) L)" by blast
  obtain L' where L': "heap_owns lo hi h L'" "L \<subseteq> L'" using p L(1) by (auto split: if_splits)
  have "stacks_owned (s\<lparr>theap := h\<rparr>) L'"
    by (rule stacks_owned_cong [OF stacks_owned_mono [OF L(2) L'(2)]]) (simp_all add: task_used_def stack_of_def)
  moreover have "task_wf (s\<lparr>theap := h\<rparr>)" using wf by (simp add: task_wf_def task_used_def)
  ultimately show ?thesis using k L'(1) by (auto simp: task_inv_def)
qed

lemma task_step_inv: "task_inv lo hi s \<Longrightarrow> \<exists>s'. task_step e s = Some s' \<and> task_inv lo hi s'"
  using tick_inv [of lo hi s] create_inv [of lo hi s] kill_inv [of lo hi s] reserve_inv [of lo hi s]
  by (cases e) (fastforce simp: task_step_def)+

interpretation tsk: reactive task_step "task_inv lo hi" "\<lambda>_. True" for lo hi
  by unfold_locales (rule task_step_inv)

lemma task_run_inv: "task_inv lo hi s \<Longrightarrow> \<exists>s'. task_run es s = Some s' \<and> task_inv lo hi s'"
  unfolding task_run_def by (rule tsk.run_kept) (simp_all add: list_all_iff)

lemma stacks_apart:
  assumes "task_inv lo hi s" "task_used s i" "task_used s j" "i \<noteq> j" "stack_of s i \<noteq> 0" "stack_of s j \<noteq> 0"
  shows "unat (stack_of s i) + 16384 < unat (stack_of s j) \<or> unat (stack_of s j) + 16384 < unat (stack_of s i)"
proof -
  obtain L where L: "heap_owns lo hi (theap s) L" "stacks_owned s L" using assms(1) by (auto simp: task_inv_def)
  obtain m k where m: "(stack_of s i, m) \<in> L" "16384 \<le> m" and k: "(stack_of s j, k) \<in> L" "16384 \<le> k"
    using stacks_owned_live [OF L(2) assms(2,5)] stacks_owned_live [OF L(2) assms(3,6)] by blast
  have "stack_of s i \<noteq> stack_of s j" using stacks_owned_inj [OF L(2) assms(2,3,5)] assms(4) by blast
  then have "unat (stack_of s i) + m < unat (stack_of s j) \<or> unat (stack_of s j) + k < unat (stack_of s i)"
    using hp.inv_apart [OF L(1)] m(1) k(1) unfolding apart_def by blast
  then show ?thesis using m(2) k(2) by linarith
qed

section \<open>Properties\<close>

text \<open>The state after \<open>kmalloc_init\<close> and \<open>tasks_init\<close>.\<close>

definition boot_tasking :: "u32 \<Rightarrow> mmap_entry list \<Rightarrow> tasking \<Rightarrow> tasking" where
  "boot_tasking bss_end entries s = tasks_init (s\<lparr>theap := kmalloc_init bss_end entries (theap s)\<rparr>)"

lemma boot_tasking_inv:
  assumes "0 < bss_end" "bss_end \<le> 0x80000"
  shows "task_inv (unat bss_end) (unat (find_heap_end bss_end entries)) (boot_tasking bss_end entries s)"
proof -
  have "heap_owns (unat bss_end) (unat (find_heap_end bss_end entries)) (theap (boot_tasking bss_end entries s)) {}"
    using kmalloc_init_owns [OF assms] by (simp add: boot_tasking_def tasks_init_def)
  moreover have "stacks_owned (boot_tasking bss_end entries s) {}"
    by (simp add: stacks_owned_def task_used_def boot_tasking_def tasks_init_def)
  moreover have "task_wf (boot_tasking bss_end entries s)"
    unfolding boot_tasking_def by (rule tasks_init_wf)
  ultimately show ?thesis unfolding task_inv_def by blast
qed

text \<open>A creation gets a stack unless \<open>kmalloc\<close> answers NULL, which \<open>task_create_named\<close> does not test. Whether every
  creation in a run that is not refused gets one:\<close>

definition grants_stack :: "task_event \<Rightarrow> tasking \<Rightarrow> bool" where
  "grants_stack e s = (case e of
     Create entry nm \<Rightarrow> task_count s < MAX_TASKS \<longrightarrow> map_option fst (kmalloc TASK_STACK_SIZE (theap s)) \<noteq> Some 0
   | _ \<Rightarrow> True)"

fun stacks_granted :: "task_event list \<Rightarrow> tasking \<Rightarrow> bool" where
  "stacks_granted [] s \<longleftrightarrow> True"
| "stacks_granted (e # es) s \<longleftrightarrow> grants_stack e s \<and> (case task_step e s of None \<Rightarrow> True | Some s' \<Rightarrow> stacks_granted es s')"

definition all_stacked :: "tasking \<Rightarrow> bool" where
  "all_stacked s \<longleftrightarrow> (\<forall>i. task_used s i \<longrightarrow> stack_of s i \<noteq> 0)"

lemma step_all_stacked:
  assumes wf: "task_wf s" and a: "all_stacked s" and g: "grants_stack e s" and st: "task_step e s = Some s'"
  shows "all_stacked s'"
proof (cases e)
  case (Tick esp)
  with st obtain r where "schedule esp s = Some (r, s')" by (auto simp: task_step_def)
  from schedule_used(1,2) [OF wf this] a show ?thesis by (simp add: all_stacked_def stack_of_def)
next
  case (Create entry nm)
  show ?thesis
  proof (cases "task_count s < 8")
    case False
    with st Create a show ?thesis by (simp add: task_step_def task_create_named_def MAX_TASKS_def)
  next
    case True
    with st Create obtain p h where k: "kmalloc TASK_STACK_SIZE (theap s) = Some (p, h)"
      by (auto simp: task_step_def task_create_named_def MAX_TASKS_def split: Option.bind_splits)
    with g Create True have "p \<noteq> 0" by (simp add: grants_stack_def MAX_TASKS_def)
    moreover from create_entry [OF wf True k, of entry nm] st Create have
      "\<forall>i. task_used s' i \<longleftrightarrow> task_used s i \<or> i = task_count s" "\<forall>i. stack_of s' i = (if i = task_count s then p else stack_of s i)"
      by (auto simp: task_step_def)
    ultimately show ?thesis using a by (simp add: all_stacked_def)
  qed
next
  case (Kill tid)
  show ?thesis
  proof (cases "tid \<le> 0 \<or> \<not> task_used s (nat tid) \<or> tid = current_task s")
    case True
    from kill_refused [OF this] st Kill a show ?thesis by (simp add: task_step_def)
  next
    case False
    then have t: "0 < tid" "task_used s (nat tid)" "tid \<noteq> current_task s" by auto
    with st Kill obtain h where h: "kfree (stack_of s (nat tid)) (theap s) = Some h"
      by (auto simp: task_step_def task_kill_def stack_of_def task_used_def nat_less_iff split: if_splits Option.bind_splits)
    from kill_wf(2,3) [OF wf t refl, of h] kill_done [OF t h] st Kill a show ?thesis by (simp add: all_stacked_def task_step_def)
  qed
next
  case (Reserve n)
  with st a show ?thesis by (auto simp: task_step_def all_stacked_def task_used_def stack_of_def)
qed

lemma run_all_stacked:
  "task_inv lo hi s \<Longrightarrow> all_stacked s \<Longrightarrow> stacks_granted es s \<Longrightarrow> task_run es s = Some s' \<Longrightarrow> all_stacked s'"
proof (induction es arbitrary: s)
  case (Cons e es)
  obtain s1 where s1: "task_step e s = Some s1" "task_inv lo hi s1" using task_step_inv [OF Cons.prems(1)] by blast
  have "all_stacked s1" by (rule step_all_stacked [OF _ Cons.prems(2) _ s1(1)]) (use Cons.prems in \<open>simp_all add: task_inv_def\<close>)
  with Cons.IH [OF s1(2)] Cons.prems s1(1) show ?case by simp
qed simp

lemma stack_in_heap:
  assumes "task_inv lo hi s" "task_used s i" "stack_of s i \<noteq> 0"
  shows "lo + 12 \<le> unat (stack_of s i) \<and> unat (stack_of s i) + 16384 \<le> hi"
proof -
  obtain L where L: "heap_owns lo hi (theap s) L" "stacks_owned s L" using assms(1) by (auto simp: task_inv_def)
  obtain m where "16384 \<le> m" "(stack_of s i, m) \<in> L" using stacks_owned_live [OF L(2) assms(2,3)] by blast
  with region_in_heap [OF L(1) this(2)] show ?thesis by simp
qed

text \<open>C7. From boot on, every sequence of timer ticks, task creations, kills and other allocations completes
  (the scheduler's search and the heap's loops always end) and leaves a well-formed task table. The 16 KiB stack of
  every live task lies in the heap and the stacks of any two of them do not overlap - of those that have one: a task
  whose creation found the heap exhausted has the stack base NULL, since the code does not test what \<open>kmalloc\<close> answers
  (\<open>task_create_null_stack\<close>). In a run in which no creation finds the heap exhausted, every live task has its stack.\<close>

theorem task_stacks_disjoint:
  assumes "0 < bss_end" "bss_end \<le> 0x80000"
  shows "\<exists>s'. task_run es (boot_tasking bss_end entries s) = Some s' \<and> task_wf s'
    \<and> (\<forall>i. task_used s' i \<longrightarrow> stack_of s' i \<noteq> 0 \<longrightarrow>
         unat bss_end + 12 \<le> unat (stack_of s' i) \<and> unat (stack_of s' i) + 16384 \<le> unat (find_heap_end bss_end entries))
    \<and> (\<forall>i j. task_used s' i \<longrightarrow> task_used s' j \<longrightarrow> i \<noteq> j \<longrightarrow> stack_of s' i \<noteq> 0 \<longrightarrow> stack_of s' j \<noteq> 0 \<longrightarrow>
         unat (stack_of s' i) + 16384 < unat (stack_of s' j) \<or> unat (stack_of s' j) + 16384 < unat (stack_of s' i))
    \<and> (stacks_granted es (boot_tasking bss_end entries s) \<longrightarrow> (\<forall>i. task_used s' i \<longrightarrow> stack_of s' i \<noteq> 0))"
proof -
  let ?s = "boot_tasking bss_end entries s"
  note inv = boot_tasking_inv [OF assms, of entries s]
  from task_run_inv [OF inv, of es] obtain s' where
    s': "task_run es ?s = Some s'" "task_inv (unat bss_end) (unat (find_heap_end bss_end entries)) s'" by blast
  have "all_stacked ?s" by (simp add: all_stacked_def task_used_def boot_tasking_def tasks_init_def)
  from run_all_stacked [OF inv this _ s'(1)] have "stacks_granted es ?s \<longrightarrow> (\<forall>i. task_used s' i \<longrightarrow> stack_of s' i \<noteq> 0)"
    by (simp add: all_stacked_def)
  moreover have "task_wf s'" using s'(2) by (simp add: task_inv_def)
  ultimately show ?thesis using s'(1) stacks_apart [OF s'(2)] stack_in_heap [OF s'(2)] by blast
qed

text \<open>C34. \<open>task_kill\<close> refuses exactly the ids that are not those of a live task, the kernel task and the running
  task, and then changes nothing; otherwise it hands the task's stack back to the heap and clears its slot only.\<close>

theorem task_kill_effect:
  assumes "task_inv lo hi s"
  shows "if 0 < tid \<and> task_used s (nat tid) \<and> tid \<noteq> current_task s
    then \<exists>h s'. kfree (stack_of s (nat tid)) (theap s) = Some h \<and> task_kill tid s = Some (0, s') \<and> theap s' = h
      \<and> task_inv lo hi s' \<and> (\<forall>i. task_used s' i \<longleftrightarrow> task_used s i \<and> i \<noteq> nat tid)
      \<and> (\<forall>i. stack_of s' i = stack_of s i) \<and> current_task s' = current_task s
    else task_kill tid s = Some (-1, s)"
proof (cases "0 < tid \<and> task_used s (nat tid) \<and> tid \<noteq> current_task s")
  case True
  then have t: "0 < tid" "task_used s (nat tid)" "tid \<noteq> current_task s" by auto
  obtain r s1 where s1: "task_kill tid s = Some (r, s1)" "task_inv lo hi s1" using kill_inv [OF assms] by blast
  have wf: "task_wf s" using assms by (simp add: task_inv_def)
  obtain h where h: "kfree (stack_of s (nat tid)) (theap s) = Some h"
    using s1(1) t by (auto simp: task_kill_def stack_of_def task_used_def nat_less_iff split: if_splits Option.bind_splits)
  note k = kill_done [OF t h]
  show ?thesis
    using True h k s1 kill_wf(2,3) [OF wf t refl, of h] by simp
next
  case False
  then show ?thesis using kill_refused [of tid s] by (auto simp: not_less)
qed

theorem task_kill_effect_witness:
  "task_kill 2 (boot_tasking 0x12000 [] three_tasks) = Some (-1, boot_tasking 0x12000 [] three_tasks)"
proof -
  have "(0 :: u32) < 0x12000" "(0x12000 :: u32) \<le> 0x80000" by simp_all
  from task_kill_effect [OF boot_tasking_inv [OF this], of 2 "[]" three_tasks] show ?thesis
    by (simp add: task_used_def boot_tasking_def tasks_init_def)
qed

text \<open>What \<open>task_switch\<close> of \<open>interrupts.asm\<close> does after it has loaded a saved stack pointer: it pops
  \<open>edi\<close>, \<open>esi\<close>, \<open>ebx\<close>, \<open>ebp\<close> and the return address.\<close>

definition task_resume :: "(u32 \<Rightarrow> u32) \<Rightarrow> u32 \<Rightarrow> u32 list \<times> u32 \<times> u32" where
  "task_resume m esp = (map m [esp, esp + 4, esp + 8, esp + 12], m (esp + 16), esp + 20)"

text \<open>C35. When \<open>kmalloc\<close> has 16 KiB to give, a new task starts right: its slot is the next one, its name is cut to 15
  characters, its stack is the region that \<open>kmalloc\<close> gave, which lies in the heap and apart from the stack of every other
  live task; building the initial stack writes into that region only; and the first switch to the task pops four zero
  registers, enters its entry point and leaves the stack pointer at the very end of the region. (When \<open>kmalloc\<close> answers
  NULL the task is created all the same, on low memory: \<open>task_create_null_stack\<close>.)\<close>

theorem task_first_run:
  assumes "task_inv lo hi s" "task_count s < 8" "kmalloc TASK_STACK_SIZE (theap s) = Some (p, h)" "p \<noteq> 0"
  shows "\<exists>s'. task_create_named entry nm s = Some (int (task_count s), s') \<and> task_inv lo hi s' \<and> task_used s' (task_count s)
    \<and> tk_name (tasks s' ! task_count s) = take 15 nm
    \<and> stack_of s' (task_count s) = p \<and> lo + 12 \<le> unat p \<and> unat p + 16384 \<le> hi
    \<and> (\<forall>j. task_used s j \<longrightarrow> stack_of s' j = stack_of s j \<and>
         (stack_of s j \<noteq> 0 \<longrightarrow> unat p + 16384 < unat (stack_of s j) \<or> unat (stack_of s j) + 16384 < unat p))
    \<and> (\<forall>a. unat a < unat p \<or> unat p + 16384 \<le> unat a \<longrightarrow> mem s' a = mem s a)
    \<and> task_resume (mem s') (tk_esp (tasks s' ! task_count s)) = ([0, 0, 0, 0], entry, p + 16384)"
proof -
  let ?n = "task_count s"
  have wf: "task_wf s" using assms(1) by (simp add: task_inv_def)
  from create_entry [OF wf assms(2,3), of entry nm] obtain s' where
    s': "task_create_named entry nm s = Some (int ?n, s')" "\<forall>i. task_used s' i \<longleftrightarrow> task_used s i \<or> i = ?n"
      "\<forall>i. stack_of s' i = (if i = ?n then p else stack_of s i)"
      "tasks s' ! ?n = \<lparr>tk_esp = p + 16364, tk_used = True, tk_name = take 15 nm, tk_stack_base = p\<rparr>"
      "mem s' = (mem s)(p + 16380 := entry, p + 16376 := 0, p + 16372 := 0, p + 16368 := 0, p + 16364 := 0)" by blast
  have inv: "task_inv lo hi s'" using create_inv [OF assms(1), of entry nm] s'(1) by auto
  have here: "lo + 12 \<le> unat p" "unat p + 16384 \<le> hi" using stack_in_heap [OF inv, of ?n] s'(2,3) assms(4) by simp_all
  have "hi < 2147483648" using inv by (auto simp: task_inv_def heap_owns_def heap_rep_def)
  then have u: "unat (p + 16380) = unat p + 16380" "unat (p + 16376) = unat p + 16376" "unat (p + 16372) = unat p + 16372"
    "unat (p + 16368) = unat p + 16368" "unat (p + 16364) = unat p + 16364" using here by (simp_all add: unat_word_ariths)
  have frame: "mem s' a = mem s a" if "unat a < unat p \<or> unat p + 16384 \<le> unat a" for a using that u by (auto simp: s'(5))
  have old: "j \<noteq> ?n" if "task_used s j" for j using that by (simp add: task_used_def)
  have "unat p + 16384 < unat (stack_of s j) \<or> unat (stack_of s j) + 16384 < unat p" if "task_used s j" "stack_of s j \<noteq> 0" for j
    using stacks_apart [OF inv, of ?n j] that old [OF that(1)] s'(2,3) assms(4) by simp
  with s' inv here frame old show ?thesis by (intro exI [of _ s']) (simp add: task_resume_def add.assoc)
qed

text \<open>Slots are handed out in order and never again: \<open>task_count\<close> only grows.\<close>

lemma task_step_count: "task_wf s \<Longrightarrow> task_step e s = Some s' \<Longrightarrow> task_count s \<le> task_count s'"
proof -
  assume wf: "task_wf s" and st: "task_step e s = Some s'"
  show ?thesis
  proof (cases e)
    case (Tick esp)
    with st obtain r where "schedule esp s = Some (r, s')" by (auto simp: task_step_def)
    from schedule_used(3) [OF wf this] show ?thesis by simp
  next
    case (Create entry nm)
    with st show ?thesis
      by (auto simp: task_step_def task_create_named_def Let_def split: if_splits Option.bind_splits prod.splits)
  next
    case (Kill i)
    with st show ?thesis
      by (auto simp: task_step_def task_kill_def split: if_splits Option.bind_splits)
  next
    case (Reserve n)
    with st show ?thesis by (auto simp: task_step_def)
  qed
qed

lemma task_run_count: "task_inv lo hi s \<Longrightarrow> task_run es s = Some s' \<Longrightarrow> task_count s \<le> task_count s'"
  unfolding task_run_def
  by (rule tsk.run_mono [where measure = task_count]) (auto simp: task_inv_def list_all_iff intro: task_step_count)

text \<open>C40. The slots of killed tasks are not used again: once eight tasks have been created, whatever is killed
  afterwards, every further creation fails.\<close>

theorem task_slots_never_reused:
  assumes "task_inv lo hi s" "task_count s = 8" "task_run es s = Some s'"
  shows "task_create_named entry nm s' = Some (-1, s')"
  using task_run_count [OF assms(1,3)] assms(2) by (simp add: task_create_named_def MAX_TASKS_def)

text \<open>Creation does not notice that the heap is exhausted: it still succeeds, with a task whose stack base is
  NULL, whose saved stack pointer is \<open>0x3FEC\<close>, and whose initial stack overwrites low memory.\<close>

theorem task_create_null_stack:
  assumes "task_inv lo hi s" "task_count s < 8" "kmalloc TASK_STACK_SIZE (theap s) = Some (0, h)"
  shows "\<exists>s'. task_create_named entry nm s = Some (int (task_count s), s') \<and> task_used s' (task_count s)
    \<and> stack_of s' (task_count s) = 0 \<and> tk_esp (tasks s' ! task_count s) = 0x3FEC
    \<and> mem s' = (mem s)(0x3FFC := entry, 0x3FF8 := 0, 0x3FF4 := 0, 0x3FF0 := 0, 0x3FEC := 0)"
proof -
  have wf: "task_wf s" using assms(1) by (simp add: task_inv_def)
  from create_entry [OF wf assms(2,3), of entry nm] show ?thesis by auto
qed

section \<open>Witnesses on the boot state\<close>

definition boot_tasks :: tasking where
  "boot_tasks = boot_tasking 0x12000 [] three_tasks"

lemma boot_tasks_inv: "task_inv 0x12000 0x22000 boot_tasks"
  using boot_tasking_inv [of "0x12000" "[]" three_tasks] by (simp add: boot_tasks_def find_heap_end_boot)

lemma boot_tasks_heap: "heap_rep 0x12000 0x22000 (theap boot_tasks) [(0x12000, 0xFFF4, True)]"
  using kmalloc_init_rep [of "0x12000" "[]" boot_heap]
  by (simp add: boot_tasks_def boot_tasking_def tasks_init_def three_tasks_def find_heap_end_boot)

lemma boot_tasks_count: "task_count boot_tasks = 0"
  by (simp add: boot_tasks_def boot_tasking_def tasks_init_def)

lemma boot_tasks_stack: "\<exists>h. kmalloc TASK_STACK_SIZE (theap boot_tasks) = Some (0x1200C, h)"
  using kmalloc_refines [OF boot_tasks_heap, of TASK_STACK_SIZE] by (auto simp: unat_align4 TASK_STACK_SIZE_def HDR_def)

theorem task_stacks_disjoint_witness:
  "\<exists>s'. task_run [Create 0x1000 ''kernel'', Tick 7] (boot_tasking 0x12000 [] three_tasks) = Some s' \<and> task_wf s'
    \<and> (\<forall>i. task_used s' i \<longrightarrow> stack_of s' i \<noteq> 0)"
proof -
  have b: "(0 :: u32) < 0x12000" "(0x12000 :: u32) \<le> 0x80000" by simp_all
  obtain h where "kmalloc TASK_STACK_SIZE (theap boot_tasks) = Some (0x1200C, h)" using boot_tasks_stack by blast
  then have "stacks_granted [Create 0x1000 ''kernel'', Tick 7] (boot_tasking 0x12000 [] three_tasks)"
    by (simp add: grants_stack_def boot_tasks_def split: option.split)
  with task_stacks_disjoint [OF b, of "[Create 0x1000 ''kernel'', Tick 7]" "[]" three_tasks] show ?thesis by blast
qed

theorem task_first_run_witness:
  "\<exists>s'. task_create_named 0x1000 ''shell'' boot_tasks = Some (0, s') \<and> task_used s' 0 \<and> stack_of s' 0 = 0x1200C
    \<and> task_resume (mem s') (tk_esp (tasks s' ! 0)) = ([0, 0, 0, 0], 0x1000, 0x1600C)"
proof -
  obtain h where "kmalloc TASK_STACK_SIZE (theap boot_tasks) = Some (0x1200C, h)" using boot_tasks_stack by blast
  from task_first_run [OF boot_tasks_inv _ this, of "0x1000" "''shell''"] show ?thesis
    by (auto simp: boot_tasks_count)
qed

lemma task_run_append: "task_run (es @ fs) s = (case task_run es s of None \<Rightarrow> None | Some s' \<Rightarrow> task_run fs s')"
  unfolding task_run_def by (rule run_steps_append)

lemma boot_creates:
  "n \<le> 8 \<Longrightarrow> \<exists>s. task_run (replicate n (Create 0x1000 ''t'')) boot_tasks = Some s \<and> task_inv 0x12000 0x22000 s \<and> task_count s = n"
proof (induction n)
  case 0
  then show ?case by (simp add: boot_tasks_inv boot_tasks_count)
next
  case (Suc n)
  then obtain s where s: "task_run (replicate n (Create 0x1000 ''t'')) boot_tasks = Some s"
    "task_inv 0x12000 0x22000 s" "task_count s = n" by auto
  obtain r s' where s': "task_create_named 0x1000 ''t'' s = Some (r, s')" "task_inv 0x12000 0x22000 s'"
    using create_inv [OF s(2)] by blast
  have "task_count s' = Suc n"
    using s'(1) s(3) Suc.prems
    by (auto simp: task_create_named_def MAX_TASKS_def Let_def split: if_splits Option.bind_splits prod.splits)
  moreover have "task_run (replicate (Suc n) (Create 0x1000 ''t'')) boot_tasks = Some s'"
    using s(1) s'(1) task_run_append [of "replicate n (Create 0x1000 ''t'')" "[Create 0x1000 ''t'']" boot_tasks]
    by (simp add: replicate_append_same task_step_def)
  ultimately show ?case using s'(2) by blast
qed

theorem task_slots_never_reused_witness:
  "\<exists>s s'. task_run (replicate 8 (Create 0x1000 ''t'')) boot_tasks = Some s \<and> task_run [Tick 7, Kill 1, Kill 2] s = Some s'
    \<and> task_create_named 0x1000 ''t'' s' = Some (-1, s')"
proof -
  obtain s where s: "task_run (replicate 8 (Create 0x1000 ''t'')) boot_tasks = Some s"
    "task_inv 0x12000 0x22000 s" "task_count s = 8" using boot_creates [of 8] by auto
  obtain s' where s': "task_run [Tick 7, Kill 1, Kill 2] s = Some s'" using task_run_inv [OF s(2)] by blast
  show ?thesis
    by (intro exI conjI, rule s(1), rule s', rule task_slots_never_reused [OF s(2,3) s'])
qed

theorem task_create_null_stack_witness:
  "\<exists>s s'. task_run [Reserve 0xFFF0] boot_tasks = Some s \<and> task_create_named 0x1000 ''t'' s = Some (0, s')
    \<and> task_used s' 0 \<and> stack_of s' 0 = 0"
proof -
  obtain h where h: "kmalloc 0xFFF0 (theap boot_tasks) = Some (0x1200C, h)"
    "heap_rep 0x12000 0x22000 h [(0x12000, 0xFFF4, False)]"
    using kmalloc_refines [OF boot_tasks_heap, of "0xFFF0"] by (auto simp: unat_align4 HDR_def)
  let ?s = "boot_tasks\<lparr>theap := h\<rparr>"
  have run: "task_run [Reserve 0xFFF0] boot_tasks = Some ?s" using h(1) by (simp add: task_step_def)
  have inv: "task_inv 0x12000 0x22000 ?s" using task_run_inv [OF boot_tasks_inv, of "[Reserve 0xFFF0]"] run by simp
  have none: "kmalloc TASK_STACK_SIZE (theap ?s) = Some (0, h)"
    using kmalloc_refines [OF h(2), of TASK_STACK_SIZE] by (auto simp: unat_align4 TASK_STACK_SIZE_def)
  show ?thesis
    using run task_create_null_stack [OF inv _ none, of "0x1000" "''t''"] by (auto simp: boot_tasks_count)
qed

end
