(* ===== verification/Machine.thy ===== *)
theory Machine
  imports Task
begin

text \<open>
  The timer (\<open>kernel/timer.c\<close>), the interrupt descriptor table (\<open>kernel/idt.c\<close>) and the interrupt
  controller (\<open>kernel/pic.c\<close>). Port writes are the list of what \<open>outb\<close> is called with.
\<close>

section \<open>The timer\<close>

record timer =
  ticks :: u32
  tick_frequency :: u32

definition timer_initial :: timer where
  "timer_initial = \<lparr>ticks = 0, tick_frequency = 100\<rparr>"

definition PIT_CHANNEL0 :: u16 where "PIT_CHANNEL0 = 0x40"
definition PIT_COMMAND :: u16 where "PIT_COMMAND = 0x43"
definition PIT_BASE_FREQ :: u32 where "PIT_BASE_FREQ = 1193182"

text \<open>\<open>None\<close>: the division faults.\<close>

definition timer_init :: "u32 \<Rightarrow> timer \<Rightarrow> (timer \<times> port_out) option" where
  "timer_init frequency_hz t =
     (let t = t\<lparr>tick_frequency := frequency_hz\<rparr> in
      if frequency_hz = 0 then None
      else (let divisor = ucast (PIT_BASE_FREQ div frequency_hz) :: u16
            in Some (t, [(PIT_COMMAND, 0x36), (PIT_CHANNEL0, ucast (divisor AND 0xFF)),
                         (PIT_CHANNEL0, ucast (drop_bit 8 divisor AND 0xFF))])))"

text \<open>The interrupt handler: the tick is counted, the controller acknowledged, then the scheduler
  runs.\<close>

definition timer_handler :: "u32 \<Rightarrow> timer \<Rightarrow> tasking \<Rightarrow> (timer \<times> port_out \<times> u32 option \<times> tasking) option" where
  "timer_handler esp t s =
     (let t = t\<lparr>ticks := ticks t + 1\<rparr> in
      case schedule esp s of None \<Rightarrow> None | Some (switched, s') \<Rightarrow> Some (t, EOI, switched, s'))"

definition timer_get_ticks :: "timer \<Rightarrow> u32" where
  "timer_get_ticks t = ticks t"

definition timer_get_seconds :: "timer \<Rightarrow> u32" where
  "timer_get_seconds t = ticks t div tick_frequency t"

text \<open>The divisor that the interrupt timer ends up with, from the two bytes written to channel 0.\<close>

definition pit_divisor :: "port_out \<Rightarrow> u16" where
  "pit_divisor out =
     (case filter (\<lambda>(p, v). p = PIT_CHANNEL0) out of
        [(p1, lo), (p2, hi)] \<Rightarrow> le16 lo hi | _ \<Rightarrow> 0)"

lemma pit_divisor_init:
  assumes "timer_init f t = Some (t', out)"
  shows "pit_divisor out = ucast (PIT_BASE_FREQ div f)"
proof -
  let ?d = "ucast (PIT_BASE_FREQ div f) :: u16"
  have "le16 (ucast (?d AND 0xFF)) (ucast (drop_bit 8 ?d AND 0xFF)) = ?d"
    using le16_lo8_hi8 [of ?d] by (simp add: lo8_def hi8_def)
  then show ?thesis
    using assms by (auto simp: timer_init_def Let_def pit_divisor_def PIT_CHANNEL0_def PIT_COMMAND_def split: if_splits)
qed

text \<open>From 19 Hz on the programmed divisor is exactly the quotient of the base frequency, so the real rate is the
  requested one rounded up to the next the timer can do; below 19 Hz the quotient does not fit 16 bits and a
  different, smaller divisor is programmed. A frequency of 0 faults.\<close>

theorem timer_divisor:
  "if f = 0 then timer_init f t = None else (\<exists>t' out. timer_init f t = Some (t', out) \<and> tick_frequency t' = f \<and>
     (if 19 \<le> unat f
      then unat (pit_divisor out) * unat f \<le> 1193182 \<and> 1193182 < Suc (unat (pit_divisor out)) * unat f
      else unat (pit_divisor out) < 1193182 div unat f))"
proof (cases "f = 0")
  case True
  then show ?thesis by (simp add: timer_init_def Let_def)
next
  case False
  then obtain t' out where t': "timer_init f t = Some (t', out)" "tick_frequency t' = f"
    by (auto simp: timer_init_def Let_def)
  have f: "0 < unat f" using False by (simp add: unat_gt_0)
  have d: "unat (pit_divisor out) = (1193182 div unat f) mod 65536"
    by (simp add: pit_divisor_init [OF t'(1)] PIT_BASE_FREQ_def unsigned_ucast_eq take_bit_eq_mod unat_div)
  have "unat (pit_divisor out) * unat f \<le> 1193182 \<and> 1193182 < Suc (unat (pit_divisor out)) * unat f" if "19 \<le> unat f"
  proof -
    have "1193182 div unat f \<le> 1193182 div 19" by (rule div_le_mono2) (use that in simp_all)
    then have "unat (pit_divisor out) = 1193182 div unat f" unfolding d by simp
    then show ?thesis using f dividend_less_div_times [of "unat f" 1193182] by (simp add: div_times_less_eq_dividend)
  qed
  moreover have "unat (pit_divisor out) < 1193182 div unat f" if "unat f \<le> 18"
  proof -
    have "1193182 div 18 \<le> 1193182 div unat f" by (rule div_le_mono2) (use that f in simp_all)
    moreover have "unat (pit_divisor out) < 65536" unfolding d by simp
    ultimately show ?thesis by linarith
  qed
  ultimately have "timer_init f t = Some (t', out) \<and> tick_frequency t' = f \<and>
     (if 19 \<le> unat f
      then unat (pit_divisor out) * unat f \<le> 1193182 \<and> 1193182 < Suc (unat (pit_divisor out)) * unat f
      else unat (pit_divisor out) < 1193182 div unat f)" using t' by (simp add: not_le)
  with False show ?thesis by (simp only: if_False) blast
qed

text \<open>Ticks and the seconds reported from them.\<close>

fun timer_run :: "u32 list \<Rightarrow> timer \<Rightarrow> tasking \<Rightarrow> (timer \<times> tasking) option" where
  "timer_run [] t s = Some (t, s)"
| "timer_run (esp # esps) t s =
     (case timer_handler esp t s of None \<Rightarrow> None | Some (t', out, sw, s') \<Rightarrow> timer_run esps t' s')"

lemma timer_handler_total:
  assumes "task_inv lo hi s"
  shows "\<exists>sw s'. timer_handler esp t s = Some (t\<lparr>ticks := ticks t + 1\<rparr>, EOI, sw, s') \<and> task_inv lo hi s'"
  using tick_inv [OF assms, of esp] by (auto simp: timer_handler_def Let_def)

lemma timer_run_ticks:
  "task_inv lo hi s \<Longrightarrow> \<exists>s'. timer_run esps t s = Some (t\<lparr>ticks := ticks t + of_nat (length esps)\<rparr>, s') \<and> task_inv lo hi s'"
proof (induction esps arbitrary: t s)
  case Nil
  then show ?case by simp
next
  case (Cons esp esps)
  from timer_handler_total [OF Cons.prems, of esp t] obtain sw s1 where
    s1: "timer_handler esp t s = Some (t\<lparr>ticks := ticks t + 1\<rparr>, EOI, sw, s1)" "task_inv lo hi s1" by blast
  from Cons.IH [OF s1(2), of "t\<lparr>ticks := ticks t + 1\<rparr>"] s1(1) show ?case by (simp add: add.assoc)
qed

text \<open>Every run of timer interrupts completes, counts each tick once (modulo \<open>2^32\<close>), and the reported uptime
  is the number of ticks divided by the configured frequency.\<close>

theorem uptime_counts_ticks:
  assumes "task_inv lo hi s" "tick_frequency t \<noteq> 0" "unat (ticks t) + length esps < 4294967296"
  shows "\<exists>t' s'. timer_run esps t s = Some (t', s') \<and> unat (timer_get_ticks t') = unat (ticks t) + length esps
    \<and> unat (timer_get_seconds t') = (unat (ticks t) + length esps) div unat (tick_frequency t)"
proof -
  obtain s' where "timer_run esps t s = Some (t\<lparr>ticks := ticks t + of_nat (length esps)\<rparr>, s')"
    using timer_run_ticks [OF assms(1)] by blast
  moreover have "unat (ticks t + of_nat (length esps)) = unat (ticks t) + length esps"
    using assms(3) by (simp add: unat_word_ariths unat_of_nat)
  ultimately show ?thesis by (simp add: timer_get_ticks_def timer_get_seconds_def unat_div)
qed

theorem uptime_counts_ticks_witness:
  "\<exists>t' s'. timer_run (replicate 250 7) timer_initial boot_tasks = Some (t', s') \<and> unat (timer_get_seconds t') = 2"
  using uptime_counts_ticks [OF boot_tasks_inv, of timer_initial "replicate 250 7"] by (auto simp: timer_initial_def)

section \<open>The interrupt descriptor table\<close>

record idt_entry =
  base_low :: u16
  selector :: u16
  always0 :: u8
  flags :: u8
  base_high :: u16

record idt_ptr =
  idtp_limit :: u16
  idtp_base :: u32

definition idt_set_gate :: "u8 \<Rightarrow> u32 \<Rightarrow> u8 \<Rightarrow> idt_entry list \<Rightarrow> idt_entry list" where
  "idt_set_gate num base present idt =
     idt[unat num := \<lparr>base_low = ucast (base AND 0xFFFF), selector = 0x08, always0 = 0,
        flags = ucast (push_bit 7 (ucast present :: u32) OR 0x8E), base_high = ucast (drop_bit 16 base AND 0xFFFF)\<rparr>]"

text \<open>The addresses of the table and of the two stubs are the linker's. The result is what \<open>lidt\<close>
  loads, and the table.\<close>

definition idt_init :: "u32 \<Rightarrow> u32 \<Rightarrow> u32 \<Rightarrow> idt_entry list \<Rightarrow> idt_ptr \<times> idt_entry list" where
  "idt_init idt_addr keyboard_stub timer_stub idt =
     (let idtp = \<lparr>idtp_limit = of_nat (8 * 256 - 1), idtp_base = idt_addr\<rparr>;
          idt = fold (\<lambda>i idt. idt_set_gate (of_nat i) 0 0 idt) [0..<256] idt;
          idt = idt_set_gate 33 keyboard_stub 1 idt;
          idt = idt_set_gate 32 timer_stub 1 idt
      in (idtp, idt))"

definition gate_base :: "idt_entry \<Rightarrow> u32" where
  "gate_base g = le32 (base_low g) (base_high g)"

section \<open>The interrupt controller\<close>

definition pic_remap :: port_out where
  "pic_remap =
     [(0x20, 0x11), (0xA0, 0x11),
      (0x21, 0x20), (0xA1, 0x28),
      (0x21, 0x04), (0xA1, 0x02),
      (0x21, 0x01), (0xA1, 0x01),
      (0x21, 0xFC), (0xA1, 0xFF)]"

text \<open>How the controller at a data port reads such a sequence: after the start of the initialisation
  its first data write is the vector base, its last the interrupt mask.\<close>

definition pic_vector_base :: "u16 \<Rightarrow> port_out \<Rightarrow> u8" where
  "pic_vector_base port out = snd (hd (filter (\<lambda>(p, v). p = port) out))"

definition pic_mask :: "u16 \<Rightarrow> port_out \<Rightarrow> u8" where
  "pic_mask port out = snd (last (filter (\<lambda>(p, v). p = port) out))"

section \<open>Interrupt wiring\<close>

definition gate :: "u32 \<Rightarrow> idt_entry" where
  "gate base = \<lparr>base_low = ucast (base AND 0xFFFF), selector = 0x08, always0 = 0, flags = 0x8E,
     base_high = ucast (drop_bit 16 base AND 0xFFFF)\<rparr>"

lemma idt_set_gate_eq: "present \<in> {0, 1} \<Longrightarrow> idt_set_gate num base present idt = idt[unat num := gate base]"
  by (auto simp: idt_set_gate_def gate_def)

lemma mask_65535: "(0xFFFF :: u32) = mask 16"
  by (simp add: mask_eq_exp_minus_1)

lemma gate_base_gate: "gate_base (gate base) = base"
  unfolding gate_def gate_base_def le32_def mask_65535
  by (rule bit_word_eqI) (auto simp: bit_simps)

lemma clear_gates:
  "n \<le> 256 \<Longrightarrow> length idt = 256 \<Longrightarrow>
   fold (\<lambda>i idt. idt[unat (of_nat i :: u8) := gate 0]) [0..<n] idt = map (\<lambda>i. if i < n then gate 0 else idt ! i) [0..<256]"
proof (induction n)
  case 0
  then show ?case using map_nth [of idt] by simp
next
  case (Suc n)
  then have "unat (of_nat n :: u8) = n" by (simp add: unat_of_nat)
  with Suc show ?case by (auto simp: nth_list_update intro!: nth_equalityI)
qed

lemma idt_init_eq:
  assumes "length idt = 256"
  shows "snd (idt_init a kb tm idt) = map (\<lambda>i. gate (if i = 32 then tm else if i = 33 then kb else 0)) [0..<256]"
  using assms by (auto simp: idt_init_def Let_def idt_set_gate_eq clear_gates nth_list_update intro!: nth_equalityI)

text \<open>The interrupt controller and the descriptor table agree: of the first controller's eight lines exactly
  the timer and the keyboard are unmasked, and the vectors that it raises for them are those whose gates lead to
  the timer's and the keyboard's handlers; no other gate leads anywhere.\<close>

theorem irq_wiring:
  assumes "length idt = 256"
  shows "(let idt' = snd (idt_init a kb tm idt); vec = unat (pic_vector_base 0x21 pic_remap); mask = pic_mask 0x21 pic_remap
    in idtp_limit (fst (idt_init a kb tm idt)) = 2047
      \<and> filter (\<lambda>i. \<not> bit mask i) [0..<8] = [0, 1]
      \<and> gate_base (idt' ! vec) = tm \<and> gate_base (idt' ! (vec + 1)) = kb
      \<and> map gate_base idt' = map (\<lambda>i. if i = vec then tm else if i = vec + 1 then kb else 0) [0..<256])"
proof -
  have m: "filter (\<lambda>i. \<not> bit (0xFC :: u8) i) [0..<8] = [0, 1]" by (simp add: upt_rec bit_numeral_rec)
  have l: "idtp_limit (fst (idt_init a kb tm idt)) = 2047" by (simp add: idt_init_def Let_def)
  have v: "unat (pic_vector_base 0x21 pic_remap) = 32" "pic_mask 0x21 pic_remap = 0xFC"
    by (simp_all add: pic_vector_base_def pic_mask_def pic_remap_def)
  show ?thesis unfolding Let_def l v m
    by (simp add: idt_init_eq [OF assms] gate_base_gate comp_def del: upt_rec_numeral cong: if_cong)
qed

theorem irq_wiring_witness:
  "map gate_base (snd (idt_init 0x5000 0x1234 0x10005678 (replicate 256 (gate 7))))
     = map (\<lambda>i. if i = 32 then 0x10005678 else if i = 33 then 0x1234 else 0) [0..<256]"
  using irq_wiring [of "replicate 256 (gate 7)" "0x5000" "0x1234" "0x10005678"]
  by (simp add: Let_def pic_vector_base_def pic_remap_def del: upt_rec_numeral)

text \<open>Every gate is marked present, the 254 without a handler too: the parameter \<open>present\<close> has no effect,
  because the constant \<open>0x8E\<close> that it is combined with has the present bit set.\<close>

theorem idt_all_gates_present:
  assumes "length idt = 256"
  shows "map flags (snd (idt_init a kb tm idt)) = replicate 256 0x8E \<and> bit (0x8E :: u8) 7"
proof -
  have "map flags (snd (idt_init a kb tm idt)) = map (\<lambda>i. 0x8E) [0..<256]"
    unfolding idt_init_eq [OF assms] by (simp add: gate_def comp_def del: upt_rec_numeral)
  also have "\<dots> = replicate 256 0x8E" by (simp only: map_replicate_const length_upt) simp
  finally show ?thesis by (simp add: bit_numeral_rec)
qed

theorem idt_all_gates_present_witness:
  "map flags (snd (idt_init 0x5000 0x1234 0x10005678 (replicate 256 (gate 7)))) = replicate 256 0x8E"
  using idt_all_gates_present [of "replicate 256 (gate 7)"] by simp

end
