(* ===== verification/Shell.thy ===== *)
theory Shell
  imports Fs Machine
begin

text \<open>
  The shell of \<open>kernel/shell.c\<close>: one function per command, the dispatch of \<open>run_command\<close>, the
  history and the line editor of \<open>shell_run\<close>, with the texts that the commands print. A command is
  a function from the system's state to the printed text and the new state, or it stops the shell for good.
\<close>

section \<open>State\<close>

definition LINE_BUF_SIZE :: nat where "LINE_BUF_SIZE = 258"
definition HISTORY_SIZE :: nat where "HISTORY_SIZE = 16"
definition FS_NAME_LEN :: nat where "FS_NAME_LEN = 64"

text \<open>The static variables of \<open>shell.c\<close>; \<open>spawn_count\<close> is an \<open>int\<close>, here its 32 bits.\<close>

record shell =
  history :: "string list"
  history_count :: nat
  spawn_count :: u32

definition shell_initial :: shell where
  "shell_initial = \<lparr>history = replicate HISTORY_SIZE [], history_count = 0, spawn_count = 0\<rparr>"

text \<open>What the commands work on: the file system, the timer, the tasks with their heap, the memory
  map, the address of \<open>counter_task\<close>, and the shell's own variables.\<close>

record sys =
  s_fs :: fs
  s_timer :: timer
  s_tasks :: tasking
  s_mmap :: "mmap_entry list"
  s_counter_task :: u32
  s_shell :: shell

text \<open>How a command can fail to come back to the prompt: a loop of it never ends, it overruns an array on its stack (after
  which C promises nothing), or it is \<open>reboot\<close>, which polls the keyboard controller until it can pulse the reset line, and
  never returns (\<open>reboot\<close> in \<open>Kernel\<close>).\<close>

datatype stop = Hangs | Overruns | Reboots

definition returning :: "'a option \<Rightarrow> stop + 'a" where
  "returning r = (case r of None \<Rightarrow> Inl Hangs | Some x \<Rightarrow> Inr x)"

lemma returning_simps [simp]: "returning (Some x) = Inr x" "returning None = Inl Hangs"
  by (simp_all add: returning_def)

definition system_version :: string where "system_version = ''RinkOS 0.034''"

definition NL :: string where "NL = [CHR 0x0A]"
definition APOS :: string where "APOS = [CHR 0x27]"

text \<open>\<open>if (*args == ' ') args++\<close>, and the loop that copies the first word, of at most
  \<open>FS_NAME_LEN - 1\<close> characters, with what follows it.\<close>

definition skip_space :: "string \<Rightarrow> string" where
  "skip_space args = (if args \<noteq> [] \<and> hd args = CHR '' '' then tl args else args)"

definition first_word :: "string \<Rightarrow> string \<times> string" where
  "first_word args =
     (let filename = take (FS_NAME_LEN - 1) (takeWhile (\<lambda>c. c \<noteq> CHR '' '') args)
      in (filename, drop (length filename) args))"

section \<open>File commands\<close>

definition cmd_ls :: "fs \<Rightarrow> string option" where
  "cmd_ls s = map_option (\<lambda>listing. ''Contents of '' @ fs_getcwd FS_NAME_LEN s @ '':'' @ NL @ listing) (fs_list s)"

definition cmd_pwd :: "fs \<Rightarrow> string" where
  "cmd_pwd s = fs_getcwd FS_NAME_LEN s @ NL"

definition cmd_rmdir :: "string \<Rightarrow> fs \<Rightarrow> (string \<times> fs) option" where
  "cmd_rmdir args s =
     (let args = skip_space args in
      if args = [] then Some (''usage: rmdir <path>'' @ NL, s)
      else do {
        (result, s) \<leftarrow> fs_rmdir args s;
        Some (if result < 0 then ''rmdir failed (not a directory, not empty, or in use)'' @ NL
              else ''Removed directory '' @ args @ NL, s)
      })"

definition cmd_df :: "fs \<Rightarrow> string" where
  "cmd_df s =
     (case fs_debug_stats s of (root_used, free_clusters, total_clusters) \<Rightarrow>
        ''Root entries used: '' @ uint_string (of_nat root_used) @ '' / 128'' @ NL @
        ''Free space: '' @ uint_string (of_nat free_clusters div 2) @ '' KB free of '' @
        uint_string (of_nat total_clusters div 2))"

definition cmd_mkdir :: "string \<Rightarrow> fs \<Rightarrow> (string \<times> fs) option" where
  "cmd_mkdir args s =
     (let args = skip_space args in
      if args = [] then Some (''usage: mkdir <path>'' @ NL, s)
      else do {
        (result, s) \<leftarrow> fs_mkdir args s;
        Some (if result < 0 then ''mkdir failed (already exists or path invalid)'' @ NL
              else ''Created directory '' @ args @ NL, s)
      })"

definition cmd_cd :: "string \<Rightarrow> fs \<Rightarrow> (string \<times> fs) option" where
  "cmd_cd args s =
     (let args = skip_space args in
      if args = [] then Some (''usage: cd <path>'' @ NL, s)
      else do {
        (result, s) \<leftarrow> fs_chdir args s;
        Some (if result < 0 then ''cd: no such directory: '' @ args @ NL else [], s)
      })"

definition cmd_write :: "string \<Rightarrow> fs \<Rightarrow> (string \<times> fs) option" where
  "cmd_write args s =
     (case first_word (skip_space args) of (filename, rest) \<Rightarrow>
        if filename = [] then Some (''usage: write <filename> <text>'' @ NL, s)
        else
          (let content = skip_space rest in do {
             (result, s) \<leftarrow> fs_write filename (map byte_of content) s;
             Some (if result < 0 then ''write failed (file table full?)'' @ NL
                   else ''Write '' @ uint_string (of_nat (length content)) @ '' bytes to '' @ filename @ NL, s)
           }))"

text \<open>\<open>kprint\<close> of the buffer stops at the first NUL byte.\<close>

definition cmd_cat :: "string \<Rightarrow> fs \<Rightarrow> string option" where
  "cmd_cat args s =
     (let args = skip_space args in
      if args = [] then Some (''usage: cat <filename>'' @ NL)
      else do {
        result \<leftarrow> fs_read args (4096 - 1) s;
        Some (case result of
            Inl err \<Rightarrow> args @ '': not found'' @ NL
          | Inr buf \<Rightarrow> cstr (map char_of_byte buf) @ NL)
      })"

definition cmd_mv :: "string \<Rightarrow> fs \<Rightarrow> (string \<times> fs) option" where
  "cmd_mv args s =
     (case first_word (skip_space args) of (old_name, rest) \<Rightarrow>
        let rest = skip_space rest in
        if old_name = [] \<or> rest = [] then Some (''usage: mv <old> <new>'' @ NL, s)
        else do {
          (result, s) \<leftarrow> fs_rename old_name rest s;
          Some (if result < 0 then ''mv failed (not found or target exists)'' @ NL
                else ''Renamed '' @ old_name @ '' to '' @ rest @ NL, s)
        })"

definition cmd_delete :: "string \<Rightarrow> fs \<Rightarrow> (string \<times> fs) option" where
  "cmd_delete args s =
     (let args = skip_space args in
      if args = [] then Some (''usage: delete <filename>'' @ NL, s)
      else do {
        (result, s) \<leftarrow> fs_delete args s;
        Some (if result < 0 then args @ '': not found'' @ NL else ''Deleted '' @ args @ NL, s)
      })"

definition cmd_append :: "string \<Rightarrow> fs \<Rightarrow> (string \<times> fs) option" where
  "cmd_append args s =
     (case first_word (skip_space args) of (filename, rest) \<Rightarrow>
        if filename = [] then Some (''usage: append <filename> <text>'' @ NL, s)
        else
          (let content = skip_space rest in do {
             (result, s) \<leftarrow> fs_append filename (map byte_of content) s;
             Some (if result < 0 then ''append failed (file too large or table full)'' @ NL
                   else ''Appended '' @ uint_string (of_nat (length content)) @ '' bytes to '' @ filename @ NL, s)
           }))"

definition cmd_stat :: "string \<Rightarrow> fs \<Rightarrow> string option" where
  "cmd_stat args s =
     (let args = skip_space args in
      if args = [] then Some (''usage: stat <filename>'' @ NL)
      else do {
        result \<leftarrow> fs_stat args s;
        Some (case result of
            Inl err \<Rightarrow> args @ '': not found'' @ NL
          | Inr sz \<Rightarrow> args @ '': '' @ uint_string sz @ '' bytes'' @ NL)
      })"

section \<open>System commands\<close>

definition cmd_uptime :: "timer \<Rightarrow> string" where
  "cmd_uptime t = ''Uptime: '' @ uint_string (timer_get_seconds t) @ '' second'' @ NL"

definition cmd_top :: "tasking \<Rightarrow> string" where
  "cmd_top s = ''Tasks:'' @ NL @ task_list s"

text \<open>One round of the endless loop of \<open>counter_task\<close> between two \<open>hlt\<close>s: the time of the last heartbeat, which
  starts as \<open>0xFFFFFFFF\<close>. The heartbeat itself is commented out in the source.\<close>

definition counter_round :: "u32 \<Rightarrow> u32 \<Rightarrow> u32" where
  "counter_round now last_beat =
     (let last_beat = (if last_beat = 0xFFFFFFFF then now else last_beat)
      in if now - last_beat \<ge> 5 then now else last_beat)"

text \<open>The digits in the order in which the loop of \<open>cmd_spawn\<close> produces them, the last first, when \<open>room\<close> elements of the
  array \<open>digits\<close> are left; \<open>None\<close>: the loop writes behind the end of the array.\<close>

fun spawn_digits :: "nat \<Rightarrow> int \<Rightarrow> string option" where
  "spawn_digits 0 n = (if n > 0 then None else Some [])"
| "spawn_digits (Suc room) n =
     (if n > 0 then map_option (\<lambda>digits. digit_char (nat (n mod 10)) # digits) (spawn_digits room (n div 10)) else Some [])"

text \<open>The task's name, from the eight digits that \<open>char digits[8]\<close> holds.\<close>

definition spawn_name :: "int \<Rightarrow> string option" where
  "spawn_name n =
     (let (zero, room) = (if n = 0 then (''0'', 7) else ([], 8))
      in map_option (\<lambda>digits. take 15 (''task'' @ rev (zero @ digits))) (spawn_digits room n))"

definition cmd_spawn :: "sys \<Rightarrow> stop + (string \<times> sys)" where
  "cmd_spawn s =
     (let s = s\<lparr>s_shell := (s_shell s)\<lparr>spawn_count := spawn_count (s_shell s) + 1\<rparr>\<rparr>
      in case spawn_name (sint (spawn_count (s_shell s))) of
           None \<Rightarrow> Inl Overruns
         | Some nm \<Rightarrow> returning (do {
             (tid, ts) \<leftarrow> task_create_named (s_counter_task s) nm (s_tasks s);
             Some (if tid < 0 then ''spawn failed: too many tasks (see '' @ APOS @ ''top'' @ APOS @ '')'' @ NL
                   else ''Spawned task '' @ APOS @ nm @ APOS @ '' (id '' @ uint_string (of_int tid) @ '') - see '' @ APOS @ ''top'' @ APOS @ NL,
                   s\<lparr>s_tasks := ts\<rparr>)
           }))"

text \<open>The digits are accumulated in a 32-bit \<open>int\<close>, which wraps in the compiled code.\<close>

definition is_digit :: "char \<Rightarrow> bool" where
  "is_digit c \<longleftrightarrow> of_char (CHR ''0'') \<le> (of_char c :: nat) \<and> (of_char c :: nat) \<le> of_char (CHR ''9'')"

definition parse_id :: "string \<Rightarrow> int" where
  "parse_id digits = sint (foldl (\<lambda>tid c. tid * 10 + of_nat (digit_value c)) (0 :: u32) digits)"

definition cmd_kill :: "string \<Rightarrow> tasking \<Rightarrow> (string \<times> tasking) option" where
  "cmd_kill args s =
     (let args = skip_space args; usage = ''usage: kill <id>  (see '' @ APOS @ ''top'' @ APOS @ '' for ids)'' @ NL in
      if args = [] then Some (usage, s)
      else
        (let digits = takeWhile is_digit args; tid = parse_id digits in
         if digits = [] then Some (usage, s)
         else do {
           (result, s) \<leftarrow> task_kill tid s;
           Some (if result < 0 then ''kill failed'' @ NL
                 else ''Killed task '' @ uint_string (of_int tid) @ NL, s)
         }))"

definition cmd_help :: string where
  "cmd_help =
     ''Available commands:'' @ NL @
     '' help             - show this list'' @ NL @
     '' clear            - clear the screen'' @ NL @
     '' echo             - print text back, e.g. echo hello'' @ NL @
     '' info             - OS and system information'' @ NL @
     '' meminfo          - show heap usage'' @ NL @
     '' reboot           - restart'' @ NL @
     '' uptime           - show system uptime in seconds'' @ NL @
     '' history          - show recent commands'' @ NL @
     '' top              - show running tasks'' @ NL @
     '' kill <id>        - stop a task (see '' @ APOS @ ''top'' @ APOS @ '' for ids)'' @ NL"

definition cmd_echo :: "string \<Rightarrow> string" where
  "cmd_echo args = skip_space args @ NL"

definition cmd_meminfo :: "heap \<Rightarrow> string option" where
  "cmd_meminfo h = map_option (\<lambda>(total, in_use, free_bytes).
     ''Heap total: '' @ uint_string total @ '' bytes'' @ NL @
     ''Heap used:  '' @ uint_string in_use @ '' bytes'' @ NL @
     ''Heap free:  '' @ uint_string free_bytes @ '' bytes'' @ NL) (kmalloc_stats h)"

definition mmap_dump :: "mmap_entry list \<Rightarrow> string" where
  "mmap_dump entries =
     ''Memory map entries: '' @ hex32_string (of_nat (length entries)) @ NL @
     concat (map (\<lambda>e. ''  base='' @ hex32_string (ucast (mm_base e)) @ '' len='' @ hex32_string (ucast (mm_length e)) @
       '' type='' @ hex32_string (mm_type e) @ NL) entries)"

definition debug :: "sys \<Rightarrow> string option" where
  "debug s = map_option (\<lambda>info.
     ''Debug info:'' @ NL @ system_version @ NL @ info @ ''Uptime: '' @ uint_string (timer_get_seconds (s_timer s)) @
     '' seconds'' @ NL @ mmap_dump (s_mmap s)) (cmd_meminfo (theap (s_tasks s)))"

definition cmd_info :: "sys \<Rightarrow> string option" where
  "cmd_info s = map_option (\<lambda>info.
     system_version @ NL @ ''Uptime: '' @ uint_string (timer_get_seconds (s_timer s)) @ '' seconds'' @ NL @ info)
     (cmd_meminfo (theap (s_tasks s)))"

section \<open>History\<close>

text \<open>\<open>str_copy_local\<close> has the body of \<open>str_copy_n\<close>.\<close>

definition history_add :: "string \<Rightarrow> shell \<Rightarrow> shell" where
  "history_add line sh =
     (if line = [] then sh
      else
        (let hist = fold (\<lambda>i h. h[i := str_copy_n (h ! (i + 1)) LINE_BUF_SIZE]) [0..<HISTORY_SIZE - 1] (history sh);
             hist = hist[HISTORY_SIZE - 1 := str_copy_n line LINE_BUF_SIZE]
         in sh\<lparr>history := hist,
               history_count := if history_count sh < HISTORY_SIZE then history_count sh + 1 else history_count sh\<rparr>))"

definition cmd_history :: "shell \<Rightarrow> string" where
  "cmd_history sh = concat (map (\<lambda>i. ''  '' @ history sh ! i @ NL) [HISTORY_SIZE - history_count sh..<HISTORY_SIZE])"

section \<open>Dispatch\<close>

datatype console_op = Print string | ClearScreen | EnableCursor

text \<open>The tests \<open>line[0] == 'e' && ... && (line[4] == ' ' || line[4] == 0)\<close>.\<close>

definition is_cmd :: "string \<Rightarrow> string \<Rightarrow> bool" where
  "is_cmd w line \<longleftrightarrow> take (length w) line = w \<and> (length line = length w \<or> line ! length w = CHR '' '')"

definition on_fs :: "sys \<Rightarrow> (string \<times> fs) option \<Rightarrow> stop + (console_op list \<times> sys)" where
  "on_fs s r = map_sum id (\<lambda>(out, f). ([Print out], s\<lparr>s_fs := f\<rparr>)) (returning r)"

definition says :: "sys \<Rightarrow> string option \<Rightarrow> stop + (console_op list \<times> sys)" where
  "says s r = map_sum id (\<lambda>out. ([Print out], s)) (returning r)"

text \<open>\<open>shutdown\<close> has an empty body and returns; \<open>reboot\<close> does not come back.\<close>

definition run_command :: "string \<Rightarrow> sys \<Rightarrow> stop + (console_op list \<times> sys)" where
  "run_command line s =
     (if line = [] then Inr ([], s)
      else
        (let s = s\<lparr>s_shell := history_add line (s_shell s)\<rparr>; f = s_fs s in
         if str_eq line ''help'' then says s (Some cmd_help)
         else if str_eq line ''clear'' then Inr ([ClearScreen, EnableCursor], s)
         else if is_cmd ''echo'' line then says s (Some (cmd_echo (drop 4 line)))
         else if str_eq line ''info'' then says s (cmd_info s)
         else if str_eq line ''meminfo'' then says s (cmd_meminfo (theap (s_tasks s)))
         else if str_eq line ''reboot'' then Inl Reboots
         else if str_eq line ''shutdown'' then Inr ([], s)
         else if str_eq line ''uptime'' then says s (Some (cmd_uptime (s_timer s)))
         else if str_eq line ''debug'' then says s (debug s)
         else if str_eq line ''ls'' then says s (cmd_ls f)
         else if is_cmd ''write'' line then on_fs s (cmd_write (drop 5 line) f)
         else if is_cmd ''cat'' line then says s (cmd_cat (drop 3 line) f)
         else if is_cmd ''delete'' line then on_fs s (cmd_delete (drop 6 line) f)
         else if is_cmd ''append'' line then on_fs s (cmd_append (drop 6 line) f)
         else if str_eq line ''top'' then says s (Some (cmd_top (s_tasks s)))
         else if str_eq line ''spawn'' then map_sum id (\<lambda>(out, s). ([Print out], s)) (cmd_spawn s)
         else if is_cmd ''kill'' line
           then map_sum id (\<lambda>(out, ts). ([Print out], s\<lparr>s_tasks := ts\<rparr>)) (returning (cmd_kill (drop 4 line) (s_tasks s)))
         else if is_cmd ''stat'' line then says s (cmd_stat (drop 4 line) f)
         else if is_cmd ''mv'' line then on_fs s (cmd_mv (drop 2 line) f)
         else if is_cmd ''mkdir'' line then on_fs s (cmd_mkdir (drop 5 line) f)
         else if is_cmd ''rmdir'' line then on_fs s (cmd_rmdir (drop 5 line) f)
         else if str_eq line ''df'' then says s (Some (cmd_df f))
         else if is_cmd ''cd'' line then on_fs s (cmd_cd (drop 2 line) f)
         else if str_eq line ''pwd'' then says s (Some (cmd_pwd f))
         else if str_eq line ''history'' then says s (Some (cmd_history (s_shell s)))
         else says s (Some (''Unknown command: '' @ line @ NL))))"

section \<open>The line editor\<close>

text \<open>One round of the loop of \<open>shell_run\<close> with the character from the keyboard: \<open>line\<close> is the
  buffer up to \<open>pos\<close>.\<close>

definition shell_key :: "char \<Rightarrow> string \<times> sys \<Rightarrow> stop + (console_op list \<times> string \<times> sys)" where
  "shell_key c st =
     (case st of (line, s) \<Rightarrow>
        if c = CHR 0x0A then
          map_sum id (\<lambda>(out, s). (Print NL # out @ [Print ''> ''], [], s)) (run_command (cstr line) s)
        else if c = CHR 0x08 then
          Inr (if length line > 0 then ([Print [CHR 0x08]], butlast line, s) else ([], line, s))
        else if length line < LINE_BUF_SIZE - 1 then Inr ([Print (cstr [c])], line @ [c], s)
        else Inr ([], line, s))"

text \<open>The rounds with the characters of a string, up to the one that does not end.\<close>

fun shell_keys :: "string \<Rightarrow> string \<times> sys \<Rightarrow> stop + (console_op list \<times> string \<times> sys)" where
  "shell_keys [] st = Inr ([], st)"
| "shell_keys (c # cs) st =
     (case shell_key c st of Inl stop \<Rightarrow> Inl stop | Inr (out, st) \<Rightarrow>
        map_sum id (\<lambda>(out', st). (out @ out', st)) (shell_keys cs st))"

text \<open>What the console does with the output.\<close>

fun console :: "console_op list \<Rightarrow> vga \<Rightarrow> vga \<times> port_out" where
  "console [] v = (v, [])"
| "console (Print str # ops) v = (case kprint str v of (v, out) \<Rightarrow> (case console ops v of (v, out') \<Rightarrow> (v, out @ out')))"
| "console (ClearScreen # ops) v = console ops (vga_clear v)"
| "console (EnableCursor # ops) v = (case console ops v of (v, out) \<Rightarrow> (v, vga_enable_cursor @ out))"

end
