(* ===== verification/ShellProps.thy ===== *)
theory ShellProps
  imports Shell
begin

text \<open>
  Properties of the shell's history, line editor and argument parsing.
\<close>

section \<open>History\<close>

definition last_n :: "nat \<Rightarrow> 'a list \<Rightarrow> 'a list" where
  "last_n n xs = drop (length xs - n) xs"

lemma map_nth_from: "length h = n \<Longrightarrow> map (\<lambda>i. h ! i) [k..<n] = drop k h"
proof -
  assume n: "length h = n"
  have "drop k (map (nth h) [0..<n]) = map (nth h) [k..<n]" by (simp add: drop_map)
  then show ?thesis using map_nth [of h] n by simp
qed

lemma shift_down:
  "n < length h \<Longrightarrow> fold (\<lambda>i h. h[i := f (h ! (i + 1))]) [0..<n] h = map f (take n (tl h)) @ drop n h"
proof (induction n)
  case (Suc n)
  let ?pre = "map f (take n (tl h))"
  have len: "length ?pre = n" using Suc.prems by simp
  have d: "drop n h = h ! n # drop (Suc n) h" using Suc.prems by (simp add: Cons_nth_drop_Suc)
  have "(?pre @ drop n h) ! (n + 1) = h ! (n + 1)" using Suc.prems by (simp add: nth_append)
  moreover have "take (Suc n) (tl h) = take n (tl h) @ [h ! (n + 1)]"
    using Suc.prems by (simp add: take_Suc_conv_app_nth nth_tl)
  moreover have "(?pre @ drop n h)[n := x] = ?pre @ x # drop (Suc n) h" for x
    unfolding d by (simp only: list_update_append len) simp
  ultimately show ?case using Suc by simp
qed simp

lemma history_add_eq:
  assumes "length (history sh) = 16" "line \<noteq> []"
  shows "history (history_add line sh) = map (take 257) (tl (history sh)) @ [take 257 line]"
    "history_count (history_add line sh) = min 16 (max (history_count sh) (history_count sh + 1)) \<or> history_count sh > 16"
proof -
  have "fold (\<lambda>i h. h[i := take 257 (h ! (i + 1))]) [0..<15] (history sh) = map (take 257) (take 15 (tl (history sh))) @ drop 15 (history sh)"
    using assms(1) shift_down [of 15 "history sh" "take 257"] by simp
  moreover have "length (drop 15 (history sh)) = 1" using assms(1) by simp
  then obtain y where "drop 15 (history sh) = [y]" by (cases "drop 15 (history sh)") auto
  ultimately show "history (history_add line sh) = map (take 257) (tl (history sh)) @ [take 257 line]"
    using assms by (simp add: history_add_def Let_def str_copy_n_take LINE_BUF_SIZE_def HISTORY_SIZE_def list_update_append)
  show "history_count (history_add line sh) = min 16 (max (history_count sh) (history_count sh + 1)) \<or> history_count sh > 16"
    using assms(2) by (auto simp: history_add_def Let_def HISTORY_SIZE_def)
qed

definition history_holds :: "string list \<Rightarrow> shell \<Rightarrow> bool" where
  "history_holds ls sh \<longleftrightarrow> history sh = drop (length ls) (replicate 16 [] @ ls) \<and> history_count sh = min 16 (length ls)
     \<and> list_all (\<lambda>l. length l \<le> 257) ls"

lemma history_holds_add:
  assumes "history_holds ls sh" "line \<noteq> []"
  shows "history_holds (ls @ [take 257 line]) (history_add line sh)"
proof -
  let ?all = "replicate 16 [] @ ls"
  have h: "history sh = drop (length ls) ?all" using assms(1) by (simp add: history_holds_def)
  then have len: "length (history sh) = 16" by simp
  have "map (take 257) ?all = ?all"
    using assms(1) by (auto simp: history_holds_def list_all_iff intro!: map_idI)
  then have "map (take 257) (drop (Suc (length ls)) ?all) = drop (Suc (length ls)) ?all"
    by (metis drop_map)
  then have "history (history_add line sh) = drop (Suc (length ls)) ?all @ [take 257 line]"
    unfolding history_add_eq(1) [OF len assms(2)] h by (simp only: tl_drop flip: drop_Suc)
  moreover have "history_count (history_add line sh) = min 16 (Suc (length ls))"
    using history_add_eq(2) [OF len assms(2)] assms(1) by (auto simp: history_holds_def)
  ultimately show ?thesis using assms(1) by (auto simp: history_holds_def)
qed

lemma history_holds_run:
  "history_holds ls sh \<Longrightarrow> history_holds (ls @ map (take 257) (filter (\<lambda>l. l \<noteq> []) lines)) (fold history_add lines sh)"
proof (induction lines arbitrary: ls sh)
  case (Cons l lines)
  show ?case
  proof (cases "l = []")
    case True
    then have "history_add l sh = sh" by (simp add: history_add_def)
    with True Cons show ?thesis by simp
  next
    case False
    from Cons.IH [OF history_holds_add [OF Cons.prems False]] False show ?thesis by simp
  qed
qed simp

text \<open>C37. After any sequence of command lines, \<open>history\<close> prints the last 16 non-empty ones, oldest first.\<close>

theorem history_prints_last_lines:
  "cmd_history (fold history_add lines shell_initial)
     = concat (map (\<lambda>l. ''  '' @ take 257 l @ NL) (last_n 16 (filter (\<lambda>l. l \<noteq> []) lines)))"
proof -
  let ?sh = "fold history_add lines shell_initial" and ?ls = "map (take 257) (filter (\<lambda>l. l \<noteq> []) lines)"
  have "history_holds [] shell_initial" by (simp add: history_holds_def shell_initial_def HISTORY_SIZE_def)
  from history_holds_run [OF this, of lines] have h: "history ?sh = drop (length ?ls) (replicate 16 [] @ ?ls)"
    "history_count ?sh = min 16 (length ?ls)" by (simp_all add: history_holds_def)
  have "map (\<lambda>i. history ?sh ! i) [16 - history_count ?sh..<16] = drop (16 - history_count ?sh) (history ?sh)"
    by (rule map_nth_from) (simp add: h(1))
  also have "\<dots> = last_n 16 ?ls"
    unfolding h by (auto simp: last_n_def min_def)
  also have "\<dots> = map (take 257) (last_n 16 (filter (\<lambda>l. l \<noteq> []) lines))"
    by (simp add: last_n_def drop_map)
  finally have e: "map (\<lambda>i. history ?sh ! i) [16 - history_count ?sh..<16] = map (take 257) (last_n 16 (filter (\<lambda>l. l \<noteq> []) lines))" .
  have "cmd_history ?sh = concat (map (\<lambda>l. ''  '' @ l @ NL) (map (\<lambda>i. history ?sh ! i) [16 - history_count ?sh..<16]))"
    by (simp add: cmd_history_def HISTORY_SIZE_def comp_def)
  then show ?thesis unfolding e by (simp add: comp_def)
qed

section \<open>The line editor\<close>

lemma shell_key_bounded:
  "shell_key c (line, s) = Inr (out, line', s') \<Longrightarrow> length line \<le> 257 \<Longrightarrow> length line' \<le> 257"
  by (cases "run_command (cstr line) s") (auto simp: shell_key_def LINE_BUF_SIZE_def split: if_splits)

lemma shell_keys_bounded:
  "shell_keys cs (line, s) = Inr (out, line', s') \<Longrightarrow> length line \<le> 257 \<Longrightarrow> length line' \<le> 257"
proof (induction cs arbitrary: line s out)
  case (Cons c cs)
  then obtain o1 l1 s1 where k: "shell_key c (line, s) = Inr (o1, l1, s1)" by (auto split: sum.splits)
  with Cons.prems(1) obtain o2 where "shell_keys cs (l1, s1) = Inr (o2, line', s')"
    by (cases "shell_keys cs (l1, s1)") auto
  then show ?case using Cons.IH shell_key_bounded [OF k] Cons.prems(2) by blast
qed simp

definition plain_key :: "char \<Rightarrow> bool" where
  "plain_key c \<longleftrightarrow> c \<noteq> CHR 0x0A \<and> c \<noteq> CHR 0x08 \<and> c \<noteq> CHR 0x00"

lemma shell_keys_plain:
  "list_all plain_key cs \<Longrightarrow> length line + length cs \<le> 257 \<Longrightarrow>
   shell_keys cs (line, s) = Inr (map (\<lambda>c. Print [c]) cs, line @ cs, s)"
  by (induction cs arbitrary: line) (auto simp: shell_key_def plain_key_def LINE_BUF_SIZE_def cstr_def)

lemma map_sum_twice: "map_sum id g (map_sum id f x) = map_sum id (\<lambda>y. g (f y)) x"
  by (cases x) simp_all

lemma map_sum_nil: "map_sum id (\<lambda>(out, st). ([] @ out, st)) x = x"
  by (cases x) auto

lemma shell_keys_append:
  "shell_keys (cs @ ds) st = (case shell_keys cs st of Inl stop \<Rightarrow> Inl stop | Inr (out, st) \<Rightarrow>
     map_sum id (\<lambda>(out', st). (out @ out', st)) (shell_keys ds st))"
proof (induction cs arbitrary: st)
  case Nil
  then show ?case using map_sum_nil [of "shell_keys ds st"] by simp
next
  case (Cons c cs)
  show ?case
  proof (cases "shell_key c st")
    case (Inr p)
    obtain out st1 where p: "p = (out, st1)" by (cases p)
    show ?thesis
      using Cons.IH [of st1] by (cases "shell_keys cs st1") (auto simp: Inr p map_sum_twice case_prod_unfold)
  qed simp
qed

text \<open>C28. A line of at most 257 plain characters that is typed and ended with Enter is echoed character by
  character and reaches \<open>run_command\<close> exactly as typed; a longer one is cut to its first 257 characters, so the
  258-byte buffer is never overrun.\<close>

theorem shell_delivers_line:
  assumes "list_all plain_key text"
  shows "shell_keys (text @ [CHR 0x0A]) ([], s) =
    map_sum id (\<lambda>(out, s'). (map (\<lambda>c. Print [c]) (take 257 text) @ Print NL # out @ [Print ''> ''], [], s'))
      (run_command (take 257 text) s)"
proof -
  have drop: "shell_keys cs (line, s) = Inr ([], line, s)" if "list_all plain_key cs" "length line = 257" for cs line
    using that by (induction cs) (auto simp: shell_key_def plain_key_def LINE_BUF_SIZE_def)
  have t: "list_all plain_key (take 257 text)" "list_all plain_key (drop 257 text)"
    using assms by (auto simp: list_all_iff dest: in_set_takeD in_set_dropD)
  have "shell_keys text ([], s) = Inr (map (\<lambda>c. Print [c]) (take 257 text), take 257 text, s)"
  proof (cases "length text \<le> 257")
    case True
    then show ?thesis using shell_keys_plain [OF assms, of "[]" s] by simp
  next
    case False
    have "shell_keys (take 257 text) ([], s) = Inr (map (\<lambda>c. Print [c]) (take 257 text), take 257 text, s)"
      using shell_keys_plain [OF t(1), of "[]" s] by simp
    moreover have "shell_keys (drop 257 text) (take 257 text, s) = Inr ([], take 257 text, s)"
      by (rule drop [OF t(2)]) (use False in simp)
    ultimately show ?thesis
      using shell_keys_append [of "take 257 text" "drop 257 text" "([], s)"] by simp
  qed
  moreover have "cstr (take 257 text) = take 257 text"
    by (rule cstr_id) (use t(1) in \<open>auto simp: list_all_iff plain_key_def\<close>)
  ultimately show ?thesis
    by (cases "run_command (take 257 text) s") (auto simp: shell_keys_append shell_key_def)
qed

theorem shell_delivers_line_witness:
  "\<forall>s. shell_keys (''shutdown'' @ [CHR 0x0A]) ([], s) =
    Inr (map (\<lambda>c. Print [c]) ''shutdown'' @ [Print NL, Print ''> ''], [], s\<lparr>s_shell := history_add ''shutdown'' (s_shell s)\<rparr>)"
proof
  fix s
  have "list_all plain_key ''shutdown''" by (simp add: plain_key_def)
  from shell_delivers_line [OF this, of s]
  show "shell_keys (''shutdown'' @ [CHR 0x0A]) ([], s) =
    Inr (map (\<lambda>c. Print [c]) ''shutdown'' @ [Print NL, Print ''> ''], [], s\<lparr>s_shell := history_add ''shutdown'' (s_shell s)\<rparr>)"
    by (simp add: run_command_def is_cmd_def)
qed

section \<open>Commands that do not come back\<close>

text \<open>\<open>reboot\<close>, whatever follows it.\<close>

lemma reboot_stops: "shell_keys (''reboot'' @ CHR 0x0A # rest) ([], s) = Inl Reboots"
proof -
  have "shell_keys ''reboot'' ([], s) = Inr (map (\<lambda>c. Print [c]) ''reboot'', ''reboot'', s)"
    using shell_keys_plain [of "''reboot''" "[]" s] by (simp add: plain_key_def)
  moreover have "shell_key CHR 0x0A (''reboot'', s) = Inl Reboots"
    by (simp add: shell_key_def run_command_def is_cmd_def cstr_def Let_def)
  ultimately show ?thesis by (simp only: shell_keys_append shell_keys.simps sum.case prod.case map_sum.simps id_apply)
qed

text \<open>\<open>spawn\<close>: the eight digits hold the numbers below \<open>10 ^ 8\<close>.\<close>

lemma spawn_digits_bound: "spawn_digits room n = None \<longleftrightarrow> 10 ^ room \<le> n"
proof (induction room n rule: spawn_digits.induct)
  case (2 room n)
  have "p \<le> n div 10 \<longleftrightarrow> 10 * p \<le> n" for p :: int by presburger
  then have "10 ^ room \<le> n div 10 \<longleftrightarrow> 10 ^ Suc room \<le> n" by simp
  moreover have "\<not> 10 ^ Suc room \<le> n" if "\<not> 0 < n"
    using that zero_less_power [of "10 :: int" "Suc room"] by linarith
  ultimately show ?case using 2 by (auto simp del: power_Suc)
qed auto

lemma spawn_name_bound: "spawn_name n = None \<longleftrightarrow> 10 ^ 8 \<le> n"
  by (auto simp: spawn_name_def spawn_digits_bound)

lemma sint_inc: "sint (c :: u32) < 0x7FFFFFFF \<Longrightarrow> sint (c + 1) = sint c + 1"
proof -
  assume "sint c < 0x7FFFFFFF"
  moreover have "- (2 ^ 31) \<le> sint c" using sint_greater_eq [of c] by simp
  ultimately show ?thesis by (simp add: sint_word_ariths signed_take_bit_int_eq_self)
qed

lemma spawn_overruns: "sint (spawn_count (s_shell s)) = 99999999 \<Longrightarrow> cmd_spawn s = Inl Overruns"
  using spawn_name_bound [of 100000000] by (simp add: cmd_spawn_def Let_def sint_inc)

section \<open>Task ids\<close>

lemma parse_id_fold:
  "foldl (\<lambda>tid c. tid * 10 + of_nat (digit_value c)) (of_nat v :: u32) ds = of_nat (foldl (\<lambda>v c. 10 * v + digit_value c) v ds)"
proof (induction ds arbitrary: v)
  case (Cons d ds)
  have "(of_nat v :: u32) * 10 + of_nat (digit_value d) = of_nat (10 * v + digit_value d)" by simp
  with Cons.IH [of "10 * v + digit_value d"] show ?case by (simp del: of_nat_add of_nat_mult)
qed simp

text \<open>The id that \<open>kill\<close> acts on is the decimal number typed, wrapped to a signed 32-bit integer; so
  \<open>kill 4294967297\<close> kills task 1.\<close>

theorem kill_id_wraps:
  "parse_id ds = signed_take_bit 31 (int (decimal_value ds)) \<and> parse_id ''4294967297'' = 1"
proof -
  have "parse_id ds = signed_take_bit 31 (int (decimal_value ds))" for ds
    using parse_id_fold [of 0 ds] by (simp add: parse_id_def decimal_value_def signed_of_nat)
  moreover have "decimal_value ''4294967297'' = 4294967297"
    by (simp add: decimal_value_def digit_value_def)
  ultimately show ?thesis by (simp add: signed_take_bit_eq_if_positive take_bit_eq_mod bit_iff_odd)
qed

end
