(* ===== verification/Ata.thy ===== *)
theory Ata
  imports Disk
begin

text \<open>
  The disk driver of \<open>kernel/disk.c\<close>, over the four port instructions of \<open>kernel/io.c\<close>. The drive
  behind the ports is a parameter; \<open>ata_contract\<close> states the documented programmed-I/O protocol of
  an ATA drive step by step, and the driver's two routines are shown to implement the sector store
  that the file system works on. The polling loops are partial: \<open>None\<close> is a loop that never ends.
\<close>

section \<open>The driver\<close>

record 'd ports =
  p_inb :: "u16 \<Rightarrow> 'd \<Rightarrow> u8 \<times> 'd"
  p_inw :: "u16 \<Rightarrow> 'd \<Rightarrow> u16 \<times> 'd"
  p_outb :: "u16 \<Rightarrow> u8 \<Rightarrow> 'd \<Rightarrow> 'd"
  p_outw :: "u16 \<Rightarrow> u16 \<Rightarrow> 'd \<Rightarrow> 'd"

definition ATA_DATA :: u16 where "ATA_DATA = 0x1F0"
definition ATA_SECCOUNT :: u16 where "ATA_SECCOUNT = 0x1F2"
definition ATA_LBA_LOW :: u16 where "ATA_LBA_LOW = 0x1F3"
definition ATA_LBA_MID :: u16 where "ATA_LBA_MID = 0x1F4"
definition ATA_LBA_HIGH :: u16 where "ATA_LBA_HIGH = 0x1F5"
definition ATA_DRIVE_HEAD :: u16 where "ATA_DRIVE_HEAD = 0x1F6"
definition ATA_STATUS :: u16 where "ATA_STATUS = 0x1F7"
definition ATA_COMMAND :: u16 where "ATA_COMMAND = 0x1F7"
definition ATA_CMD_READ :: u8 where "ATA_CMD_READ = 0x20"
definition ATA_CMD_WRITE :: u8 where "ATA_CMD_WRITE = 0x30"

lemmas ata_consts = ATA_DATA_def ATA_SECCOUNT_def ATA_LBA_LOW_def ATA_LBA_MID_def ATA_LBA_HIGH_def
  ATA_DRIVE_HEAD_def ATA_STATUS_def ATA_COMMAND_def ATA_CMD_READ_def ATA_CMD_WRITE_def

partial_function (option) ata_wait_ready :: "'d ports \<Rightarrow> 'd \<Rightarrow> 'd option" where
  "ata_wait_ready P d =
     (case p_inb P ATA_STATUS d of (v, d) \<Rightarrow> if v AND 0x80 \<noteq> 0 then ata_wait_ready P d else Some d)"

partial_function (option) ata_wait_drq :: "'d ports \<Rightarrow> 'd \<Rightarrow> 'd option" where
  "ata_wait_drq P d =
     (case p_inb P ATA_STATUS d of (v, d) \<Rightarrow> if \<not> (v AND 0x08 \<noteq> 0) then ata_wait_drq P d else Some d)"

text \<open>The six register writes that both routines make.\<close>

definition ata_issue :: "'d ports \<Rightarrow> u32 \<Rightarrow> u8 \<Rightarrow> 'd \<Rightarrow> 'd" where
  "ata_issue P lba cmd d =
     (let d = p_outb P ATA_DRIVE_HEAD (ucast (0xE0 OR (drop_bit 24 lba AND 0x0F))) d;
          d = p_outb P ATA_SECCOUNT 1 d;
          d = p_outb P ATA_LBA_LOW (ucast (lba AND 0xFF)) d;
          d = p_outb P ATA_LBA_MID (ucast (drop_bit 8 lba AND 0xFF)) d;
          d = p_outb P ATA_LBA_HIGH (ucast (drop_bit 16 lba AND 0xFF)) d
      in p_outb P ATA_COMMAND cmd d)"

fun ata_in :: "'d ports \<Rightarrow> nat \<Rightarrow> 'd \<Rightarrow> u16 list \<times> 'd" where
  "ata_in P 0 d = ([], d)"
| "ata_in P (Suc n) d = (let (w, d) = p_inw P ATA_DATA d; (ws, d) = ata_in P n d in (w # ws, d))"

definition ata_out :: "'d ports \<Rightarrow> u16 list \<Rightarrow> 'd \<Rightarrow> 'd" where
  "ata_out P ws d = fold (p_outw P ATA_DATA) ws d"

text \<open>\<open>disk_read_sector\<close> and \<open>disk_write_sector\<close>; the buffer is the array of 256 words that both cast it
  to.\<close>

definition ata_read_sector :: "'d ports \<Rightarrow> u32 \<Rightarrow> 'd \<Rightarrow> (u16 list \<times> 'd) option" where
  "ata_read_sector P lba d =
     (case ata_wait_ready P d of None \<Rightarrow> None | Some d \<Rightarrow>
       (case ata_wait_ready P (ata_issue P lba ATA_CMD_READ d) of None \<Rightarrow> None | Some d \<Rightarrow>
         (case ata_wait_drq P d of None \<Rightarrow> None | Some d \<Rightarrow> Some (ata_in P 256 d))))"

definition ata_write_sector :: "'d ports \<Rightarrow> u32 \<Rightarrow> u16 list \<Rightarrow> 'd \<Rightarrow> 'd option" where
  "ata_write_sector P lba buf16 d =
     (case ata_wait_ready P d of None \<Rightarrow> None | Some d \<Rightarrow>
       (case ata_wait_ready P (ata_issue P lba ATA_CMD_WRITE d) of None \<Rightarrow> None | Some d \<Rightarrow>
         (case ata_wait_drq P d of None \<Rightarrow> None | Some d \<Rightarrow>
           (case ata_wait_ready P (ata_out P (map (\<lambda>i. buf16 ! i) [0..<256]) d) of None \<Rightarrow> None | Some d \<Rightarrow>
             ata_wait_ready P (p_outb P ATA_COMMAND 0xE7 d)))))"

section \<open>The drive\<close>

datatype ata_phase = Idle | Data_in "u16 list" | Data_out "u16 list"

record ata_view =
  av_sectors :: "u32 \<Rightarrow> u16 list"
  av_head :: u8
  av_count :: u8
  av_low :: u8
  av_mid :: u8
  av_high :: u8
  av_phase :: ata_phase

definition av_lba :: "ata_view \<Rightarrow> u32" where
  "av_lba v = push_bit 24 (ucast (av_head v) AND 0x0F) OR push_bit 16 (ucast (av_high v))
     OR push_bit 8 (ucast (av_mid v)) OR ucast (av_low v)"

text \<open>
  The protocol: \<open>view\<close> is what the drive holds, \<open>delay\<close> for how many status reads it will still be
  busy. A status read shows busy and data-request and changes nothing else; the registers can be
  written when the drive is idle; a read or write command in LBA mode for one sector of the first
  drive starts the transfer of the 256 words of that sector; flushing keeps the sectors.
\<close>

definition status_law :: "'d ports \<Rightarrow> ('d \<Rightarrow> ata_view) \<Rightarrow> ('d \<Rightarrow> nat) \<Rightarrow> bool" where
  "status_law P view delay \<longleftrightarrow>
     (\<forall>d v d'. p_inb P 0x1F7 d = (v, d') \<longrightarrow> view d' = view d \<and> delay d' = delay d - 1
        \<and> (v AND 0x80 \<noteq> 0 \<longleftrightarrow> delay d \<noteq> 0) \<and> (delay d = 0 \<longrightarrow> (v AND 0x08 \<noteq> 0 \<longleftrightarrow> av_phase (view d) \<noteq> Idle)))"

definition register_law :: "'d ports \<Rightarrow> ('d \<Rightarrow> ata_view) \<Rightarrow> ('d \<Rightarrow> nat) \<Rightarrow> bool" where
  "register_law P view delay \<longleftrightarrow>
     (\<forall>d v. delay d = 0 \<longrightarrow> av_phase (view d) = Idle \<longrightarrow>
        view (p_outb P 0x1F6 v d) = (view d)\<lparr>av_head := v\<rparr> \<and> delay (p_outb P 0x1F6 v d) = 0
      \<and> view (p_outb P 0x1F2 v d) = (view d)\<lparr>av_count := v\<rparr> \<and> delay (p_outb P 0x1F2 v d) = 0
      \<and> view (p_outb P 0x1F3 v d) = (view d)\<lparr>av_low := v\<rparr> \<and> delay (p_outb P 0x1F3 v d) = 0
      \<and> view (p_outb P 0x1F4 v d) = (view d)\<lparr>av_mid := v\<rparr> \<and> delay (p_outb P 0x1F4 v d) = 0
      \<and> view (p_outb P 0x1F5 v d) = (view d)\<lparr>av_high := v\<rparr> \<and> delay (p_outb P 0x1F5 v d) = 0)"

definition command_law :: "'d ports \<Rightarrow> ('d \<Rightarrow> ata_view) \<Rightarrow> ('d \<Rightarrow> nat) \<Rightarrow> bool" where
  "command_law P view delay \<longleftrightarrow>
     (\<forall>d. delay d = 0 \<longrightarrow> av_phase (view d) = Idle \<longrightarrow> av_count (view d) = 1 \<longrightarrow> av_head (view d) AND 0xF0 = 0xE0 \<longrightarrow>
        view (p_outb P 0x1F7 0x20 d) = (view d)\<lparr>av_phase := Data_in (av_sectors (view d) (av_lba (view d)))\<rparr>
      \<and> view (p_outb P 0x1F7 0x30 d) = (view d)\<lparr>av_phase := Data_out []\<rparr>) \<and>
     (\<forall>d. delay d = 0 \<longrightarrow> av_phase (view d) = Idle \<longrightarrow> view (p_outb P 0x1F7 0xE7 d) = view d)"

definition data_law :: "'d ports \<Rightarrow> ('d \<Rightarrow> ata_view) \<Rightarrow> ('d \<Rightarrow> nat) \<Rightarrow> bool" where
  "data_law P view delay \<longleftrightarrow>
     (\<forall>d w ws. delay d = 0 \<longrightarrow> av_phase (view d) = Data_in (w # ws) \<longrightarrow>
        fst (p_inw P 0x1F0 d) = w \<and> delay (snd (p_inw P 0x1F0 d)) = 0
      \<and> view (snd (p_inw P 0x1F0 d)) = (view d)\<lparr>av_phase := if ws = [] then Idle else Data_in ws\<rparr>) \<and>
     (\<forall>d w ws. delay d = 0 \<longrightarrow> av_phase (view d) = Data_out ws \<longrightarrow> length ws < 255 \<longrightarrow>
        view (p_outw P 0x1F0 w d) = (view d)\<lparr>av_phase := Data_out (ws @ [w])\<rparr> \<and> delay (p_outw P 0x1F0 w d) = 0) \<and>
     (\<forall>d w ws. delay d = 0 \<longrightarrow> av_phase (view d) = Data_out ws \<longrightarrow> length ws = 255 \<longrightarrow>
        view (p_outw P 0x1F0 w d) =
          (view d)\<lparr>av_phase := Idle, av_sectors := (av_sectors (view d))(av_lba (view d) := ws @ [w])\<rparr>)"

definition ata_contract :: "'d ports \<Rightarrow> ('d \<Rightarrow> ata_view) \<Rightarrow> ('d \<Rightarrow> nat) \<Rightarrow> bool" where
  "ata_contract P view delay \<longleftrightarrow> status_law P view delay \<and> register_law P view delay \<and> command_law P view delay
     \<and> data_law P view delay \<and> (\<forall>d lba. length (av_sectors (view d) lba) = 256)"

section \<open>The polling loops end\<close>

lemma status_read:
  assumes "ata_contract P view delay" "p_inb P 0x1F7 d = (v, d')"
  shows "view d' = view d" "delay d' = delay d - 1" "v AND 0x80 \<noteq> 0 \<longleftrightarrow> delay d \<noteq> 0"
    "delay d = 0 \<Longrightarrow> v AND 0x08 \<noteq> 0 \<longleftrightarrow> av_phase (view d) \<noteq> Idle"
proof -
  have "view d' = view d \<and> delay d' = delay d - 1 \<and> (v AND 0x80 \<noteq> 0 \<longleftrightarrow> delay d \<noteq> 0)
      \<and> (delay d = 0 \<longrightarrow> (v AND 0x08 \<noteq> 0 \<longleftrightarrow> av_phase (view d) \<noteq> Idle))"
    using assms unfolding ata_contract_def status_law_def by blast
  then show "view d' = view d" "delay d' = delay d - 1" "v AND 0x80 \<noteq> 0 \<longleftrightarrow> delay d \<noteq> 0"
    "delay d = 0 \<Longrightarrow> v AND 0x08 \<noteq> 0 \<longleftrightarrow> av_phase (view d) \<noteq> Idle" by blast+
qed

lemma wait_ready:
  assumes "ata_contract P view delay"
  shows "\<exists>d'. ata_wait_ready P d = Some d' \<and> view d' = view d \<and> delay d' = 0"
proof (induction "delay d" arbitrary: d)
  case 0
  obtain v d' where vd: "p_inb P 0x1F7 d = (v, d')" by fastforce
  note st = status_read [OF assms vd]
  have "ata_wait_ready P d = Some d'"
    using vd st(3) 0 by (subst ata_wait_ready.simps) (simp add: ATA_STATUS_def)
  with st 0 show ?case by simp
next
  case (Suc n)
  obtain v d' where vd: "p_inb P 0x1F7 d = (v, d')" by fastforce
  note st = status_read [OF assms vd]
  have "ata_wait_ready P d = ata_wait_ready P d'"
    using vd st(3) Suc(2) by (subst ata_wait_ready.simps) (simp add: ATA_STATUS_def)
  with Suc(1) [of d'] Suc(2) st show ?case by simp
qed

lemma wait_drq:
  assumes "ata_contract P view delay" "delay d = 0" "av_phase (view d) \<noteq> Idle"
  shows "\<exists>d'. ata_wait_drq P d = Some d' \<and> view d' = view d \<and> delay d' = 0"
proof -
  obtain v d' where vd: "p_inb P 0x1F7 d = (v, d')" by fastforce
  note st = status_read [OF assms(1) vd]
  have "ata_wait_drq P d = Some d'"
    using vd st(4) assms(2,3) by (subst ata_wait_drq.simps) (simp add: ATA_STATUS_def)
  with st assms(2) show ?thesis by simp
qed

section \<open>Addressing and transfer\<close>

lemma byte_masks: "(0x0F :: u32) = mask 4" "(0xFF :: u32) = mask 8" "(0xE0 :: u32) = push_bit 5 (mask 3)"
  "(0x0FFFFFFF :: u32) = mask 28"
  by (simp_all add: mask_eq_exp_minus_1)

lemma lba_bytes:
  "push_bit 24 (ucast (ucast (0xE0 OR (drop_bit 24 lba AND 0x0F)) :: u8) AND 0x0F) = lba AND push_bit 24 (mask 4)"
  "push_bit 16 (ucast (ucast (drop_bit 16 lba AND 0xFF) :: u8)) = lba AND push_bit 16 (mask 8)"
  "push_bit 8 (ucast (ucast (drop_bit 8 lba AND 0xFF) :: u8)) = lba AND push_bit 8 (mask 8)"
  "ucast (ucast (lba AND 0xFF) :: u8) = (lba AND mask 8 :: u32)"
  unfolding byte_masks by (rule bit_word_eqI; auto simp: bit_simps)+

lemma lba28:
  "push_bit 24 (ucast (ucast (0xE0 OR (drop_bit 24 lba AND 0x0F)) :: u8) AND 0x0F)
     OR push_bit 16 (ucast (ucast (drop_bit 16 lba AND 0xFF) :: u8))
     OR push_bit 8 (ucast (ucast (drop_bit 8 lba AND 0xFF) :: u8)) OR ucast (ucast (lba AND 0xFF) :: u8)
   = (lba AND 0x0FFFFFFF :: u32)"
proof -
  have "push_bit 24 (mask 4) OR push_bit 16 (mask 8) OR push_bit 8 (mask 8) OR mask 8 = (0x0FFFFFFF :: u32)"
    by (simp add: mask_eq_exp_minus_1)
  then show ?thesis unfolding lba_bytes(1-3) unfolding lba_bytes(4)
    by (simp only: flip: bit.conj_disj_distrib)
qed

lemma lba_mode: "(ucast (0xE0 OR (drop_bit 24 (lba :: u32) AND 0x0F)) :: u8) AND 0xF0 = 0xE0"
proof -
  have m: "(0xF0 :: u8) = push_bit 4 (mask 4)" "(0xE0 :: u8) = push_bit 5 (mask 3)"
    by (simp_all add: mask_eq_exp_minus_1)
  show ?thesis unfolding byte_masks m by (rule bit_word_eqI) (auto simp: bit_simps)
qed

lemma issue:
  assumes "ata_contract P view delay" "delay d = 0" "av_phase (view d) = Idle"
  shows "\<exists>v. av_sectors v = av_sectors (view d) \<and> av_lba v = lba AND 0x0FFFFFFF
    \<and> view (ata_issue P lba 0x20 d) = v\<lparr>av_phase := Data_in (av_sectors (view d) (lba AND 0x0FFFFFFF))\<rparr>
    \<and> view (ata_issue P lba 0x30 d) = v\<lparr>av_phase := Data_out []\<rparr>"
proof -
  have reg: "view (p_outb P 0x1F6 v d) = (view d)\<lparr>av_head := v\<rparr>" "delay (p_outb P 0x1F6 v d) = 0"
    "view (p_outb P 0x1F2 v d) = (view d)\<lparr>av_count := v\<rparr>" "delay (p_outb P 0x1F2 v d) = 0"
    "view (p_outb P 0x1F3 v d) = (view d)\<lparr>av_low := v\<rparr>" "delay (p_outb P 0x1F3 v d) = 0"
    "view (p_outb P 0x1F4 v d) = (view d)\<lparr>av_mid := v\<rparr>" "delay (p_outb P 0x1F4 v d) = 0"
    "view (p_outb P 0x1F5 v d) = (view d)\<lparr>av_high := v\<rparr>" "delay (p_outb P 0x1F5 v d) = 0"
    if "delay d = 0" "av_phase (view d) = Idle" for d v
    using assms(1) that unfolding ata_contract_def register_law_def by blast+
  define d1 where "d1 = p_outb P 0x1F5 (ucast (drop_bit 16 lba AND 0xFF)) (p_outb P 0x1F4 (ucast (drop_bit 8 lba AND 0xFF))
    (p_outb P 0x1F3 (ucast (lba AND 0xFF)) (p_outb P 0x1F2 1 (p_outb P 0x1F6 (ucast (0xE0 OR (drop_bit 24 lba AND 0x0F))) d))))"
  have v: "view d1 = (view d)\<lparr>av_head := ucast (0xE0 OR (drop_bit 24 lba AND 0x0F)), av_count := 1, av_low := ucast (lba AND 0xFF),
      av_mid := ucast (drop_bit 8 lba AND 0xFF), av_high := ucast (drop_bit 16 lba AND 0xFF)\<rparr>" "delay d1 = 0"
    unfolding d1_def by (simp_all add: reg assms(2,3))
  have lba: "av_lba (view d1) = lba AND 0x0FFFFFFF"
    unfolding av_lba_def v(1) using lba28 [of lba] by simp
  have c: "view (p_outb P 0x1F7 0x20 d1) = (view d1)\<lparr>av_phase := Data_in (av_sectors (view d1) (av_lba (view d1)))\<rparr>"
    "view (p_outb P 0x1F7 0x30 d1) = (view d1)\<lparr>av_phase := Data_out []\<rparr>"
  proof -
    have "av_phase (view d1) = Idle" "av_count (view d1) = 1" "av_head (view d1) AND 0xF0 = 0xE0"
      using assms(3) lba_mode [of lba] by (simp_all add: v(1))
    with v(2) assms(1) show "view (p_outb P 0x1F7 0x20 d1) = (view d1)\<lparr>av_phase := Data_in (av_sectors (view d1) (av_lba (view d1)))\<rparr>"
      "view (p_outb P 0x1F7 0x30 d1) = (view d1)\<lparr>av_phase := Data_out []\<rparr>"
      unfolding ata_contract_def command_law_def by blast+
  qed
  have e: "ata_issue P lba cmd d = p_outb P 0x1F7 cmd d1" for cmd
    by (simp add: ata_issue_def Let_def ata_consts d1_def)
  have "av_sectors (view d1) = av_sectors (view d)" by (simp add: v(1))
  then show ?thesis unfolding e using c lba by (intro exI [of _ "view d1"]) simp
qed

lemma transfer_in:
  assumes "ata_contract P view delay"
  shows "delay d = 0 \<Longrightarrow> av_phase (view d) = Data_in (w # ws) \<Longrightarrow>
    \<exists>d'. ata_in P (length (w # ws)) d = (w # ws, d') \<and> view d' = (view d)\<lparr>av_phase := Idle\<rparr>"
proof (induction ws arbitrary: w d)
  case Nil
  have "fst (p_inw P 0x1F0 d) = w \<and> view (snd (p_inw P 0x1F0 d)) = (view d)\<lparr>av_phase := Idle\<rparr>"
    using assms Nil unfolding ata_contract_def data_law_def by fastforce
  then show ?case by (simp add: ATA_DATA_def case_prod_unfold)
next
  case (Cons w' ws)
  let ?d = "snd (p_inw P 0x1F0 d)"
  have "fst (p_inw P 0x1F0 d) = w \<and> delay ?d = 0 \<and> view ?d = (view d)\<lparr>av_phase := if w' # ws = [] then Idle else Data_in (w' # ws)\<rparr>"
    using assms Cons(2,3) unfolding ata_contract_def data_law_def by blast
  then have st: "p_inw P 0x1F0 d = (w, ?d)" "delay ?d = 0" "view ?d = (view d)\<lparr>av_phase := Data_in (w' # ws)\<rparr>"
    by (auto simp: prod_eq_iff)
  obtain d' where d': "ata_in P (length (w' # ws)) ?d = (w' # ws, d')" "view d' = (view ?d)\<lparr>av_phase := Idle\<rparr>"
    using Cons(1) [of ?d w'] st by auto
  have "ata_in P (length (w # w' # ws)) d = (w # w' # ws, d')"
    using st(1) d'(1) by (metis (no_types, lifting) ATA_DATA_def ata_in.simps(2) case_prod_conv length_Cons)
  with d'(2) st(3) show ?case by simp
qed

lemma transfer_out:
  assumes "ata_contract P view delay"
  shows "delay d = 0 \<Longrightarrow> av_phase (view d) = Data_out ws \<Longrightarrow> length ws + length us = 256 \<Longrightarrow> us \<noteq> [] \<Longrightarrow>
    view (ata_out P us d) = (view d)\<lparr>av_phase := Idle, av_sectors := (av_sectors (view d))(av_lba (view d) := ws @ us)\<rparr>"
proof (induction us arbitrary: ws d)
  case (Cons u us)
  let ?d = "p_outw P 0x1F0 u d"
  have out: "ata_out P (u # us) d = ata_out P us ?d" by (simp add: ata_out_def ATA_DATA_def)
  show ?case
  proof (cases "us = []")
    case True
    with Cons.prems have "length ws = 255" by simp
    then have "view ?d = (view d)\<lparr>av_phase := Idle, av_sectors := (av_sectors (view d))(av_lba (view d) := ws @ [u])\<rparr>"
      using assms Cons.prems unfolding ata_contract_def data_law_def by blast
    moreover have "ata_out P (u # us) d = ?d" using out True by (simp add: ata_out_def)
    ultimately show ?thesis by (simp only: True)
  next
    case False
    with Cons.prems have "length ws < 255" by (cases us) auto
    then have st: "view ?d = (view d)\<lparr>av_phase := Data_out (ws @ [u])\<rparr>" "delay ?d = 0"
      using assms Cons.prems unfolding ata_contract_def data_law_def by blast+
    have "view (ata_out P us ?d) = (view ?d)\<lparr>av_phase := Idle, av_sectors := (av_sectors (view ?d))(av_lba (view ?d) := (ws @ [u]) @ us)\<rparr>"
      by (rule Cons.IH) (use st Cons.prems False in auto)
    then show ?thesis unfolding out by (simp add: st av_lba_def fun_upd_def)
  qed
qed simp

section \<open>The driver implements the sector store\<close>

definition sector_of_words :: "u16 list \<Rightarrow> sector" where
  "sector_of_words ws = (\<lambda>i. if even i then lo8 (ws ! (i div 2)) else hi8 (ws ! (i div 2)))"

definition words_of_sector :: "sector \<Rightarrow> u16 list" where
  "words_of_sector buf = map (\<lambda>i. le16 (buf (2 * i)) (buf (2 * i + 1))) [0..<256]"

lemma sector_words: "i < 512 \<Longrightarrow> sector_of_words (words_of_sector buf) i = buf i"
  by (cases "even i") (auto simp: sector_of_words_def words_of_sector_def elim!: evenE oddE)

text \<open>The disk that the file system sees: 28 bits of the address reach the drive.\<close>

definition ata_disk :: "ata_view \<Rightarrow> disk" where
  "ata_disk v = (\<lambda>lba. sector_of_words (av_sectors v (lba AND 0x0FFFFFFF)))"

lemma read_sector:
  assumes "ata_contract P view delay" "av_phase (view d) = Idle"
  shows "\<exists>d'. ata_read_sector P lba d = Some (av_sectors (view d) (lba AND 0x0FFFFFFF), d')
    \<and> av_sectors (view d') = av_sectors (view d) \<and> av_phase (view d') = Idle"
proof -
  obtain d1 where d1: "ata_wait_ready P d = Some d1" "view d1 = view d" "delay d1 = 0"
    using wait_ready [OF assms(1)] by blast
  with assms(2) have idle: "av_phase (view d1) = Idle" by simp
  obtain v where v: "av_sectors v = av_sectors (view d)"
    "view (ata_issue P lba 0x20 d1) = v\<lparr>av_phase := Data_in (av_sectors (view d) (lba AND 0x0FFFFFFF))\<rparr>"
    using issue [OF assms(1) d1(3) idle, of lba] d1(2) by metis
  obtain d2 where d2: "ata_wait_ready P (ata_issue P lba 0x20 d1) = Some d2" "view d2 = view (ata_issue P lba 0x20 d1)" "delay d2 = 0"
    using wait_ready [OF assms(1)] by blast
  have "av_phase (view d2) \<noteq> Idle" by (simp add: d2(2) v(2))
  from wait_drq [OF assms(1) d2(3) this] obtain d3 where d3: "ata_wait_drq P d2 = Some d3" "view d3 = view d2" "delay d3 = 0" by blast
  let ?ws = "av_sectors (view d) (lba AND 0x0FFFFFFF)"
  have len: "length ?ws = 256" using assms(1) by (simp add: ata_contract_def)
  then obtain w ws where ws: "?ws = w # ws" by (cases ?ws) auto
  have "av_phase (view d3) = Data_in (w # ws)" by (simp add: d3(2) d2(2) v(2) ws)
  from transfer_in [OF assms(1) d3(3) this] obtain d' where d': "ata_in P (length (w # ws)) d3 = (w # ws, d')"
    "view d' = (view d3)\<lparr>av_phase := Idle\<rparr>" by blast
  have "ata_read_sector P lba d = Some (ata_in P (length ?ws) d3)"
    unfolding ata_read_sector_def ATA_CMD_READ_def len using d1(1) d2(1) d3(1) by simp
  then show ?thesis using d' v by (auto simp: ws d3(2) d2(2))
qed

lemma write_sector:
  assumes "ata_contract P view delay" "av_phase (view d) = Idle" "length ws = 256"
  shows "\<exists>d'. ata_write_sector P lba ws d = Some d'
    \<and> av_sectors (view d') = (av_sectors (view d))(lba AND 0x0FFFFFFF := ws) \<and> av_phase (view d') = Idle"
proof -
  obtain d1 where d1: "ata_wait_ready P d = Some d1" "view d1 = view d" "delay d1 = 0"
    using wait_ready [OF assms(1)] by blast
  with assms(2) have idle: "av_phase (view d1) = Idle" by simp
  obtain v where v: "av_sectors v = av_sectors (view d)" "av_lba v = lba AND 0x0FFFFFFF"
    "view (ata_issue P lba 0x30 d1) = v\<lparr>av_phase := Data_out []\<rparr>"
    using issue [OF assms(1) d1(3) idle, of lba] d1(2) by metis
  obtain d2 where d2: "ata_wait_ready P (ata_issue P lba 0x30 d1) = Some d2" "view d2 = view (ata_issue P lba 0x30 d1)" "delay d2 = 0"
    using wait_ready [OF assms(1)] by blast
  have "av_phase (view d2) \<noteq> Idle" by (simp add: d2(2) v(3))
  from wait_drq [OF assms(1) d2(3) this] obtain d3 where d3: "ata_wait_drq P d2 = Some d3" "view d3 = view d2" "delay d3 = 0" by blast
  have vd3: "view d3 = v\<lparr>av_phase := Data_out []\<rparr>" by (simp add: d3(2) d2(2) v(3))
  have buf: "map (\<lambda>i. ws ! i) [0..<256] = ws" using assms(3) map_nth [of ws] by simp
  have "view (ata_out P ws d3) = (view d3)\<lparr>av_phase := Idle, av_sectors := (av_sectors (view d3))(av_lba (view d3) := [] @ ws)\<rparr>"
    by (rule transfer_out [OF assms(1)]) (use d3(3) vd3 assms(3) in auto)
  then have out: "av_sectors (view (ata_out P ws d3)) = (av_sectors (view d))(lba AND 0x0FFFFFFF := ws)"
    "av_phase (view (ata_out P ws d3)) = Idle"
    using v(1,2) by (simp_all add: vd3 av_lba_def)
  obtain d4 where d4: "ata_wait_ready P (ata_out P ws d3) = Some d4" "view d4 = view (ata_out P ws d3)" "delay d4 = 0"
    using wait_ready [OF assms(1)] by blast
  have fl: "view (p_outb P 0x1F7 0xE7 d4) = view d4"
    using assms(1) d4(2,3) out(2) unfolding ata_contract_def command_law_def by metis
  obtain d5 where d5: "ata_wait_ready P (p_outb P 0x1F7 0xE7 d4) = Some d5" "view d5 = view d4"
    using wait_ready [OF assms(1), of "p_outb P 0x1F7 0xE7 d4"] fl by auto
  have "ata_write_sector P lba ws d = Some d5"
    unfolding ata_write_sector_def ATA_CMD_WRITE_def ATA_COMMAND_def buf using d1(1) d2(1) d3(1) d4(1) d5(1) by simp
  then show ?thesis using d5(2) d4(2) out by auto
qed

text \<open>C16. On every drive that follows the protocol, however long it stays busy, reading a sector returns, and gives
  the 512 bytes that the file system's disk model has at that address, without changing any sector.\<close>

theorem ata_read_refines:
  assumes "ata_contract P view delay" "av_phase (view d) = Idle"
  shows "\<exists>ws d'. ata_read_sector P lba d = Some (ws, d')
    \<and> sector_of_words ws = disk_read_sector (ata_disk (view d)) lba
    \<and> ata_disk (view d') = ata_disk (view d) \<and> av_phase (view d') = Idle"
  using read_sector [OF assms, of lba] by (auto simp: disk_read_sector_def ata_disk_def)

text \<open>C15. Writing a sector returns, and has on the addresses that LBA28 can reach exactly the effect of the disk
  model's write; addresses that differ only in the top four bits are not told apart.\<close>

theorem ata_write_refines:
  assumes "ata_contract P view delay" "av_phase (view d) = Idle" "lba < 0x10000000"
  shows "\<exists>d'. ata_write_sector P lba (words_of_sector buf) d = Some d' \<and> av_phase (view d') = Idle
    \<and> (\<forall>lba' < 0x10000000. \<forall>i < 512. ata_disk (view d') lba' i = disk_write_sector (ata_disk (view d)) lba buf lba' i)"
proof -
  have low: "x AND 0x0FFFFFFF = x" if "x < 0x10000000" for x :: u32
  proof -
    have "take_bit 28 x = x" using that
      by (simp add: word_unat_eq_iff unsigned_take_bit_eq take_bit_nat_eq_self word_less_nat_alt)
    then show ?thesis by (simp add: take_bit_eq_mask mask_eq_exp_minus_1)
  qed
  have "length (words_of_sector buf) = 256" by (simp add: words_of_sector_def)
  from write_sector [OF assms(1,2) this, of lba] obtain d' where
    "ata_write_sector P lba (words_of_sector buf) d = Some d'"
    "av_sectors (view d') = (av_sectors (view d))(lba AND 0x0FFFFFFF := words_of_sector buf)" "av_phase (view d') = Idle" by blast
  then show ?thesis
    using assms(3) by (intro exI [of _ d']) (auto simp: ata_disk_def disk_write_sector_def low sector_words)
qed

section \<open>A drive that follows the protocol\<close>

text \<open>A drive whose state is its view and its delay, busy for three status reads after a command.\<close>

definition simple_ports :: "(ata_view \<times> nat) ports" where
  "simple_ports = \<lparr>
     p_inb = (\<lambda>port (v, n). ((if n \<noteq> 0 then 0x80 else if av_phase v \<noteq> Idle then 0x08 else 0), (v, n - 1))),
     p_inw = (\<lambda>port (v, n). case av_phase v of
         Data_in (w # ws) \<Rightarrow> (w, (v\<lparr>av_phase := if ws = [] then Idle else Data_in ws\<rparr>, n))
       | _ \<Rightarrow> (0, (v, n))),
     p_outb = (\<lambda>port b (v, n).
         if port = 0x1F6 then (v\<lparr>av_head := b\<rparr>, n) else if port = 0x1F2 then (v\<lparr>av_count := b\<rparr>, n)
         else if port = 0x1F3 then (v\<lparr>av_low := b\<rparr>, n) else if port = 0x1F4 then (v\<lparr>av_mid := b\<rparr>, n)
         else if port = 0x1F5 then (v\<lparr>av_high := b\<rparr>, n)
         else if b = 0x20 then (v\<lparr>av_phase := Data_in (take 256 (av_sectors v (av_lba v) @ replicate 256 0))\<rparr>, 3)
         else if b = 0x30 then (v\<lparr>av_phase := Data_out []\<rparr>, 3) else (v, 3)),
     p_outw = (\<lambda>port w (v, n). case av_phase v of
         Data_out ws \<Rightarrow> if length ws < 255 then (v\<lparr>av_phase := Data_out (ws @ [w])\<rparr>, n)
           else (v\<lparr>av_phase := Idle, av_sectors := (av_sectors v)(av_lba v := ws @ [w])\<rparr>, 3)
       | _ \<Rightarrow> (v, n))\<rparr>"

text \<open>The view of a state shows every sector as 256 words.\<close>

definition simple_view :: "ata_view \<times> nat \<Rightarrow> ata_view" where
  "simple_view d = (fst d)\<lparr>av_sectors := (\<lambda>lba. take 256 (av_sectors (fst d) lba @ replicate 256 0))\<rparr>"

lemma simple_contract: "ata_contract simple_ports simple_view snd"
proof -
  have "status_law simple_ports simple_view snd"
    by (auto simp: status_law_def simple_ports_def simple_view_def split: if_splits)
  moreover have "register_law simple_ports simple_view snd"
    by (auto simp: register_law_def simple_ports_def simple_view_def)
  moreover have "command_law simple_ports simple_view snd"
    by (auto simp: command_law_def simple_ports_def simple_view_def av_lba_def)
  moreover have "data_law simple_ports simple_view snd"
    by (auto simp: data_law_def simple_ports_def simple_view_def av_lba_def fun_eq_iff)
  moreover have "\<forall>d lba. length (av_sectors (simple_view d) lba) = 256" by (simp add: simple_view_def min_def)
  ultimately show ?thesis unfolding ata_contract_def by blast
qed

definition simple_drive :: "ata_view \<times> nat" where
  "simple_drive = (\<lparr>av_sectors = (\<lambda>lba. replicate 256 (ucast lba)), av_head = 0, av_count = 0, av_low = 0, av_mid = 0,
     av_high = 0, av_phase = Idle\<rparr>, 5)"

theorem ata_read_refines_witness:
  "\<exists>ws d'. ata_read_sector simple_ports 300 simple_drive = Some (ws, d')
    \<and> sector_of_words ws = disk_read_sector (ata_disk (simple_view simple_drive)) 300 \<and> av_phase (simple_view d') = Idle"
proof -
  have "av_phase (simple_view simple_drive) = Idle" by (simp add: simple_view_def simple_drive_def)
  from ata_read_refines [OF simple_contract this] show ?thesis by blast
qed

theorem ata_write_refines_witness:
  "\<exists>d'. ata_write_sector simple_ports 300 (words_of_sector (\<lambda>i. 7)) simple_drive = Some d'
    \<and> ata_disk (simple_view d') 300 511 = 7"
proof -
  have "av_phase (simple_view simple_drive) = Idle" by (simp add: simple_view_def simple_drive_def)
  moreover have "(300 :: u32) < 0x10000000" "(511 :: nat) < 512" by simp_all
  ultimately show ?thesis
    using ata_write_refines [OF simple_contract, of simple_drive 300 "\<lambda>i. 7"] by (auto simp: disk_write_sector_def)
qed

end
