(* ===== verification/Kernel.thy ===== *)
theory Kernel
  imports ShellProps Ata
begin

text \<open>
  The boot sequence of \<open>kernel/kernel.c\<close>: \<open>kernel_main\<close>, the kernel task and the start of the shell
  task, with the two polling loops on the keyboard controller over the port interface of the disk
  driver. Enabling interrupts and halting are not state of the model.
\<close>

section \<open>Texts\<close>

definition boot_step :: "string \<Rightarrow> string" where
  "boot_step label = ''[boot] '' @ label @ NL"

definition welcome_text :: string where
  "welcome_text =
     ''RinkOS kernel loaded successfully.'' @ NL @
     ''Welcome to RinkOS!'' @ NL @
     ''--------------------------------'' @ NL @
     ''Kernel is running in 32-bit protected mode.'' @ NL @
     NL @
     system_version @ NL"

section \<open>The keyboard controller\<close>

text \<open>\<open>while (inb(0x64) & 0x01) { inb(0x60); }\<close>\<close>

partial_function (option) drain_controller :: "'d ports \<Rightarrow> 'd \<Rightarrow> 'd option" where
  "drain_controller P d =
     (case p_inb P 0x64 d of (v, d) \<Rightarrow>
        if v AND 0x01 \<noteq> 0 then drain_controller P (snd (p_inb P 0x60 d)) else Some d)"

text \<open>What the shell's command \<open>reboot\<close> (\<open>Reboots\<close> in \<open>Shell\<close>) does to the controller: the device state after the reset
  pulse, or \<open>None\<close> when the controller is never ready for it. What follows the pulse (loading an empty descriptor table and
  raising an exception) does not return either.\<close>

partial_function (option) wait_controller :: "'d ports \<Rightarrow> u8 \<Rightarrow> 'd \<Rightarrow> 'd option" where
  "wait_controller P good d =
     (if good AND 0x02 \<noteq> 0 then (case p_inb P 0x64 d of (good, d) \<Rightarrow> wait_controller P good d) else Some d)"

definition reboot :: "'d ports \<Rightarrow> 'd \<Rightarrow> 'd option" where
  "reboot P d = map_option (p_outb P 0x64 0xFE) (wait_controller P 0x02 d)"

section \<open>Boot\<close>

record machine =
  m_vga :: vga
  m_idt :: "idt_entry list"
  m_idtp :: idt_ptr
  m_ports :: port_out
  m_sys :: sys

text \<open>The addresses that the linker chose.\<close>

record addresses =
  a_bss_end :: u32
  a_idt :: u32
  a_keyboard_stub :: u32
  a_timer_stub :: u32
  a_kernel :: u32
  a_shell_task :: u32

definition m_print :: "string \<Rightarrow> machine \<Rightarrow> machine" where
  "m_print str m = (case kprint str (m_vga m) of (v, out) \<Rightarrow> m\<lparr>m_vga := v, m_ports := m_ports m @ out\<rparr>)"

definition on_tasks :: "(tasking \<Rightarrow> tasking option) \<Rightarrow> machine \<Rightarrow> machine option" where
  "on_tasks f m = map_option (\<lambda>ts. m\<lparr>m_sys := (m_sys m)\<lparr>s_tasks := ts\<rparr>\<rparr>) (f (s_tasks (m_sys m)))"

text \<open>The machine's state and, behind the ports \<open>0x60\<close> and \<open>0x64\<close>, the keyboard controller \<open>d\<close>. The port
  writes that nobody reads back (the screen's cursor, the interrupt controllers) are collected in \<open>m_ports\<close>.\<close>

definition kernel_main :: "'d ports \<Rightarrow> addresses \<Rightarrow> machine \<Rightarrow> 'd \<Rightarrow> (machine \<times> 'd) option" where
  "kernel_main P a m d =
     (let m = m\<lparr>m_vga := vga_clear (m_vga m)\<rparr>;
          ts = s_tasks (m_sys m);
          m = m\<lparr>m_sys := (m_sys m)\<lparr>s_tasks := ts\<lparr>theap := kmalloc_init (a_bss_end a) (s_mmap (m_sys m)) (theap ts)\<rparr>\<rparr>\<rparr>;
          (idtp, idt) = idt_init (a_idt a) (a_keyboard_stub a) (a_timer_stub a) (m_idt m);
          m = m\<lparr>m_idtp := idtp, m_idt := idt, m_ports := m_ports m @ pic_remap\<rparr>
      in do {
        m \<leftarrow> on_tasks (Some \<circ> tasks_init) m;
        m \<leftarrow> on_tasks (\<lambda>ts. map_option snd (task_create_named (a_kernel a) ''kernel'' ts)) m;
        let m = m_print welcome_text m;
        d \<leftarrow> drain_controller P d;
        Some (m, d)
      })"

text \<open>The task \<open>kernel\<close> up to its idle loop.\<close>

definition kernel :: "'d ports \<Rightarrow> addresses \<Rightarrow> machine \<Rightarrow> 'd \<Rightarrow> (machine \<times> 'd) option" where
  "kernel P a m d = do {
     m \<leftarrow> on_tasks (\<lambda>ts. map_option snd (task_create_named (a_shell_task a) ''shell'' ts)) m;
     let m = m\<lparr>m_sys := (m_sys m)\<lparr>s_fs := fs_init (s_fs (m_sys m))\<rparr>\<rparr>;
     d \<leftarrow> drain_controller P d;
     Some (m, d)
   }"

text \<open>\<open>shell_run\<close> before its loop: the line buffer's address and the prompt.\<close>

definition shell_start :: "machine \<Rightarrow> (u32 \<times> machine) option" where
  "shell_start m = do {
     (line, h) \<leftarrow> kmalloc (of_nat LINE_BUF_SIZE) (theap (s_tasks (m_sys m)));
     Some (line, m_print ''> '' (m\<lparr>m_sys := (m_sys m)\<lparr>s_tasks := (s_tasks (m_sys m))\<lparr>theap := h\<rparr>\<rparr>\<rparr>))
   }"

definition boot :: "'d ports \<Rightarrow> addresses \<Rightarrow> machine \<Rightarrow> 'd \<Rightarrow> (u32 \<times> machine \<times> 'd) option" where
  "boot P a m d = do {
     (m, d) \<leftarrow> kernel_main P a m d;
     (m, d) \<leftarrow> kernel P a m d;
     (line, m) \<leftarrow> shell_start m;
     Some (line, m, d)
   }"

section \<open>Draining the keyboard controller\<close>

text \<open>The documented behaviour of the controller: bit 0 of the status port says whether bytes are pending, and
  reading the data port takes one.\<close>

definition controller_law :: "'d ports \<Rightarrow> ('d \<Rightarrow> nat) \<Rightarrow> bool" where
  "controller_law P waiting \<longleftrightarrow>
     (\<forall>d v d'. p_inb P 0x64 d = (v, d') \<longrightarrow> waiting d' = waiting d \<and> (v AND 0x01 \<noteq> 0 \<longleftrightarrow> waiting d \<noteq> 0)) \<and>
     (\<forall>d v d'. p_inb P 0x60 d = (v, d') \<longrightarrow> waiting d' = waiting d - 1)"

lemma drain_controller_ends:
  assumes law: "controller_law P waiting"
  shows "\<exists>d'. drain_controller P d = Some d' \<and> waiting d' = 0"
proof (induction "waiting d" arbitrary: d rule: less_induct)
  case less
  obtain v d1 where r: "p_inb P 0x64 d = (v, d1)" by (cases "p_inb P 0x64 d")
  with law have v: "waiting d1 = waiting d" "v AND 0x01 \<noteq> 0 \<longleftrightarrow> waiting d \<noteq> 0" by (auto simp: controller_law_def)
  show ?case
  proof (cases "waiting d = 0")
    case True
    with r v show ?thesis by (subst drain_controller.simps) simp
  next
    case False
    obtain x d2 where r2: "p_inb P 0x60 d1 = (x, d2)" by (cases "p_inb P 0x60 d1")
    with law v False have "waiting d2 < waiting d" by (auto simp: controller_law_def)
    from less [OF this] r r2 v False show ?thesis by (subst drain_controller.simps) simp
  qed
qed

text \<open>The controller of a queue of bytes.\<close>

definition queue_ports :: "u8 list ports" where
  "queue_ports = \<lparr>p_inb = \<lambda>port q. if port = 0x64 then (if q = [] then 0 else 1, q) else (if q = [] then 0 else hd q, tl q),
     p_inw = \<lambda>port q. (0, q), p_outb = \<lambda>port v q. q, p_outw = \<lambda>port v q. q\<rparr>"

lemma queue_ports_law: "controller_law queue_ports length"
  by (auto simp: controller_law_def queue_ports_def)

text \<open>\<open>reboot\<close>: bit 1 of the status port says that the controller has not yet taken what was written to it. When it
  takes it after some number of reads, the reset pulse is sent, to a controller that was read ready just before;
  when it never does, \<open>reboot\<close> polls for ever, with interrupts disabled.\<close>

definition input_law :: "'d ports \<Rightarrow> ('d \<Rightarrow> nat) \<Rightarrow> bool" where
  "input_law P busy \<longleftrightarrow>
     (\<forall>d v d'. p_inb P 0x64 d = (v, d') \<longrightarrow> (v AND 0x02 \<noteq> 0 \<longleftrightarrow> busy d \<noteq> 0) \<and> busy d' = busy d - 1)"

lemma wait_controller_ends:
  assumes law: "input_law P busy"
  shows "\<exists>d1 d2 v. wait_controller P 0x02 d = Some d2 \<and> p_inb P 0x64 d1 = (v, d2) \<and> v AND 0x02 = 0"
proof (induction "busy d" arbitrary: d rule: less_induct)
  case less
  have again: "wait_controller P g e = wait_controller P 0x02 e" if "g AND 0x02 \<noteq> 0" for g e
    using that by (subst (1 2) wait_controller.simps) simp
  obtain v d2 where r: "p_inb P 0x64 d = (v, d2)" by (cases "p_inb P 0x64 d")
  with law have v: "v AND 0x02 \<noteq> 0 \<longleftrightarrow> busy d \<noteq> 0" "busy d2 = busy d - 1" unfolding input_law_def by blast+
  have step: "wait_controller P 0x02 d = wait_controller P v d2" by (subst wait_controller.simps) (simp add: r)
  show ?case
  proof (cases "busy d = 0")
    case True
    then have "v AND 0x02 = 0" using v(1) by blast
    moreover from this have "wait_controller P v d2 = Some d2" by (subst wait_controller.simps) simp
    ultimately show ?thesis using r step by auto
  next
    case False
    then have "busy d2 < busy d" "v AND 0x02 \<noteq> 0" using v by simp_all
    from less [OF this(1)] again [OF this(2)] step show ?thesis by simp
  qed
qed

theorem reboot_pulses:
  assumes "input_law P busy"
  shows "\<exists>d1 d2 v. p_inb P 0x64 d1 = (v, d2) \<and> v AND 0x02 = 0 \<and> reboot P d = Some (p_outb P 0x64 0xFE d2)"
  using wait_controller_ends [OF assms, of d] by (auto simp: reboot_def)

lemma wait_controller_ready:
  assumes "wait_controller P good d = Some d'"
  shows "(\<forall>d. fst (p_inb P 0x64 d) AND 0x02 \<noteq> 0) \<longrightarrow> good AND 0x02 = 0"
proof (rule wait_controller.raw_induct [where Pa = "\<lambda>((P, good), d) _. (\<forall>d. fst (p_inb P 0x64 d) AND 0x02 \<noteq> 0) \<longrightarrow> good AND 0x02 = 0",
    OF _ assms, unfolded prod.case], intro impI, rule ccontr)
  fix wait :: "'a ports \<Rightarrow> u8 \<Rightarrow> 'a \<Rightarrow> 'a option" and P good d d'
  assume IH: "\<And>P good d d'. wait P good d = Some d' \<Longrightarrow> (\<forall>d. fst (p_inb P 0x64 d) AND 0x02 \<noteq> 0) \<longrightarrow> good AND 0x02 = 0"
    and b: "(if good AND 0x02 \<noteq> 0 then (case p_inb P 0x64 d of (good, d) \<Rightarrow> wait P good d) else Some d) = Some d'"
    and busy: "\<forall>d. fst (p_inb P 0x64 d) AND 0x02 \<noteq> 0" and g: "good AND 0x02 \<noteq> 0"
  obtain v d1 where r: "p_inb P 0x64 d = (v, d1)" by (cases "p_inb P 0x64 d")
  with b g have "wait P v d1 = Some d'" by simp
  from IH [OF this] busy have "v AND 0x02 = 0" by blast
  moreover have "v AND 0x02 \<noteq> 0" using busy r by (metis fst_conv)
  ultimately show False by blast
qed

theorem reboot_polls_forever:
  assumes "\<forall>d. fst (p_inb P 0x64 d) AND 0x02 \<noteq> 0"
  shows "reboot P d = None"
  using wait_controller_ready [of P "0x02" d] assms by (cases "wait_controller P 0x02 d") (auto simp: reboot_def)

section \<open>The system is ready after boot\<close>

lemma m_print_simps [simp]:
  "m_sys (m_print str m) = m_sys m" "m_idt (m_print str m) = m_idt m" "m_idtp (m_print str m) = m_idtp m"
  by (simp_all add: m_print_def case_prod_unfold)

text \<open>The three allocations of the boot sequence on a heap of at least 64 KiB.\<close>

lemma boot_allocations:
  assumes "heap_rep lo hi h [(lo, sz, True)]" "65524 \<le> sz"
  shows "\<exists>h1 h2 h3. kmalloc TASK_STACK_SIZE h = Some (ptr lo, h1) \<and> kmalloc TASK_STACK_SIZE h1 = Some (ptr (16396 + lo), h2)
    \<and> kmalloc 258 h2 = Some (ptr (32792 + lo), h3)"
proof -
  have a: "unat (align4 TASK_STACK_SIZE) = 16384" "unat (align4 258) = 260" "TASK_STACK_SIZE \<noteq> 0"
    by (simp_all add: unat_align4 TASK_STACK_SIZE_def)
  have p: "of_nat x + HDR = ptr x" for x by (simp add: ptr_def HDR_def add.commute)
  have aa: "abs_alloc 16384 [(lo, sz, True)] = Some (lo, [(lo, 16384, False), (16396 + lo, sz - 16396, True)])"
    "abs_alloc 16384 [(lo, 16384, False), (16396 + lo, sz - 16396, True)]
      = Some (16396 + lo, [(lo, 16384, False), (16396 + lo, 16384, False), (32792 + lo, sz - 32792, True)])"
    "abs_alloc 260 [(lo, 16384, False), (16396 + lo, 16384, False), (32792 + lo, sz - 32792, True)]
      = Some (32792 + lo, [(lo, 16384, False), (16396 + lo, 16384, False), (32792 + lo, 260, False), (33064 + lo, sz - 33064, True)])"
    using assms(2) by auto
  obtain h1 where h1: "kmalloc TASK_STACK_SIZE h = Some (ptr lo, h1)"
    "heap_rep lo hi h1 [(lo, 16384, False), (16396 + lo, sz - 16396, True)]"
    using kmalloc_refines [OF assms(1) _ a(3)] by (auto simp only: a aa p option.case prod.case list.distinct not_False_eq_True True_implies_equals)
  obtain h2 where h2: "kmalloc TASK_STACK_SIZE h1 = Some (ptr (16396 + lo), h2)"
    "heap_rep lo hi h2 [(lo, 16384, False), (16396 + lo, 16384, False), (32792 + lo, sz - 32792, True)]"
    using kmalloc_refines [OF h1(2) _ a(3)] by (auto simp only: a aa p option.case prod.case list.distinct not_False_eq_True True_implies_equals)
  have "(258 :: u32) \<noteq> 0" by simp
  from kmalloc_refines [OF h2(2) _ this] obtain h3 where "kmalloc 258 h2 = Some (ptr (32792 + lo), h3)"
    by (auto simp only: a aa p option.case prod.case list.distinct not_False_eq_True True_implies_equals)
  with h1 h2 show ?thesis by blast
qed

lemma create_shape:
  assumes "task_count s < 8" "kmalloc TASK_STACK_SIZE (theap s) = Some (p, h)"
  shows "\<exists>m. task_create_named entry nm s = Some (int (task_count s), s\<lparr>theap := h, mem := m, task_count := task_count s + 1,
    tasks := (tasks s)[task_count s := \<lparr>tk_esp = p + 16364, tk_used = True, tk_name = take 15 nm, tk_stack_base = p\<rparr>]\<rparr>)"
  using assms
  by (intro exI [of _ "(mem s)(p + 16380 := entry, p + 16376 := 0, p + 16372 := 0, p + 16368 := 0, p + 16364 := 0)"])
    (simp add: task_create_named_def MAX_TASKS_def push_word_def TASK_STACK_SIZE_def str_copy_n_take Let_def add.commute [of p])

text \<open>The two task creations of the boot sequence.\<close>

lemma two_tasks:
  assumes c: "task_count s0 = 0" "length (tasks s0) = 8"
    and h: "kmalloc TASK_STACK_SIZE (theap s0) = Some (p, h1)" "kmalloc TASK_STACK_SIZE h1 = Some (q, h2)"
  obtains s1 s2 where "task_create_named ke ''kernel'' s0 = Some (0, s1)" "task_create_named sh ''shell'' s1 = Some (1, s2)"
    "theap s2 = h2" "task_count s2 = 2"
    "tasks s2 = \<lparr>tk_esp = p + 16364, tk_used = True, tk_name = ''kernel'', tk_stack_base = p\<rparr>
       # \<lparr>tk_esp = q + 16364, tk_used = True, tk_name = ''shell'', tk_stack_base = q\<rparr> # drop 2 (tasks s0)"
proof -
  let ?e0 = "\<lparr>tk_esp = p + 16364, tk_used = True, tk_name = ''kernel'', tk_stack_base = p\<rparr>"
  let ?e1 = "\<lparr>tk_esp = q + 16364, tk_used = True, tk_name = ''shell'', tk_stack_base = q\<rparr>"
  obtain m1 where c0: "task_create_named ke ''kernel'' s0 = Some (0, s0\<lparr>theap := h1, mem := m1, task_count := 1, tasks := (tasks s0)[0 := ?e0]\<rparr>)"
    (is "_ = Some (0, ?s1)")
    using create_shape [of s0 p h1 ke "''kernel''"] c(1) h(1) by auto
  obtain m2 where c1: "task_create_named sh ''shell'' ?s1 = Some (1, ?s1\<lparr>theap := h2, mem := m2, task_count := 2, tasks := (tasks ?s1)[1 := ?e1]\<rparr>)"
    using create_shape [of ?s1 q h2 sh "''shell''"] h(2) by (auto simp: numeral_2_eq_2)
  obtain x0 x1 xs where "tasks s0 = x0 # x1 # xs" using c(2) by (cases "tasks s0"; cases "tl (tasks s0)") auto
  then show thesis by (intro that [OF c0 c1]) simp_all
qed

lemma boot_stacks:
  assumes "0 < bss_end" "bss_end \<le> 0x80000"
  obtains p q line h1 h2 h3 where "kmalloc TASK_STACK_SIZE (kmalloc_init bss_end entries h) = Some (p, h1)"
    "kmalloc TASK_STACK_SIZE h1 = Some (q, h2)" "kmalloc 258 h2 = Some (line, h3)" "p \<noteq> 0" "q \<noteq> 0" "line \<noteq> 0" "p \<noteq> q"
proof -
  let ?lo = "unat bss_end" and ?hi = "unat (find_heap_end bss_end entries)"
  have rep: "heap_rep ?lo ?hi (kmalloc_init bss_end entries h) [(?lo, ?hi - ?lo - 12, True)]"
    by (rule kmalloc_init_rep [OF assms])
  have e: "bss_end + 0x10000 \<le> find_heap_end bss_end entries" using heap_end_bounds [OF assms(2)] by blast
  have lo: "?lo \<le> 0x80000" using assms(2) by (simp add: word_le_nat_alt)
  have "unat (bss_end + 0x10000) = ?lo + 0x10000" using lo by (simp add: unat_word_ariths)
  then have "65524 \<le> ?hi - ?lo - 12" using e by (simp add: word_le_nat_alt)
  from boot_allocations [OF rep this] obtain h1 h2 h3 where h:
    "kmalloc TASK_STACK_SIZE (kmalloc_init bss_end entries h) = Some (ptr ?lo, h1)"
    "kmalloc TASK_STACK_SIZE h1 = Some (ptr (16396 + ?lo), h2)" "kmalloc 258 h2 = Some (ptr (32792 + ?lo), h3)" by blast
  have u: "unat (ptr x) = x + 12" if "x \<le> 32792 + ?lo" for x using region_unat [of x] that lo by simp
  show thesis using u [of ?lo] u [of "16396 + ?lo"] u [of "32792 + ?lo"]
    by (intro that [OF h]) (auto simp del: unat_eq_zero)
qed

text \<open>The boot sequence, step by step: it completes on every machine whose kernel image ends by \<open>0x80000\<close>.\<close>

lemma boot_steps:
  assumes "0 < a_bss_end a" "a_bss_end a \<le> 0x80000" "controller_law P waiting"
  obtains line m' d' p q s1 s2 h xs where "boot P a m d = Some (line, m', d')" "waiting d' = 0"
    "task_create_named (a_kernel a) ''kernel'' (boot_tasking (a_bss_end a) (s_mmap (m_sys m)) (s_tasks (m_sys m))) = Some (0, s1)"
    "task_create_named (a_shell_task a) ''shell'' s1 = Some (1, s2)" "kmalloc 258 (theap s2) = Some (line, h)"
    "m_sys m' = (m_sys m)\<lparr>s_fs := fs_init (s_fs (m_sys m)), s_tasks := s2\<lparr>theap := h\<rparr>\<rparr>"
    "m_idt m' = snd (idt_init (a_idt a) (a_keyboard_stub a) (a_timer_stub a) (m_idt m))"
    "p \<noteq> 0" "q \<noteq> 0" "line \<noteq> 0" "p \<noteq> q" "task_count s2 = 2"
    "tasks s2 = \<lparr>tk_esp = p + 16364, tk_used = True, tk_name = ''kernel'', tk_stack_base = p\<rparr>
       # \<lparr>tk_esp = q + 16364, tk_used = True, tk_name = ''shell'', tk_stack_base = q\<rparr> # xs"
proof -
  let ?s0 = "boot_tasking (a_bss_end a) (s_mmap (m_sys m)) (s_tasks (m_sys m))"
  obtain p q line h1 h2 h3 where h:
    "kmalloc TASK_STACK_SIZE (kmalloc_init (a_bss_end a) (s_mmap (m_sys m)) (theap (s_tasks (m_sys m)))) = Some (p, h1)"
    "kmalloc TASK_STACK_SIZE h1 = Some (q, h2)" "kmalloc 258 h2 = Some (line, h3)" "p \<noteq> 0" "q \<noteq> 0" "line \<noteq> 0" "p \<noteq> q"
    by (rule boot_stacks [OF assms(1,2)])
  have s0: "task_count ?s0 = 0" "length (tasks ?s0) = 8" "kmalloc TASK_STACK_SIZE (theap ?s0) = Some (p, h1)"
    using h(1) by (simp_all add: boot_tasking_def tasks_init_def MAX_TASKS_def)
  obtain s1 s2 where t: "task_create_named (a_kernel a) ''kernel'' ?s0 = Some (0, s1)"
    "task_create_named (a_shell_task a) ''shell'' s1 = Some (1, s2)" "theap s2 = h2" "task_count s2 = 2"
    "tasks s2 = \<lparr>tk_esp = p + 16364, tk_used = True, tk_name = ''kernel'', tk_stack_base = p\<rparr>
       # \<lparr>tk_esp = q + 16364, tk_used = True, tk_name = ''shell'', tk_stack_base = q\<rparr> # drop 2 (tasks ?s0)"
    by (rule two_tasks [OF s0 h(2)])
  obtain d1 where d1: "drain_controller P d = Some d1" using drain_controller_ends [OF assms(3)] by blast
  obtain d2 where d2: "drain_controller P d1 = Some d2" "waiting d2 = 0" using drain_controller_ends [OF assms(3)] by blast
  obtain m' where m': "boot P a m d = Some (line, m', d2)" "m_sys m' = (m_sys m)\<lparr>s_fs := fs_init (s_fs (m_sys m)), s_tasks := s2\<lparr>theap := h3\<rparr>\<rparr>"
    "m_idt m' = snd (idt_init (a_idt a) (a_keyboard_stub a) (a_timer_stub a) (m_idt m))"
    using t(1,2) h(3) d1 d2(1)
    by (simp add: boot_def kernel_main_def kernel_def shell_start_def on_tasks_def Let_def case_prod_unfold LINE_BUF_SIZE_def
        boot_tasking_def t(3))
  show thesis by (rule that [OF m'(1) d2(2) t(1,2) _ m'(2,3) h(4-7) t(4,5)]) (simp add: t(3) h(3))
qed

text \<open>C27. On every machine whose kernel image ends by \<open>0x80000\<close>, whatever the memory map and whatever bytes the
  keyboard controller holds, the boot sequence completes: no byte is left in the controller, the tasks \<open>kernel\<close> and
  \<open>shell\<close> exist with stacks of their own, the shell has its line buffer, the current directory is the root, and the
  timer and keyboard gates are installed.\<close>

theorem boot_ready:
  assumes "0 < a_bss_end a" "a_bss_end a \<le> 0x80000" "length (m_idt m) = 256" "controller_law P waiting"
  shows "\<exists>line m' d'. boot P a m d = Some (line, m', d') \<and> line \<noteq> 0 \<and> waiting d' = 0
    \<and> task_count (s_tasks (m_sys m')) = 2 \<and> map tk_name (take 2 (tasks (s_tasks (m_sys m')))) = [''kernel'', ''shell'']
    \<and> task_used (s_tasks (m_sys m')) 0 \<and> task_used (s_tasks (m_sys m')) 1
    \<and> stack_of (s_tasks (m_sys m')) 0 \<noteq> 0 \<and> stack_of (s_tasks (m_sys m')) 1 \<noteq> 0
    \<and> stack_of (s_tasks (m_sys m')) 0 \<noteq> stack_of (s_tasks (m_sys m')) 1
    \<and> fs_getcwd FS_NAME_LEN (s_fs (m_sys m')) = ''/''
    \<and> gate_base (m_idt m' ! 32) = a_timer_stub a \<and> gate_base (m_idt m' ! 33) = a_keyboard_stub a"
proof -
  obtain line m' d' p q s1 s2 h xs where b: "boot P a m d = Some (line, m', d')" "waiting d' = 0"
    "m_sys m' = (m_sys m)\<lparr>s_fs := fs_init (s_fs (m_sys m)), s_tasks := s2\<lparr>theap := h\<rparr>\<rparr>"
    "m_idt m' = snd (idt_init (a_idt a) (a_keyboard_stub a) (a_timer_stub a) (m_idt m))"
    "p \<noteq> 0" "q \<noteq> 0" "line \<noteq> 0" "p \<noteq> q" "task_count s2 = 2"
    "tasks s2 = \<lparr>tk_esp = p + 16364, tk_used = True, tk_name = ''kernel'', tk_stack_base = p\<rparr>
       # \<lparr>tk_esp = q + 16364, tk_used = True, tk_name = ''shell'', tk_stack_base = q\<rparr> # xs"
    by (rule boot_steps [OF assms(1,2,4)])
  have "fs_getcwd FS_NAME_LEN (s_fs (m_sys m')) = ''/''"
    unfolding b(3) by (simp add: fs_getcwd_def fs_init_def Let_def FS_NAME_LEN_def str_copy_n_take)
  moreover have "gate_base (m_idt m' ! 32) = a_timer_stub a" "gate_base (m_idt m' ! 33) = a_keyboard_stub a"
    unfolding b(4) idt_init_eq [OF assms(3)] by (simp_all add: gate_base_gate)
  ultimately show ?thesis
    using b(1,2,5-) by (intro exI [of _ line] exI [of _ m'] exI [of _ d']) (simp add: b(3) task_used_def stack_of_def)
qed

definition power_on :: machine where
  "power_on = \<lparr>m_vga = \<lparr>vga_buffer = replicate 2000 0, cursor_row = 0, cursor_col = 0\<rparr>,
     m_idt = replicate 256 (gate 0), m_idtp = \<lparr>idtp_limit = 0, idtp_base = 0\<rparr>, m_ports = [],
     m_sys = \<lparr>s_fs = \<lparr>fs_disk = blank_disk, fs_root = replicate 128 (dirent_at zero_sector 0), cwd_is_root = True, cwd_cluster = 0, cwd_path = ''/''\<rparr>,
       s_timer = timer_initial, s_tasks = three_tasks, s_mmap = [], s_counter_task = 0x1500, s_shell = shell_initial\<rparr>\<rparr>"

theorem boot_ready_witness:
  "\<exists>line m' d'. boot queue_ports \<lparr>a_bss_end = 0x12000, a_idt = 0x11000, a_keyboard_stub = 0x1100, a_timer_stub = 0x1200,
      a_kernel = 0x1300, a_shell_task = 0x1400\<rparr> power_on [0xFA, 0x1E] = Some (line, m', d')
    \<and> line \<noteq> 0 \<and> length d' = 0 \<and> task_count (s_tasks (m_sys m')) = 2"
proof -
  let ?a = "\<lparr>a_bss_end = 0x12000, a_idt = 0x11000, a_keyboard_stub = 0x1100, a_timer_stub = 0x1200, a_kernel = 0x1300,
      a_shell_task = 0x1400\<rparr>"
  have "0 < a_bss_end ?a" "a_bss_end ?a \<le> 0x80000" "length (m_idt power_on) = 256" by (simp_all add: power_on_def)
  from boot_ready [OF this queue_ports_law] show ?thesis by blast
qed

end
