(* ===== verification/Store.thy ===== *)
theory Store
  imports Fs
begin

text \<open>
  The FAT of a consistent volume as a store of cluster chains. \<open>store d G\<close> says that the FAT on disk
  \<open>d\<close> holds exactly the chains \<open>G\<close> (start cluster to clusters): they lie in the data area, are
  pairwise disjoint, every other data cluster is free, and the two FAT copies agree. Allocation,
  linking, release and the data-writing loops of \<open>kernel/fs.c\<close> update \<open>G\<close> as their names say.
\<close>

section \<open>Stores of chains\<close>

type_synonym chains = "u16 \<rightharpoonup> u16 list"

text \<open>Chains end in a mark that is not the mark of a free cluster.\<close>

definition closed :: "disk \<Rightarrow> chains \<Rightarrow> bool" where
  "closed d G \<longleftrightarrow> (\<forall>c xs. G c = Some xs \<longrightarrow> fat_read d (last xs) \<noteq> 0)"

definition store :: "disk \<Rightarrow> chains \<Rightarrow> bool" where
  "store d G \<longleftrightarrow>
     (\<forall>c xs. G c = Some xs \<longrightarrow> xs \<noteq> [] \<and> chain (fat_read d) c xs \<and> (\<forall>x \<in> set xs. data_cluster x)) \<and>
     (\<forall>c c' xs xs'. G c = Some xs \<longrightarrow> G c' = Some xs' \<longrightarrow> c \<noteq> c' \<longrightarrow> set xs \<inter> set xs' = {}) \<and>
     (\<forall>x. data_cluster x \<longrightarrow> fat_read d x \<noteq> 0 \<longrightarrow> (\<exists>c xs. G c = Some xs \<and> x \<in> set xs)) \<and>
     closed d G \<and> fat_mirror d"

text \<open>The clusters in use.\<close>

definition clusters :: "chains \<Rightarrow> u16 set" where
  "clusters G = \<Union> (set ` ran G)"

lemma in_clusters: "x \<in> clusters G \<longleftrightarrow> (\<exists>c xs. G c = Some xs \<and> x \<in> set xs)"
  by (auto simp: clusters_def ran_def)

lemma storeD:
  assumes "store d G" "G c = Some xs"
  shows "xs \<noteq> []" "chain (fat_read d) c xs" "x \<in> set xs \<Longrightarrow> data_cluster x" "hd xs = c" "c \<in> set xs" "data_cluster c"
    "distinct xs"
proof -
  show xs: "xs \<noteq> []" "chain (fat_read d) c xs" and data: "x \<in> set xs \<Longrightarrow> data_cluster x" for x
    using assms unfolding store_def by blast+
  show hd: "hd xs = c" using xs by (cases xs) auto
  then show "c \<in> set xs" using xs(1) hd_in_set by metis
  then show "data_cluster c" by (rule data)
  show "distinct xs" by (rule chain_distinct [OF xs(2)])
qed

lemma store_disjoint: "store d G \<Longrightarrow> G c = Some xs \<Longrightarrow> G c' = Some xs' \<Longrightarrow> c \<noteq> c' \<Longrightarrow> set xs \<inter> set xs' = {}"
  unfolding store_def by blast

lemma store_no_leak: "store d G \<Longrightarrow> data_cluster x \<Longrightarrow> fat_read d x \<noteq> 0 \<Longrightarrow> x \<in> clusters G"
  unfolding store_def in_clusters by blast

lemma store_mirror: "store d G \<Longrightarrow> fat_mirror d"
  unfolding store_def by blast

lemma chain_nonzero: "chain f c xs \<Longrightarrow> f (last xs) \<noteq> 0 \<Longrightarrow> x \<in> set xs \<Longrightarrow> f x \<noteq> 0"
proof (induction xs arbitrary: c)
  case (Cons y ys)
  show ?case
  proof (cases "x = y \<and> ys \<noteq> []")
    case True
    then obtain z zs where "ys = z # zs" by (cases ys) auto
    with Cons.prems True have "is_link (f y)" by auto
    with True show ?thesis by (auto simp: is_link_unat)
  next
    case False
    with Cons show ?thesis by (cases "ys = []") auto
  qed
qed simp

lemma store_closed: "store d G \<Longrightarrow> closed d G"
  unfolding store_def by blast

text \<open>Free clusters are those outside all chains.\<close>

lemma used_not_free:
  assumes "store d G" "x \<in> clusters G"
  shows "fat_read d x \<noteq> 0"
proof -
  obtain c xs where x: "G c = Some xs" "x \<in> set xs" using assms(2) by (auto simp: in_clusters)
  show ?thesis
    by (rule chain_nonzero [OF storeD(2) [OF assms(1) x(1)] _ x(2)]) (use store_closed [OF assms(1)] x(1) in \<open>simp add: closed_def\<close>)
qed

section \<open>Operations on a store\<close>

lemma fat_read_data: "data_cluster x \<Longrightarrow> data_cluster y \<Longrightarrow> fat_read (fat_write d x v) y = (if y = x then v else fat_read d y)"
  by (simp add: fat_read_write data_cluster_in_fat)

lemma store_alloc:
  assumes "store d G" "fat_alloc_cluster d = (n, d')" "n \<noteq> 0"
  shows "store d' (G(n \<mapsto> [n]))" "n \<notin> clusters G" "data_cluster n" "G n = None"
    "d' = fat_write d n 0xFFFF"
proof -
  note al = fat_alloc_Some [OF assms(2,3)]
  show n: "n \<notin> clusters G" using used_not_free [OF assms(1)] al(2) by blast
  show "data_cluster n" "d' = fat_write d n 0xFFFF" by (fact al)+
  show none: "G n = None"
  proof (rule ccontr)
    assume "G n \<noteq> None"
    then obtain xs where "G n = Some xs" by blast
    with storeD(5) [OF assms(1) this] n show False by (auto simp: in_clusters)
  qed
  have keep: "fat_read d' x = fat_read d x" if "data_cluster x" "x \<noteq> n" for x
    using that al(1) by (simp add: al(3) fat_read_data)
  have new: "fat_read d' n = 0xFFFF" using al(1) by (simp add: al(3) fat_read_data)
  have old: "chain (fat_read d') c xs \<and> n \<notin> set xs \<and> fat_read d' (last xs) = fat_read d (last xs)" if "G c = Some xs" for c xs
  proof -
    have "n \<notin> set xs" using n that by (auto simp: in_clusters)
    moreover have "fat_read d' x = fat_read d x" if "x \<in> set xs" for x
      using keep [OF storeD(3) [OF assms(1) \<open>G c = Some xs\<close> that]] that \<open>n \<notin> set xs\<close> by blast
    moreover have "last xs \<in> set xs" using storeD(1) [OF assms(1) that] by simp
    ultimately show ?thesis using storeD(2) [OF assms(1) that] chain_cong [of xs "fat_read d'" "fat_read d"] by auto
  qed
  have ch: "chain (fat_read d') n [n]" using new data_cluster_is_link [OF al(1)] by (simp add: is_link_unat)
  have cl: "closed d' (G(n \<mapsto> [n]))"
    using store_closed [OF assms(1)] old new unfolding closed_def by auto
  show "store d' (G(n \<mapsto> [n]))"
    unfolding store_def
  proof (intro conjI allI impI)
    fix c xs assume "(G(n \<mapsto> [n])) c = Some xs"
    then show "xs \<noteq> []" "chain (fat_read d') c xs" "\<forall>x\<in>set xs. data_cluster x"
      using storeD [OF assms(1)] old ch al(1) by (auto split: if_splits)
  next
    fix c c' xs xs' assume "(G(n \<mapsto> [n])) c = Some xs" "(G(n \<mapsto> [n])) c' = Some xs'" "c \<noteq> c'"
    then show "set xs \<inter> set xs' = {}"
      using store_disjoint [OF assms(1), of c xs c' xs'] old by (auto split: if_splits)
  next
    fix x assume "data_cluster x" "fat_read d' x \<noteq> 0"
    then have "x = n \<or> x \<in> clusters G" using store_no_leak [OF assms(1)] keep by metis
    then show "\<exists>c xs. (G(n \<mapsto> [n])) c = Some xs \<and> x \<in> set xs"
      using none by (auto simp: in_clusters) (metis option.distinct(1))
  next
    show "closed d' (G(n \<mapsto> [n]))" by (fact cl)
  next
    show "fat_mirror d'" unfolding al(3) by (rule fat_write_mirror [OF data_cluster_in_fat [OF al(1)] store_mirror [OF assms(1)]])
  qed
qed

text \<open>Writing the number of a single new cluster into the last entry of a chain joins them.\<close>

lemma store_link:
  assumes "store d G" "G c = Some xs" "G n = Some [n]" "n \<noteq> c"
  shows "store (fat_write d (last xs) n) (G(n := None, c \<mapsto> xs @ [n]))"
proof -
  let ?l = "last xs" and ?d = "fat_write d (last xs) n" and ?G = "G(n := None, c \<mapsto> xs @ [n])"
  note c = storeD [OF assms(1,2)] and nd = storeD [OF assms(1,3)]
  have l: "?l \<in> set xs" "data_cluster ?l" using c(1,3) last_in_set by blast+
  have keep: "fat_read ?d x = fat_read d x" if "data_cluster x" "x \<noteq> ?l" for x
    using that l(2) by (simp add: fat_read_data)
  have n: "n \<notin> set xs" using store_disjoint [OF assms(1,2,3)] assms(4) by auto
  have nl: "is_link n" "\<not> is_link (fat_read d n)" "fat_read ?d n = fat_read d n"
    using nd(2,6) keep [of n] l(1) n by auto
  have ch: "chain (fat_read ?d) c (xs @ [n])"
    by (rule fat.chain_extend [OF c(2,1)]) (use c(3) nd(6) n nl data_cluster_in_fat in auto)
  have other: "?l \<notin> set ys" if "G b = Some ys" "b \<noteq> c" for b ys
    using store_disjoint [OF assms(1,2) that(1)] that(2) l(1) by auto
  have old: "chain (fat_read ?d) b ys \<and> fat_read ?d (last ys) = fat_read d (last ys)" if "G b = Some ys" "b \<noteq> c" for b ys
  proof -
    have "fat_read ?d x = fat_read d x" if "x \<in> set ys" for x
      using keep [OF storeD(3) [OF assms(1) \<open>G b = Some ys\<close> that]] other [OF \<open>G b = Some ys\<close> \<open>b \<noteq> c\<close>] that by blast
    moreover have "last ys \<in> set ys" using storeD(1) [OF assms(1) that(1)] by simp
    ultimately show ?thesis using storeD(2) [OF assms(1) that(1)] chain_cong [of ys "fat_read ?d" "fat_read d"] by auto
  qed
  have G: "?G b = Some ys \<longleftrightarrow> b = c \<and> ys = xs @ [n] \<or> b \<noteq> c \<and> b \<noteq> n \<and> G b = Some ys" for b ys
    using assms(4) by auto
  have nn: "n \<notin> set ys" if "G b = Some ys" "b \<noteq> n" for b ys
    using store_disjoint [OF assms(1,3) that(1)] that(2) by auto
  have nz: "fat_read d n \<noteq> 0" using store_closed [OF assms(1)] assms(3) unfolding closed_def by force
  show ?thesis
    unfolding store_def G
  proof (intro conjI allI impI)
    fix b ys assume "b = c \<and> ys = xs @ [n] \<or> b \<noteq> c \<and> b \<noteq> n \<and> G b = Some ys"
    then show "ys \<noteq> []" "chain (fat_read ?d) b ys" "\<forall>x\<in>set ys. data_cluster x"
      using ch old [of b ys] c(3) nd(6) storeD(1,3) [OF assms(1), of b ys] by auto
  next
    fix b b' ys ys'
    assume "b = c \<and> ys = xs @ [n] \<or> b \<noteq> c \<and> b \<noteq> n \<and> G b = Some ys"
      "b' = c \<and> ys' = xs @ [n] \<or> b' \<noteq> c \<and> b' \<noteq> n \<and> G b' = Some ys'" "b \<noteq> b'"
    then show "set ys \<inter> set ys' = {}"
      using store_disjoint [OF assms(1)] assms(2) nn by auto blast+
  next
    fix x assume x: "data_cluster x" "fat_read ?d x \<noteq> 0"
    have "x \<in> clusters G"
      using x store_no_leak [OF assms(1)] keep l(1) assms(2) by (metis in_clusters)
    then obtain b ys where "G b = Some ys" "x \<in> set ys" by (auto simp: in_clusters)
    then consider "x \<in> set (xs @ [n])" | "b \<noteq> c" "b \<noteq> n" using assms(2,3) by force
    then show "\<exists>b ys. (b = c \<and> ys = xs @ [n] \<or> b \<noteq> c \<and> b \<noteq> n \<and> G b = Some ys) \<and> x \<in> set ys"
      by cases (use \<open>G b = Some ys\<close> \<open>x \<in> set ys\<close> in blast)+
  next
    show "closed ?d ?G"
      unfolding closed_def G using old store_closed [OF assms(1)] nz nl(3) by (auto simp: closed_def)
  next
    show "fat_mirror ?d" by (rule fat_write_mirror [OF data_cluster_in_fat [OF l(2)] store_mirror [OF assms(1)]])
  qed
qed

text \<open>Releasing a chain removes it.\<close>

lemma store_free:
  assumes "store d G" "G c = Some xs"
  shows "store (fat_free_chain c d) (G(c := None))"
    "\<And>lba. \<not> fat_area lba \<Longrightarrow> fat_free_chain c d lba = d lba"
proof -
  note c = storeD [OF assms]
  let ?d = "fat_free_chain c d"
  have inf: "\<forall>x\<in>set xs. in_fat x" using c(3) data_cluster_in_fat by blast
  show fr: "\<not> fat_area lba \<Longrightarrow> ?d lba = d lba" for lba by (rule fat_free_chain_frame(1) [OF c(2) inf])
  have rd: "fat_read ?d y = (if y \<in> set xs then 0 else fat_read d y)" if "data_cluster y" for y
    unfolding fat_free_chain_fold [OF c(2) inf] by (rule fold_clear(1) [OF inf data_cluster_in_fat [OF that]])
  have old: "chain (fat_read ?d) b ys \<and> fat_read ?d (last ys) = fat_read d (last ys)" if "G b = Some ys" "b \<noteq> c" for b ys
  proof -
    have "fat_read ?d x = fat_read d x" if "x \<in> set ys" for x
      using rd [OF storeD(3) [OF assms(1) \<open>G b = Some ys\<close> that]] store_disjoint [OF assms(1,2) \<open>G b = Some ys\<close>] that \<open>b \<noteq> c\<close> by auto
    moreover have "last ys \<in> set ys" using storeD(1) [OF assms(1) that(1)] by simp
    ultimately show ?thesis using storeD(2) [OF assms(1) that(1)] chain_cong [of ys "fat_read ?d" "fat_read d"] by auto
  qed
  have G: "(G(c := None)) b = Some ys \<longleftrightarrow> b \<noteq> c \<and> G b = Some ys" for b ys by auto
  show "store ?d (G(c := None))"
    unfolding store_def G
  proof (intro conjI allI impI)
    fix b ys assume "b \<noteq> c \<and> G b = Some ys"
    then show "ys \<noteq> []" "chain (fat_read ?d) b ys" "\<forall>x\<in>set ys. data_cluster x"
      using old [of b ys] storeD(1,3) [OF assms(1), of b ys] by auto
  next
    fix b b' ys ys' assume "b \<noteq> c \<and> G b = Some ys" "b' \<noteq> c \<and> G b' = Some ys'" "b \<noteq> b'"
    then show "set ys \<inter> set ys' = {}" using store_disjoint [OF assms(1)] by blast
  next
    fix x assume x: "data_cluster x" "fat_read ?d x \<noteq> 0"
    then have "x \<notin> set xs" "fat_read d x \<noteq> 0" using rd by (auto split: if_splits)
    then show "\<exists>b ys. (b \<noteq> c \<and> G b = Some ys) \<and> x \<in> set ys"
      using store_no_leak [OF assms(1) x(1)] assms(2) by (metis in_clusters option.inject)
  next
    show "closed ?d (G(c := None))"
      unfolding closed_def G using old store_closed [OF assms(1)] by (auto simp: closed_def)
  next
    show "fat_mirror ?d" by (rule fat_free_chain_frame(2) [OF c(2) inf store_mirror [OF assms(1)]])
  qed
qed

text \<open>Writes outside the two FAT copies do not touch the store.\<close>

lemma fat_read_outside:
  assumes "\<And>lba. fat_area lba \<Longrightarrow> d' lba = d lba" "in_fat c"
  shows "fat_read d' c = fat_read d c"
proof (rule fat_read_cong [OF assms(2)])
  fix k :: nat assume "k < 63"
  then have "fat_area (of_nat (301 + k))" by (simp add: fat_area_def unat_of_nat del: of_nat_add)
  then show "d' (of_nat (301 + k)) = d (of_nat (301 + k))" by (rule assms(1))
qed

lemma fat_mirror_outside:
  assumes "\<And>lba. fat_area lba \<Longrightarrow> d' lba = d lba" "fat_mirror d"
  shows "fat_mirror d'"
  unfolding fat_mirror_def
proof (intro allI impI)
  fix k assume k: "k < FS_FAT_SIZE_SECTORS"
  then have "fat_area (of_nat (FS_FAT1_LBA + k))" "fat_area (of_nat (FS_FAT2_LBA + k))"
    by (simp_all add: fat_area_def unat_of_nat del: of_nat_add)
  then show "d' (of_nat (FS_FAT1_LBA + k)) = d' (of_nat (FS_FAT2_LBA + k))"
    using assms k by (metis fat_mirror_def)
qed

lemma store_outside:
  assumes "store d G" "\<And>lba. fat_area lba \<Longrightarrow> d' lba = d lba"
  shows "store d' G"
proof -
  have rd: "fat_read d' x = fat_read d x" if "data_cluster x" for x
    by (rule fat_read_outside [OF assms(2) data_cluster_in_fat [OF that]])
  have ch: "chain (fat_read d') c xs \<and> fat_read d' (last xs) = fat_read d (last xs)" if "G c = Some xs" for c xs
  proof -
    have "fat_read d' x = fat_read d x" if "x \<in> set xs" for x
      by (rule rd [OF storeD(3) [OF assms(1) \<open>G c = Some xs\<close> that]])
    moreover have "last xs \<in> set xs" using storeD(1) [OF assms(1) that] by simp
    ultimately show ?thesis using storeD(2) [OF assms(1) that] chain_cong [of xs "fat_read d'" "fat_read d"] by auto
  qed
  show ?thesis
    unfolding store_def
  proof (intro conjI allI impI)
    fix c xs assume "G c = Some xs"
    then show "xs \<noteq> []" "chain (fat_read d') c xs" "\<forall>x\<in>set xs. data_cluster x"
      using ch storeD(1,3) [OF assms(1)] by auto
  next
    fix c c' xs xs' assume "G c = Some xs" "G c' = Some xs'" "c \<noteq> c'"
    then show "set xs \<inter> set xs' = {}" by (rule store_disjoint [OF assms(1)])
  next
    fix x assume "data_cluster x" "fat_read d' x \<noteq> 0"
    then show "\<exists>c xs. G c = Some xs \<and> x \<in> set xs"
      using store_no_leak [OF assms(1)] rd by (auto simp: in_clusters)
  next
    show "closed d' G" using ch store_closed [OF assms(1)] by (auto simp: closed_def)
  next
    show "fat_mirror d'" by (rule fat_mirror_outside [OF assms(2) store_mirror [OF assms(1)]])
  qed
qed

lemma store_sector_write:
  assumes "store d G" "\<not> fat_area lba"
  shows "store (disk_write_sector d lba buf) G"
  by (rule store_outside [OF assms(1)]) (use assms(2) in \<open>auto simp: disk_write_sector_def\<close>)

end
