(* ===== verification/Content.thy ===== *)
theory Content
  imports Store
begin

text \<open>
  The data loops of \<open>kernel/fs.c\<close> on a store of chains: what \<open>fs_write\<close> and \<open>fs_append\<close> write and how
  the chains grow, and what \<open>fs_read\<close> reads back.
\<close>

section \<open>The bytes of a chain\<close>

definition sector_bytes :: "sector \<Rightarrow> u8 list" where
  "sector_bytes b = map b [0..<512]"

definition bytes :: "disk \<Rightarrow> u16 list \<Rightarrow> u8 list" where
  "bytes d xs = concat (map (\<lambda>x. sector_bytes (d (cluster_to_lba x))) xs)"

lemma length_sector_bytes [simp]: "length (sector_bytes b) = 512"
  by (simp add: sector_bytes_def)

lemma bytes_simps [simp]:
  "bytes d [] = []"
  "bytes d (x # xs) = sector_bytes (d (cluster_to_lba x)) @ bytes d xs"
  "bytes d (xs @ ys) = bytes d xs @ bytes d ys"
  by (simp_all add: bytes_def)

lemma length_bytes [simp]: "length (bytes d xs) = 512 * length xs"
  by (induction xs) simp_all

lemma bytes_cong: "(\<And>x. x \<in> set xs \<Longrightarrow> d (cluster_to_lba x) = d' (cluster_to_lba x)) \<Longrightarrow> bytes d xs = bytes d' xs"
  by (induction xs) simp_all

lemma sector_of_bytes: "length bs \<le> 512 \<Longrightarrow> sector_bytes (sector_of bs) = bs @ replicate (512 - length bs) 0"
  by (rule nth_equalityI) (auto simp: sector_bytes_def sector_of_def put_bytes_def nth_append)

section \<open>Reading\<close>

lemma read_clusters_bytes:
  "chain (fat_read d) c xs \<Longrightarrow> sz \<le> 512 * length xs \<Longrightarrow> n = (sz + 511) div 512 \<Longrightarrow>
   read_clusters n d c sz = take sz (bytes d xs)"
proof (induction n arbitrary: c xs sz)
  case 0
  then have "sz = 0" by (auto simp: div_eq_0_iff)
  then show ?case by simp
next
  case (Suc n)
  then have "sz \<noteq> 0" by auto
  with Suc.prems obtain x ys where xs: "xs = x # ys" by (cases xs) auto
  let ?k = "if sz < 512 then sz else 512" and ?b = "d (cluster_to_lba c)"
  have link: "x = c" "is_link c" "chain (fat_read d) (fat_read d c) ys" using Suc.prems(1) xs by auto
  have "n = (sz - ?k + 511) div 512" using Suc.prems(3) \<open>sz \<noteq> 0\<close> by (auto simp: div_if)
  then have "read_clusters n d (fat_read d c) (sz - ?k) = take (sz - ?k) (bytes d ys)"
    by (intro Suc.IH [OF link(3)]) (use Suc.prems(2) xs in auto)
  moreover have "map ?b [0..<?k] = take ?k (sector_bytes ?b)"
    by (simp add: sector_bytes_def take_map)
  ultimately show ?case using link by (cases "sz < 512") (simp_all add: xs disk_simps Let_def)
qed

section \<open>Writing\<close>

text \<open>\<open>fs_write\<close> allocates as many clusters as the data needs, so its loop does what that of
  \<open>fs_append\<close> does.\<close>

lemma write_is_append:
  "n = (length data + 511) div 512 \<Longrightarrow> first = 0 \<or> prev \<noteq> 0 \<Longrightarrow>
   write_clusters n d first prev data = (case append_clusters d first prev data of (ok, f, rest, d') \<Rightarrow> (ok, f, d'))"
proof (induction n arbitrary: d first prev data)
  case 0
  then have "data = []" by (auto simp: div_eq_0_iff)
  then show ?case by (subst append_clusters.simps) simp
next
  case (Suc n)
  then have ne: "data \<noteq> []" by auto
  obtain c d1 where c: "fat_alloc_cluster d = (c, d1)" by fastforce
  have "n = (length (drop 512 data) + 511) div 512" using Suc.prems(1) ne by (auto simp: div_if)
  then show ?case
    using Suc.IH [of "drop 512 data"] Suc.prems(2) ne c
    by (subst append_clusters.simps) (auto simp: Let_def)
qed

text \<open>The store after the loop: the clusters \<open>cs'\<close> are new, their sectors hold the data piece by
  piece, and no other sector outside the FAT has changed.\<close>

definition extended :: "chains \<Rightarrow> u16 list \<Rightarrow> chains" where
  "extended G cs = (if cs = [] then G else G(hd cs \<mapsto> cs))"

definition start_of :: "u16 list \<Rightarrow> u16" where
  "start_of cs = (if cs = [] then 0 else hd cs)"

lemma data_cluster_nz: "data_cluster c \<Longrightarrow> c \<noteq> 0"
  by (auto simp: data_cluster_def)

lemma data_lba_not_fat: "data_cluster c \<Longrightarrow> \<not> fat_area (cluster_to_lba c)"
  by (rule cluster_not_fat_area [OF data_cluster_is_link])

lemma append_step:
  assumes "store d G" "cs \<noteq> [] \<Longrightarrow> G (hd cs) = Some cs" "fat_alloc_cluster d = (c, d1)" "c \<noteq> 0"
    and d2: "d2 = disk_write_sector (if cs = [] then d1 else fat_write d1 (last cs) c) (cluster_to_lba c) buf"
  shows "store d2 (extended G (cs @ [c]))" "c \<notin> clusters G" "data_cluster c" "d2 (cluster_to_lba c) = buf"
    "\<And>lba. \<not> fat_area lba \<Longrightarrow> lba \<noteq> cluster_to_lba c \<Longrightarrow> d2 lba = d lba"
proof -
  note al = store_alloc [OF assms(1,3,4)]
  show "c \<notin> clusters G" and dc: "data_cluster c" using al(2,3) by blast+
  let ?d = "if cs = [] then d1 else fat_write d1 (last cs) c"
  have fr1: "d1 lba = d lba" if "\<not> fat_area lba" for lba
    using that al(3) by (simp add: al(5) fat_write_outside data_cluster_in_fat)
  have "store ?d (extended G (cs @ [c])) \<and> (\<forall>lba. \<not> fat_area lba \<longrightarrow> ?d lba = d lba)"
  proof (cases "cs = []")
    case True
    with al(1) fr1 show ?thesis by (simp add: extended_def)
  next
    case False
    from assms(2) [OF False] have G: "G (hd cs) = Some cs" .
    have hd: "hd cs \<noteq> c" using G al(4) by auto
    have "store (fat_write d1 (last cs) c) ((G(c \<mapsto> [c]))(c := None, hd cs \<mapsto> cs @ [c]))"
      by (rule store_link [OF al(1)]) (use G hd in auto)
    moreover have "(G(c \<mapsto> [c]))(c := None, hd cs \<mapsto> cs @ [c]) = extended G (cs @ [c])"
      using al(4) False by (auto simp: extended_def fun_eq_iff)
    moreover have "in_fat (last cs)"
      using storeD(3) [OF assms(1) G] False last_in_set data_cluster_in_fat by blast
    ultimately show ?thesis using False fr1 by (simp add: fat_write_outside)
  qed
  then show "store d2 (extended G (cs @ [c]))" "d2 (cluster_to_lba c) = buf"
    "\<And>lba. \<not> fat_area lba \<Longrightarrow> lba \<noteq> cluster_to_lba c \<Longrightarrow> d2 lba = d lba"
    unfolding d2 using store_sector_write [OF _ data_lba_not_fat [OF dc]] by (auto simp: disk_write_sector_def)
qed

lemma clusters_upd: "H h = None \<Longrightarrow> clusters (H(h \<mapsto> xs)) = set xs \<union> clusters H"
  by (simp add: clusters_def)

lemma clusters_extended:
  assumes "cs \<noteq> [] \<Longrightarrow> G (hd cs) = Some cs" "G c = None"
  shows "clusters (extended G (cs @ [c])) = insert c (clusters G)"
proof (cases "cs = []")
  case True
  with assms(2) show ?thesis by (simp add: extended_def clusters_upd)
next
  case False
  let ?H = "G(hd cs := None)"
  have "G = ?H(hd cs \<mapsto> cs)" using assms(1) False by (auto simp: fun_eq_iff)
  then have "clusters G = set cs \<union> clusters ?H" using clusters_upd [of ?H "hd cs" cs] by simp
  moreover have "extended G (cs @ [c]) = ?H(hd cs \<mapsto> cs @ [c])" using False by (simp add: extended_def)
  then have "clusters (extended G (cs @ [c])) = set (cs @ [c]) \<union> clusters ?H"
    using clusters_upd [of ?H "hd cs" "cs @ [c]"] by simp
  ultimately show ?thesis by auto
qed

lemma append_clusters_store:
  assumes "append_clusters d (start_of cs) prev data = (ok, f, rest, d')"
    and "store d G" "cs \<noteq> [] \<Longrightarrow> G (hd cs) = Some cs \<and> prev = last cs"
  shows "\<exists>cs'. f = start_of (cs @ cs') \<and> store d' (extended G (cs @ cs')) \<and> rest = drop (512 * length cs') data
    \<and> (ok \<longleftrightarrow> rest = []) \<and> set cs' \<inter> clusters G = {} \<and> distinct cs' \<and> (\<forall>x\<in>set cs'. data_cluster x)
    \<and> length cs' \<le> (length data + 511) div 512
    \<and> (\<forall>i < length cs'. d' (cluster_to_lba (cs' ! i)) = sector_of (take 512 (drop (512 * i) data)))
    \<and> (\<forall>lba. \<not> fat_area lba \<longrightarrow> lba \<notin> cluster_to_lba ` set cs' \<longrightarrow> d' lba = d lba)"
  using assms
proof (induction "length data" arbitrary: d cs prev data G rule: less_induct)
  case less
  show ?case
  proof (cases "data = []")
    case True
    with less.prems(1) have "ok" "f = start_of cs" "rest = []" "d' = d"
      by (subst (asm) append_clusters.simps; simp)+
    moreover have "extended G cs = G" using less.prems(3) by (auto simp: extended_def)
    ultimately show ?thesis using True less.prems(2) by (intro exI [of _ "[]"]) simp
  next
    case ne: False
    obtain c d1 where c: "fat_alloc_cluster d = (c, d1)" by fastforce
    show ?thesis
    proof (cases "c = 0")
      case True
      with c ne less.prems(1) have "\<not> ok" "f = start_of cs" "rest = data" "d' = d1"
        by (subst (asm) append_clusters.simps; simp)+
      moreover have "d1 = d" using fat_alloc_None(1) c True by blast
      moreover have "extended G cs = G" using less.prems(3) by (auto simp: extended_def)
      ultimately show ?thesis using ne less.prems(2) by (intro exI [of _ "[]"]) simp
    next
      case False
      let ?buf = "sector_of (take 512 data)"
      define d2 where "d2 = disk_write_sector (if cs = [] then d1 else fat_write d1 (last cs) c) (cluster_to_lba c) ?buf"
      note st = append_step [OF less.prems(2) _ c False d2_def]
      have G: "cs \<noteq> [] \<Longrightarrow> G (hd cs) = Some cs" using less.prems(3) by blast
      have "start_of cs = 0 \<longleftrightarrow> cs = []" "cs \<noteq> [] \<Longrightarrow> prev \<noteq> 0"
        using storeD(3,6) [OF less.prems(2)] G less.prems(3) data_cluster_nz last_in_set by (auto simp: start_of_def)
      then have eq: "append_clusters d2 (start_of (cs @ [c])) c (drop 512 data) = (ok, f, rest, d')"
        using less.prems(1,3) ne c False
        by (subst (asm) append_clusters.simps) (cases "cs = []"; simp add: d2_def start_of_def Let_def)
      have new: "extended G (cs @ [c]) (hd (cs @ [c])) = Some (cs @ [c])" by (simp add: extended_def)
      have "length (drop 512 data) < length data" using ne by simp
      from less.hyps [OF this eq st(1) [OF G]] new obtain cs' where
        cs': "f = start_of ((cs @ [c]) @ cs')" "store d' (extended (extended G (cs @ [c])) ((cs @ [c]) @ cs'))"
          "rest = drop (512 * length cs') (drop 512 data)" "ok \<longleftrightarrow> rest = []"
          "set cs' \<inter> clusters (extended G (cs @ [c])) = {}" "distinct cs'" "\<forall>x\<in>set cs'. data_cluster x"
          "length cs' \<le> (length (drop 512 data) + 511) div 512"
          "\<forall>i < length cs'. d' (cluster_to_lba (cs' ! i)) = sector_of (take 512 (drop (512 * i) (drop 512 data)))"
          "\<forall>lba. \<not> fat_area lba \<longrightarrow> lba \<notin> cluster_to_lba ` set cs' \<longrightarrow> d' lba = d2 lba" by auto
      have cG: "c \<in> clusters (extended G (cs @ [c]))" 
        unfolding in_clusters by (intro exI conjI, rule new) simp
      have "G c = None" using store_alloc(4) [OF less.prems(2) c False] .
      then have sub: "clusters G \<subseteq> clusters (extended G (cs @ [c]))" using clusters_extended [of cs G c] G by blast
      have cc: "c \<notin> set cs'" using cs'(5) cG by blast
      have dc: "data_cluster c" by (rule st(3) [OF G])
      have "cluster_to_lba c \<notin> cluster_to_lba ` set cs'"
        using cc cs'(7) dc cluster_to_lba_inj data_cluster_is_link by auto
      then have hit: "d' (cluster_to_lba c) = ?buf"
        using cs'(10) st(4) [OF G] data_lba_not_fat [OF dc] by simp
      have ext: "extended (extended G (cs @ [c])) ((cs @ [c]) @ cs') = extended G (cs @ c # cs')"
        by (cases cs) (auto simp: extended_def fun_eq_iff)
      have "Suc (length cs') \<le> (length data + 511) div 512"
        using cs'(8) ne by (cases "length data < 512") (auto simp: div_if le_div_geq)
      moreover have "d' (cluster_to_lba ((c # cs') ! i)) = sector_of (take 512 (drop (512 * i) data))" if "i < length (c # cs')" for i
        using that hit cs'(9) by (cases i) (auto simp: add.commute)
      moreover have "rest = drop (512 * length (c # cs')) data" using cs'(3) by (simp add: add.commute)
      moreover have "set (c # cs') \<inter> clusters G = {}" using cs'(5) sub st(2) [OF G] by auto
      moreover have "d' lba = d lba" if "\<not> fat_area lba" "lba \<notin> cluster_to_lba ` set (c # cs')" for lba
        using that cs'(10) st(5) [OF G that(1)] by simp
      ultimately show ?thesis
        using cs'(1,2,4,6,7) cc dc unfolding ext by (intro exI [of _ "c # cs'"]) auto
    qed
  qed
qed

section \<open>What the written chain holds\<close>

lemma bytes_chunks:
  assumes "\<forall>i < length cs. d (cluster_to_lba (cs ! i)) = sector_of (take 512 (drop (512 * i) data))"
    and "length cs = (length data + 511) div 512"
  shows "take (length data) (bytes d cs) = data"
  using assms
proof (induction cs arbitrary: data)
  case Nil
  then show ?case by (auto simp: div_eq_0_iff)
next
  case (Cons c cs)
  have ne: "data \<noteq> []" using Cons.prems(2) by auto
  have "d (cluster_to_lba (cs ! i)) = sector_of (take 512 (drop (512 * i) (drop 512 data)))" if "i < length cs" for i
    using Cons.prems(1) [rule_format, of "Suc i"] that by (simp add: add.commute)
  moreover have "length cs = (length (drop 512 data) + 511) div 512"
    using Cons.prems(2) ne by (cases "length data < 512") (auto simp: div_if le_div_geq)
  ultimately have IH: "take (length (drop 512 data)) (bytes d cs) = drop 512 data" using Cons.IH by blast
  have c: "d (cluster_to_lba c) = sector_of (take 512 data)" using Cons.prems(1) [rule_format, of 0] by simp
  show ?case
  proof (cases "length data \<le> 512")
    case True
    then show ?thesis by (simp add: c sector_of_bytes)
  next
    case False
    with IH show ?thesis by (simp add: c sector_of_bytes)
  qed
qed

end
