(* ===== verification/Slots.thy ===== *)
theory Slots
  imports Content
begin

text \<open>
  Directory slots as a table. A slot lies in the cached root directory or in a cluster of a
  subdirectory; \<open>dir_write_entry\<close> updates exactly one, and \<open>dir_scan\<close> looks a name up in the slots of
  a directory. Also the write-through of the root directory (\<open>root_save\<close>, \<open>root_load\<close>).
\<close>

section \<open>The root directory's sectors\<close>

definition root_area :: "u32 \<Rightarrow> bool" where
  "root_area lba \<longleftrightarrow> FS_ROOT_LBA \<le> unat lba \<and> unat lba < FS_DATA_LBA"

definition root_wf :: "fs \<Rightarrow> bool" where
  "root_wf s \<longleftrightarrow> length (fs_root s) = 128 \<and> (\<forall>e \<in> set (fs_root s). wf_dirent e)"

definition root_image :: "dirent list \<Rightarrow> nat \<Rightarrow> sector" where
  "root_image root k = (\<lambda>b. root_byte root (k * 512 + b))"

lemma root_save_disk:
  "fs_disk (root_save s) lba = (if root_area lba then root_image (fs_root s) (unat lba - 427) else fs_disk s lba)"
proof -
  let ?d = "fold (\<lambda>k d. disk_write_sector d (of_nat (427 + k)) (root_image (fs_root s) k)) [0..<8] (fs_disk s)"
  have d: "fs_disk (root_save s) = ?d" by (simp add: root_save_def root_image_def)
  show ?thesis
  proof (cases "root_area lba")
    case True
    then have k: "unat lba - 427 \<in> set [0..<8]" "lba = of_nat (427 + (unat lba - 427))"
      by (auto simp: root_area_def)
    have "inj_on (\<lambda>k. of_nat (427 + k) :: u32) (set [0..<8])"
      by (auto simp: inj_on_def lba_eq_iff simp del: of_nat_add)
    then have "disk_read_sector ?d (of_nat (427 + (unat lba - 427))) = root_image (fs_root s) (unat lba - 427)"
      using k(1) by (intro dsk.rd_write_run_hit)
    then show ?thesis unfolding d using True k(2) by (simp add: disk_read_sector_def del: of_nat_add upt_rec_numeral)
  next
    case False
    have "of_nat (427 + k) \<noteq> lba" if "k \<in> set [0..<8]" for k
    proof
      assume "of_nat (427 + k) = lba"
      then have "unat lba = 427 + k" using that by (auto simp: unat_of_nat simp del: of_nat_add)
      with False that show False by (simp add: root_area_def)
    qed
    then have "disk_read_sector ?d lba = disk_read_sector (fs_disk s) lba"
      by (intro dsk.rd_write_run_other) simp
    then show ?thesis unfolding d using False by (simp add: disk_read_sector_def del: of_nat_add upt_rec_numeral)
  qed
qed

lemma root_save_simps [simp]:
  "fs_root (root_save s) = fs_root s" "cwd_is_root (root_save s) = cwd_is_root s"
  "cwd_cluster (root_save s) = cwd_cluster s" "cwd_path (root_save s) = cwd_path s"
  by (simp_all add: root_save_def)

lemma dirent_at_image:
  assumes "length root = 128" "\<forall>e\<in>set root. wf_dirent e" "k < 8" "i < 16"
  shows "dirent_at (root_image root k) i = root ! (16 * k + i)"
proof -
  let ?e = "root ! (16 * k + i)"
  have wf: "wf_dirent ?e" using assms by simp
  have "dirent_at (root_image root k) i = dirent_at (dirent_put zero_sector i ?e) i"
  proof (rule dirent_at_cong)
    fix j assume j: "32 * i \<le> j" "j < 32 * i + 32"
    then have "(k * 512 + j) div 32 = 16 * k + i" "(k * 512 + j) mod 32 = j - 32 * i"
      by (auto simp: div_nat_eqI mod_nat_eqI)
    with j show "root_image root k j = dirent_put zero_sector i ?e j"
      by (simp add: root_image_def root_byte_def dirent_put_def)
  qed
  then show ?thesis by (simp add: dirent_at_put_same [OF wf])
qed

text \<open>The on-disk root directory is the cached one.\<close>

definition root_synced :: "fs \<Rightarrow> bool" where
  "root_synced s \<longleftrightarrow> fs_root (root_load s) = fs_root s"

lemma root_load_saved:
  assumes "root_wf s" "\<And>k. k < 8 \<Longrightarrow> d (of_nat (427 + k)) = root_image (fs_root s) k"
  shows "fs_root (root_load (s\<lparr>fs_disk := d\<rparr>)) = fs_root s"
proof (rule nth_equalityI)
  show "length (fs_root (root_load (s\<lparr>fs_disk := d\<rparr>))) = length (fs_root s)"
    using assms(1) by (simp add: root_load_def root_wf_def)
  fix j assume "j < length (fs_root (root_load (s\<lparr>fs_disk := d\<rparr>)))"
  then have j: "j < 128" by (simp add: root_load_def)
  then have "j div 16 < 8" "j mod 16 < 16" by (simp_all add: less_mult_imp_div_less)
  moreover have "d (427 + of_nat (j div 16)) = root_image (fs_root s) (j div 16)"
    using assms(2) [of "j div 16"] calculation(1) by simp
  ultimately show "fs_root (root_load (s\<lparr>fs_disk := d\<rparr>)) ! j = fs_root s ! j"
    using j assms(1) dirent_at_image [of "fs_root s" "j div 16" "j mod 16"]
    by (simp add: root_load_def disk_read_sector_def root_wf_def del: upt_rec_numeral)
qed

lemma root_save_synced: "root_wf s \<Longrightarrow> root_synced (root_save s)"
proof -
  assume wf: "root_wf s"
  have "fs_disk (root_save s) (of_nat (427 + k)) = root_image (fs_root s) k" if "k < 8" for k
    using that by (simp add: root_save_disk root_area_def unat_of_nat del: of_nat_add)
  from root_load_saved [OF wf this] show ?thesis
    by (simp add: root_synced_def root_load_def)
qed

section \<open>Slots\<close>

datatype slot = Root_slot nat | Sub_slot u16 nat

definition get_slot :: "fs \<Rightarrow> slot \<Rightarrow> dirent" where
  "get_slot s sl = (case sl of Root_slot i \<Rightarrow> fs_root s ! i | Sub_slot c i \<Rightarrow> dirent_at (fs_disk s (cluster_to_lba c)) i)"

definition slot_ok :: "slot \<Rightarrow> bool" where
  "slot_ok sl \<longleftrightarrow> (case sl of Root_slot i \<Rightarrow> i < 128 | Sub_slot c i \<Rightarrow> data_cluster c \<and> i < 16)"

definition loc_slot :: "entry_loc \<Rightarrow> slot" where
  "loc_slot l = (if is_root (loc_dir l) then Root_slot (root_index l) else Sub_slot (entry_cluster l) (entry_index l))"

definition slot_loc :: "dir_ref \<Rightarrow> slot \<Rightarrow> entry_loc" where
  "slot_loc dir sl = (case sl of
     Root_slot i \<Rightarrow> \<lparr>loc_dir = dir, root_index = i, entry_cluster = 0, entry_index = 0\<rparr>
   | Sub_slot c i \<Rightarrow> \<lparr>loc_dir = dir, root_index = 0, entry_cluster = c, entry_index = i\<rparr>)"

lemma get_slot_simps [simp]:
  "get_slot s (Root_slot i) = fs_root s ! i"
  "get_slot s (Sub_slot c i) = dirent_at (fs_disk s (cluster_to_lba c)) i"
  by (simp_all add: get_slot_def)

lemma slot_ok_simps [simp]:
  "slot_ok (Root_slot i) \<longleftrightarrow> i < 128" "slot_ok (Sub_slot c i) \<longleftrightarrow> data_cluster c \<and> i < 16"
  by (simp_all add: slot_ok_def)

text \<open>The sector that writing a slot changes.\<close>

definition slot_area :: "slot \<Rightarrow> u32 \<Rightarrow> bool" where
  "slot_area sl lba \<longleftrightarrow> (case sl of Root_slot i \<Rightarrow> root_area lba | Sub_slot c i \<Rightarrow> lba = cluster_to_lba c)"

lemma dir_write_entry_fields [simp]:
  "cwd_is_root (dir_write_entry l e s) = cwd_is_root s" "cwd_cluster (dir_write_entry l e s) = cwd_cluster s"
  "cwd_path (dir_write_entry l e s) = cwd_path s"
  by (simp_all add: dir_write_entry_def Let_def)

lemma dir_write_entry_frame: "\<not> slot_area (loc_slot l) lba \<Longrightarrow> fs_disk (dir_write_entry l e s) lba = fs_disk s lba"
  by (auto simp: dir_write_entry_def loc_slot_def slot_area_def Let_def root_save_disk disk_write_sector_def split: if_splits)

lemma data_lba: "data_cluster c \<Longrightarrow> unat (cluster_to_lba c) = 433 + unat c"
  by (simp add: data_cluster_def unat_cluster_to_lba)

lemma data_not_root: "data_cluster c \<Longrightarrow> \<not> root_area (cluster_to_lba c)"
  by (simp add: root_area_def data_lba data_cluster_def)

lemma root_not_fat: "root_area lba \<Longrightarrow> \<not> fat_area lba"
  by (simp add: root_area_def fat_area_def)

lemma slot_not_fat: "slot_ok sl \<Longrightarrow> slot_area sl lba \<Longrightarrow> \<not> fat_area lba"
  by (cases sl) (auto simp: slot_area_def root_not_fat data_lba_not_fat)

lemma get_dir_write:
  assumes "slot_ok (loc_slot l)" "slot_ok sl" "wf_dirent e" "length (fs_root s) = 128"
  shows "get_slot (dir_write_entry l e s) sl = (if sl = loc_slot l then e else get_slot s sl)"
proof (cases sl)
  case (Root_slot i)
  with assms show ?thesis
    by (auto simp: dir_write_entry_def loc_slot_def Let_def nth_list_update)
next
  case (Sub_slot c i)
  show ?thesis
  proof (cases "is_root (loc_dir l)")
    case True
    then have "fs_disk (dir_write_entry l e s) (cluster_to_lba c) = fs_disk s (cluster_to_lba c)"
      using assms(2) Sub_slot by (intro dir_write_entry_frame) (simp add: loc_slot_def slot_area_def data_not_root)
    with True Sub_slot show ?thesis by (simp add: loc_slot_def)
  next
    case False
    then have "entry_cluster l = c \<longleftrightarrow> cluster_to_lba (entry_cluster l) = cluster_to_lba c"
      using assms(1,2) Sub_slot cluster_to_lba_inj [OF data_cluster_is_link data_cluster_is_link]
      by (auto simp: loc_slot_def)
    then show ?thesis
      using False Sub_slot assms(3)
      by (auto simp: dir_write_entry_def loc_slot_def Let_def disk_simps dirent_at_put_same dirent_at_put_other)
  qed
qed

lemma dir_write_root_wf: "root_wf s \<Longrightarrow> wf_dirent e \<Longrightarrow> root_wf (dir_write_entry l e s)"
  by (auto simp: root_wf_def dir_write_entry_def Let_def dest!: set_update_subset_insert [THEN subsetD])

lemma dir_write_synced:
  assumes "root_wf s" "root_synced s" "wf_dirent e" "slot_ok (loc_slot l)"
  shows "root_synced (dir_write_entry l e s)"
proof (cases "is_root (loc_dir l)")
  case True
  have "root_wf (s\<lparr>fs_root := (fs_root s)[root_index l := e]\<rparr>)"
    using assms(1,3) by (auto simp: root_wf_def dest!: set_update_subset_insert [THEN subsetD])
  from root_save_synced [OF this] True show ?thesis by (simp add: dir_write_entry_def)
next
  case False
  have "fs_disk (dir_write_entry l e s) (of_nat (427 + k)) = fs_disk s (of_nat (427 + k))" if "k < 8" for k
  proof (rule dir_write_entry_frame)
    have "root_area (of_nat (427 + k))" using that by (simp add: root_area_def unat_of_nat del: of_nat_add)
    then show "\<not> slot_area (loc_slot l) (of_nat (427 + k))"
      using False assms(4) data_not_root by (auto simp: slot_area_def loc_slot_def)
  qed
  then have "fs_root (root_load (dir_write_entry l e s)) = fs_root (root_load s)"
    by (simp add: root_load_def disk_read_sector_def less_mult_imp_div_less del: upt_rec_numeral)
  moreover have "fs_root (dir_write_entry l e s) = fs_root s"
    using False by (simp add: dir_write_entry_def Let_def)
  ultimately show ?thesis using assms(2) by (simp add: root_synced_def)
qed

end
