(* ===== verification/Lookup.thy ===== *)
theory Lookup
  imports Slots
begin

text \<open>
  Looking names up in the directories of a store of chains. A directory is known by its first
  cluster, the root by 0, as in the \<open>..\<close> entries of \<open>fs_mkdir\<close>. \<open>dir_scan\<close> finds the slot that holds
  a name, and \<open>dir_find_free\<close> an unused one, adding a cluster to the directory when it has none.
\<close>

section \<open>Directories and their slots\<close>

definition key :: "dir_ref \<Rightarrow> u16" where
  "key D = (if is_root D then 0 else dir_cluster D)"

definition in_dir :: "chains \<Rightarrow> u16 \<Rightarrow> slot \<Rightarrow> bool" where
  "in_dir G p sl \<longleftrightarrow> (case sl of
     Root_slot i \<Rightarrow> p = 0 \<and> i < 128
   | Sub_slot c i \<Rightarrow> p \<noteq> 0 \<and> i < 16 \<and> (\<exists>xs. G p = Some xs \<and> c \<in> set xs))"

lemma in_dir_simps [simp]:
  "in_dir G p (Root_slot i) \<longleftrightarrow> p = 0 \<and> i < 128"
  "in_dir G p (Sub_slot c i) \<longleftrightarrow> p \<noteq> 0 \<and> i < 16 \<and> (\<exists>xs. G p = Some xs \<and> c \<in> set xs)"
  by (simp_all add: in_dir_def)

lemma store_not_0: "store d G \<Longrightarrow> G 0 = None"
  using storeD(6) [of d G 0] data_cluster_nz by fastforce

lemma in_dir_unique: "store d G \<Longrightarrow> in_dir G p sl \<Longrightarrow> in_dir G q sl \<Longrightarrow> p = q"
  by (cases sl) (auto dest: store_disjoint)

lemma in_dir_slot_ok: "store d G \<Longrightarrow> in_dir G p sl \<Longrightarrow> slot_ok sl"
  by (cases sl) (auto dest: storeD(3))

lemma ex_slot: "(\<exists>sl. P sl) \<longleftrightarrow> (\<exists>i. P (Root_slot i)) \<or> (\<exists>c i. P (Sub_slot c i))"
  by (metis slot.exhaust)

text \<open>A directory that can be scanned.\<close>

definition dir_ok :: "chains \<Rightarrow> dir_ref \<Rightarrow> bool" where
  "dir_ok G D \<longleftrightarrow> is_root D \<or> dir_cluster D \<in> dom G"

lemma key_0: "store d G \<Longrightarrow> dir_ok G D \<Longrightarrow> key D = 0 \<longleftrightarrow> is_root D"
  using store_not_0 [of d G] by (auto simp: dir_ok_def key_def)

lemma loc_slot_loc: "store d G \<Longrightarrow> dir_ok G D \<Longrightarrow> in_dir G (key D) sl \<Longrightarrow> loc_slot (slot_loc D sl) = sl"
  using key_0 [of d G D] by (cases sl) (auto simp: loc_slot_def slot_loc_def)

definition dir_clusters :: "chains \<Rightarrow> dir_ref \<Rightarrow> u16 list" where
  "dir_clusters G D = (if is_root D then [] else the (G (dir_cluster D)))"

lemma dir_chain_clusters: "store (fs_disk s) G \<Longrightarrow> dir_ok G D \<Longrightarrow> dir_chain s D (dir_clusters G D)"
  by (auto simp: dir_ok_def dir_chain_def dir_clusters_def dest: storeD(2))

lemma set_cluster_slots: "x \<in> set (cluster_slots (fs_disk s) D c) \<longleftrightarrow>
    (\<exists>i<16. x = (get_slot s (Sub_slot c i), slot_loc D (Sub_slot c i)))"
  by (auto simp: cluster_slots_def slot_loc_def simp del: upt_rec_numeral)

lemma set_dir_slots:
  assumes "store (fs_disk s) G" "dir_ok G D"
  shows "x \<in> set (dir_slots s D (dir_clusters G D)) \<longleftrightarrow> (\<exists>sl. in_dir G (key D) sl \<and> x = (get_slot s sl, slot_loc D sl))"
proof (cases "is_root D")
  case True
  have "x \<in> set (dir_slots s D (dir_clusters G D)) \<longleftrightarrow>
      (\<exists>i<128. x = (get_slot s (Root_slot i), slot_loc D (Root_slot i)))"
    using True by (auto simp: dir_slots_def root_slots_def slot_loc_def simp del: upt_rec_numeral)
  also have "\<dots> \<longleftrightarrow> (\<exists>sl. in_dir G (key D) sl \<and> x = (get_slot s sl, slot_loc D sl))"
    using True by (auto simp: key_def ex_slot)
  finally show ?thesis .
next
  case False
  then obtain xs where G: "G (dir_cluster D) = Some xs" using assms(2) by (auto simp: dir_ok_def)
  then have nz: "dir_cluster D \<noteq> 0" using store_not_0 [OF assms(1)] by auto
  have "x \<in> set (dir_slots s D (dir_clusters G D)) \<longleftrightarrow>
      (\<exists>c\<in>set xs. \<exists>i<16. x = (get_slot s (Sub_slot c i), slot_loc D (Sub_slot c i)))"
    using False G by (simp add: dir_slots_def dir_clusters_def set_cluster_slots del: get_slot_simps)
  also have "\<dots> \<longleftrightarrow> (\<exists>sl. in_dir G (key D) sl \<and> x = (get_slot s sl, slot_loc D sl))"
    using False G nz by (auto simp: key_def ex_slot simp del: get_slot_simps)
  finally show ?thesis .
qed

lemma wf_get_slot: "root_wf s \<Longrightarrow> slot_ok sl \<Longrightarrow> wf_dirent (get_slot s sl)"
  by (cases sl) (auto simp: root_wf_def)

type_synonym fname = "u8 list \<times> u8 list"

definition ename :: "dirent \<Rightarrow> fname" where
  "ename e = (de_name e, de_ext e)"

text \<open>Slot \<open>sl\<close> of directory \<open>p\<close> holds the entry named \<open>k\<close>.\<close>

definition holds :: "chains \<Rightarrow> (slot \<Rightarrow> dirent) \<Rightarrow> u16 \<Rightarrow> fname \<Rightarrow> slot \<Rightarrow> bool" where
  "holds G \<sigma> p k sl \<longleftrightarrow> in_dir G p sl \<and> \<not> unused (\<sigma> sl) \<and> ename (\<sigma> sl) = k"

definition fname_ok :: "fname \<Rightarrow> bool" where
  "fname_ok k \<longleftrightarrow> length (fst k) = 8 \<and> length (snd k) = 3"

lemma split_name_ok: "fname_ok (split_name s)"
  using length_split_name [of s "fst (split_name s)" "snd (split_name s)"] by (simp add: fname_ok_def)

lemma slot_matches_holds:
  assumes "store (fs_disk s) G" "root_wf s" "in_dir G p sl" "fname_ok k"
  shows "slot_matches (fst k) (snd k) (get_slot s sl, l) \<longleftrightarrow> holds G (get_slot s) p k sl"
proof -
  have "wf_dirent (get_slot s sl)" using assms in_dir_slot_ok wf_get_slot by blast
  then show ?thesis
    using assms(3,4) by (cases k) (simp add: holds_def ename_def wf_dirent_def fname_ok_def fields_eq_full)
qed

text \<open>A scan finds an entry of that name, or there is none.\<close>

lemma dir_scan_holds:
  assumes "store (fs_disk s) G" "root_wf s" "dir_ok G D" "fname_ok k"
  shows "(\<exists>sl. holds G (get_slot s) (key D) k sl \<and> dir_scan s D (fst k) (snd k) = Some (Some (get_slot s sl, slot_loc D sl)))
    \<or> (\<forall>sl. \<not> holds G (get_slot s) (key D) k sl) \<and> dir_scan s D (fst k) (snd k) = Some None"
proof -
  let ?ls = "dir_slots s D (dir_clusters G D)"
  have scan: "dir_scan s D (fst k) (snd k) = Some (find (slot_matches (fst k) (snd k)) ?ls)"
    by (rule dir_scan_find [OF dir_chain_clusters [OF assms(1,3)]])
  show ?thesis
  proof (cases "find (slot_matches (fst k) (snd k)) ?ls")
    case None
    then have "\<not> slot_matches (fst k) (snd k) (get_slot s sl, slot_loc D sl)" if "in_dir G (key D) sl" for sl
      using that set_dir_slots [OF assms(1,3)] by (auto simp: find_None_iff)
    then show ?thesis
      using None scan slot_matches_holds [OF assms(1,2) _ assms(4)] by (auto simp: holds_def)
  next
    case (Some x)
    then have "x \<in> set ?ls" "slot_matches (fst k) (snd k) x" by (auto simp: find_Some_iff)
    then obtain sl where "in_dir G (key D) sl" "x = (get_slot s sl, slot_loc D sl)"
      using set_dir_slots [OF assms(1,3)] by blast
    with Some scan \<open>slot_matches _ _ x\<close> show ?thesis
      using slot_matches_holds [OF assms(1,2) _ assms(4)] by auto
  qed
qed

section \<open>Searching for a free slot\<close>

lemma last_dir_slots: "\<not> is_root D \<Longrightarrow> xs \<noteq> [] \<Longrightarrow>
    dir_slots s D xs \<noteq> [] \<and> entry_cluster (snd (last (dir_slots s D xs))) = last xs"
  by (cases xs rule: rev_cases) (auto simp: dir_slots_def cluster_slots_def last_map)

text \<open>\<open>dir_find_free\<close> returns an unused slot, fails without an effect, or adds a cleared cluster to
  the directory.\<close>

definition found_free :: "fs \<Rightarrow> chains \<Rightarrow> dir_ref \<Rightarrow> entry_loc option \<Rightarrow> fs \<Rightarrow> bool" where
  "found_free s G D r s' \<longleftrightarrow>
     (\<exists>sl. in_dir G (key D) sl \<and> unused (get_slot s sl) \<and> r = Some (slot_loc D sl) \<and> s' = s) \<or> r = None \<and> s' = s \<or>
     (\<exists>xs c d'. \<not> is_root D \<and> G (dir_cluster D) = Some xs \<and> c \<notin> clusters G \<and> data_cluster c \<and>
        r = Some (slot_loc D (Sub_slot c 0)) \<and> s' = s\<lparr>fs_disk := d'\<rparr> \<and>
        store d' (G(dir_cluster D \<mapsto> xs @ [c])) \<and> d' (cluster_to_lba c) = zero_sector \<and>
        (\<forall>lba. \<not> fat_area lba \<longrightarrow> lba \<noteq> cluster_to_lba c \<longrightarrow> d' lba = fs_disk s lba))"

lemma dir_find_free_found:
  assumes "store (fs_disk s) G" "dir_ok G D"
  shows "\<exists>r s'. dir_find_free s D = Some (r, s') \<and> found_free s G D r s'"
proof -
  let ?xs = "dir_clusters G D"
  let ?ls = "dir_slots s D ?xs"
  let ?c0 = "if is_root D then 0 else dir_cluster D"
  have free: "dir_free_from s D (dir_iter_start D) ?c0 = Some
     (case find (\<lambda>x. unused (fst x)) ?ls of
        Some (e, l) \<Rightarrow> (Some l, if is_root D then ?c0 else entry_cluster l)
      | None \<Rightarrow> (None, if is_root D \<or> ?ls = [] then ?c0 else entry_cluster (snd (last ?ls))))"
    by (rule dir_free_from_find [OF iter_yields_dir [OF dir_chain_clusters [OF assms]]])
  show ?thesis
  proof (cases "find (\<lambda>x. unused (fst x)) ?ls")
    case (Some x)
    then have "x \<in> set ?ls" "unused (fst x)" by (auto simp: find_Some_iff)
    then obtain sl where "in_dir G (key D) sl" "x = (get_slot s sl, slot_loc D sl)"
      using set_dir_slots [OF assms] by blast
    with Some free \<open>unused (fst x)\<close> show ?thesis
      by (auto simp: dir_find_free_def found_free_def)
  next
    case None
    note none = None
    show ?thesis
    proof (cases "is_root D")
      case True
      with None free show ?thesis by (auto simp: dir_find_free_def found_free_def)
    next
      case False
      then obtain xs where G: "G (dir_cluster D) = Some xs" using assms(2) by (auto simp: dir_ok_def)
      then have xs: "?xs = xs" "xs \<noteq> []" "hd xs = dir_cluster D"
        using False storeD(1,4) [OF assms(1)] by (auto simp: dir_clusters_def)
      note ll = last_dir_slots [OF False xs(2), of s]
      obtain c d1 where c: "fat_alloc_cluster (fs_disk s) = (c, d1)" by fastforce
      have res: "dir_find_free s D = Some (if c = 0 then (None, s\<lparr>fs_disk := d1\<rparr>)
          else (Some (slot_loc D (Sub_slot c 0)),
                s\<lparr>fs_disk := disk_write_sector (fat_write d1 (last xs) c) (cluster_to_lba c) zero_sector\<rparr>))"
        using None free False ll c by (simp add: dir_find_free_def xs(1) Let_def slot_loc_def)
      show ?thesis
      proof (cases "c = 0")
        case True
        then have "s\<lparr>fs_disk := d1\<rparr> = s" using fat_alloc_None(1) c by simp
        with True res show ?thesis by (simp add: found_free_def)
      next
        case c0: False
        have Gh: "xs \<noteq> [] \<Longrightarrow> G (hd xs) = Some xs" using G xs(3) by simp
        define d2 where "d2 = disk_write_sector (if xs = [] then d1 else fat_write d1 (last xs) c) (cluster_to_lba c) zero_sector"
        note st = append_step [OF assms(1) Gh c c0 d2_def]
        have "extended G (xs @ [c]) = G(dir_cluster D \<mapsto> xs @ [c])"
          using xs(2,3) by (simp add: extended_def)
        then show ?thesis
          using res c0 False G xs(2) st unfolding found_free_def
          by (auto simp: d2_def)
      qed
    qed
  qed
qed

end
