(* ===== verification/DirTree.thy ===== *)
theory DirTree
  imports Lookup
begin

text \<open>
  Directory trees. \<open>tree_ok G ds \<sigma>\<close> says that the slots \<open>\<sigma>\<close> of the root and of the directories \<open>ds\<close>
  form a tree over the chains \<open>G\<close>: every chain belongs to exactly one entry, sizes match chain
  lengths, names are unique in a directory, and \<open>.\<close> and \<open>..\<close> are what they should be. It is
  preserved when an entry is replaced, a directory grows, a directory is added or removed.
\<close>

section \<open>The invariant\<close>

definition is_dir :: "dirent \<Rightarrow> bool" where
  "is_dir e \<longleftrightarrow> de_attr e AND FS_ATTR_DIRECTORY \<noteq> 0"

text \<open>The slots of \<open>.\<close> and \<open>..\<close>.\<close>

definition dot_slot :: "u16 set \<Rightarrow> slot \<Rightarrow> bool" where
  "dot_slot ds sl \<longleftrightarrow> (case sl of Root_slot i \<Rightarrow> False | Sub_slot d i \<Rightarrow> d \<in> ds \<and> (i = 0 \<or> i = 1))"

lemma dot_slot_simps [simp]:
  "\<not> dot_slot ds (Root_slot i)" "dot_slot ds (Sub_slot d i) \<longleftrightarrow> d \<in> ds \<and> (i = 0 \<or> i = 1)"
  by (simp_all add: dot_slot_def)

definition entry_ok :: "chains \<Rightarrow> u16 set \<Rightarrow> dirent \<Rightarrow> bool" where
  "entry_ok G ds e \<longleftrightarrow> de_name e \<noteq> DOT_NAME \<and> de_name e \<noteq> DOTDOT_NAME \<and>
     (if is_dir e then first_cluster e \<in> ds
      else if first_cluster e = 0 then file_size e = 0
      else \<exists>xs. G (first_cluster e) = Some xs \<and> first_cluster e \<notin> ds \<and> length xs = (unat (file_size e) + 511) div 512)"

text \<open>A slot with an entry of its own: in use, and not one of the two dot entries.\<close>

definition owns :: "chains \<Rightarrow> u16 set \<Rightarrow> (slot \<Rightarrow> dirent) \<Rightarrow> u16 \<Rightarrow> slot \<Rightarrow> bool" where
  "owns G ds \<sigma> p sl \<longleftrightarrow> p \<in> insert 0 ds \<and> in_dir G p sl \<and> \<not> dot_slot ds sl \<and> \<not> unused (\<sigma> sl)"

definition dots_ok :: "chains \<Rightarrow> u16 set \<Rightarrow> (slot \<Rightarrow> dirent) \<Rightarrow> u16 \<Rightarrow> bool" where
  "dots_ok G ds \<sigma> d \<longleftrightarrow>
     ename (\<sigma> (Sub_slot d 0)) = (DOT_NAME, EMPTY_EXT) \<and> is_dir (\<sigma> (Sub_slot d 0)) \<and> first_cluster (\<sigma> (Sub_slot d 0)) = d \<and>
     ename (\<sigma> (Sub_slot d 1)) = (DOTDOT_NAME, EMPTY_EXT) \<and> is_dir (\<sigma> (Sub_slot d 1)) \<and>
     (\<exists>sl. owns G ds \<sigma> (first_cluster (\<sigma> (Sub_slot d 1))) sl \<and> is_dir (\<sigma> sl) \<and> first_cluster (\<sigma> sl) = d)"

definition entries_ok :: "chains \<Rightarrow> u16 set \<Rightarrow> (slot \<Rightarrow> dirent) \<Rightarrow> bool" where
  "entries_ok G ds \<sigma> \<longleftrightarrow> (\<forall>p sl. owns G ds \<sigma> p sl \<longrightarrow> entry_ok G ds (\<sigma> sl))"

definition one_owner :: "chains \<Rightarrow> u16 set \<Rightarrow> (slot \<Rightarrow> dirent) \<Rightarrow> bool" where
  "one_owner G ds \<sigma> \<longleftrightarrow> (\<forall>p q sl sl'. owns G ds \<sigma> p sl \<longrightarrow> owns G ds \<sigma> q sl' \<longrightarrow>
     first_cluster (\<sigma> sl) = first_cluster (\<sigma> sl') \<longrightarrow> first_cluster (\<sigma> sl) \<noteq> 0 \<longrightarrow> sl = sl')"

definition no_leak :: "chains \<Rightarrow> u16 set \<Rightarrow> (slot \<Rightarrow> dirent) \<Rightarrow> bool" where
  "no_leak G ds \<sigma> \<longleftrightarrow> (\<forall>c \<in> dom G. \<exists>p sl. owns G ds \<sigma> p sl \<and> first_cluster (\<sigma> sl) = c)"

definition unique_names :: "chains \<Rightarrow> u16 set \<Rightarrow> (slot \<Rightarrow> dirent) \<Rightarrow> bool" where
  "unique_names G ds \<sigma> \<longleftrightarrow>
     (\<forall>p k sl sl'. p \<in> insert 0 ds \<longrightarrow> holds G \<sigma> p k sl \<longrightarrow> holds G \<sigma> p k sl' \<longrightarrow> sl = sl')"

definition tree_ok :: "chains \<Rightarrow> u16 set \<Rightarrow> (slot \<Rightarrow> dirent) \<Rightarrow> bool" where
  "tree_ok G ds \<sigma> \<longleftrightarrow> ds \<subseteq> dom G \<and> entries_ok G ds \<sigma> \<and> one_owner G ds \<sigma> \<and> no_leak G ds \<sigma> \<and>
     (\<forall>d \<in> ds. dots_ok G ds \<sigma> d) \<and> unique_names G ds \<sigma>"

lemma tree_okD:
  assumes "tree_ok G ds \<sigma>"
  shows "ds \<subseteq> dom G" "owns G ds \<sigma> p sl \<Longrightarrow> entry_ok G ds (\<sigma> sl)"
    "owns G ds \<sigma> p sl \<Longrightarrow> owns G ds \<sigma> q sl' \<Longrightarrow> first_cluster (\<sigma> sl) = first_cluster (\<sigma> sl') \<Longrightarrow>
       first_cluster (\<sigma> sl) \<noteq> 0 \<Longrightarrow> sl = sl'"
    "c \<in> dom G \<Longrightarrow> \<exists>p sl. owns G ds \<sigma> p sl \<and> first_cluster (\<sigma> sl) = c"
    "d \<in> ds \<Longrightarrow> dots_ok G ds \<sigma> d"
    "p \<in> insert 0 ds \<Longrightarrow> holds G \<sigma> p k sl \<Longrightarrow> holds G \<sigma> p k sl' \<Longrightarrow> sl = sl'"
proof -
  have c: "entries_ok G ds \<sigma>" "one_owner G ds \<sigma>" "no_leak G ds \<sigma>" "unique_names G ds \<sigma>"
    using assms by (simp_all only: tree_ok_def)
  show "ds \<subseteq> dom G" using assms by (simp only: tree_ok_def)
  show "owns G ds \<sigma> p sl \<Longrightarrow> entry_ok G ds (\<sigma> sl)" using c(1) unfolding entries_ok_def by blast
  show "owns G ds \<sigma> p sl \<Longrightarrow> owns G ds \<sigma> q sl' \<Longrightarrow> first_cluster (\<sigma> sl) = first_cluster (\<sigma> sl') \<Longrightarrow>
       first_cluster (\<sigma> sl) \<noteq> 0 \<Longrightarrow> sl = sl'" using c(2) unfolding one_owner_def by blast
  show "c \<in> dom G \<Longrightarrow> \<exists>p sl. owns G ds \<sigma> p sl \<and> first_cluster (\<sigma> sl) = c" using c(3) unfolding no_leak_def by blast
  show "d \<in> ds \<Longrightarrow> dots_ok G ds \<sigma> d" using assms by (simp only: tree_ok_def)
  show "p \<in> insert 0 ds \<Longrightarrow> holds G \<sigma> p k sl \<Longrightarrow> holds G \<sigma> p k sl' \<Longrightarrow> sl = sl'"
    using c(4) unfolding unique_names_def by blast
qed

lemma tree_okI:
  assumes "ds \<subseteq> dom G" "\<And>p sl. owns G ds \<sigma> p sl \<Longrightarrow> entry_ok G ds (\<sigma> sl)"
    and owners: "\<And>p q sl sl'. owns G ds \<sigma> p sl \<Longrightarrow> owns G ds \<sigma> q sl' \<Longrightarrow>
       first_cluster (\<sigma> sl) = first_cluster (\<sigma> sl') \<Longrightarrow> first_cluster (\<sigma> sl) \<noteq> 0 \<Longrightarrow> sl = sl'"
    and "\<And>c. c \<in> dom G \<Longrightarrow> \<exists>p sl. owns G ds \<sigma> p sl \<and> first_cluster (\<sigma> sl) = c"
    and "\<And>d. d \<in> ds \<Longrightarrow> dots_ok G ds \<sigma> d"
    and names: "\<And>p k sl sl'. p \<in> insert 0 ds \<Longrightarrow> holds G \<sigma> p k sl \<Longrightarrow> holds G \<sigma> p k sl' \<Longrightarrow> sl = sl'"
  shows "tree_ok G ds \<sigma>"
proof -
  have "one_owner G ds \<sigma>" unfolding one_owner_def by (intro allI impI) (rule owners)
  moreover have "unique_names G ds \<sigma>" unfolding unique_names_def by (intro allI impI) (rule names)
  moreover have "entries_ok G ds \<sigma>" "no_leak G ds \<sigma>" using assms(2,4) by (simp_all only: entries_ok_def no_leak_def) blast+
  ultimately show ?thesis using assms(1,5) by (simp only: tree_ok_def)  blast
qed

text \<open>Directories lie on existing chains, the root is none of them.\<close>

lemma dirs_not_0: "store d G \<Longrightarrow> tree_ok G ds \<sigma> \<Longrightarrow> 0 \<notin> ds"
  using store_not_0 [of d G] tree_okD(1) [of G ds \<sigma>] by force

lemma in_dir_dot:
  assumes "store d G" "tree_ok G ds \<sigma>" "b \<in> ds" "i = 0 \<or> i = 1"
  shows "in_dir G b (Sub_slot b i)"
proof -
  obtain xs where G: "G b = Some xs" using tree_okD(1) [OF assms(2)] assms(3) by blast
  then have "b \<noteq> 0" "b \<in> set xs" using store_not_0 [OF assms(1)] storeD(5) [OF assms(1) G] by auto
  with G assms(4) show ?thesis by auto
qed

text \<open>Dot entries are in use; a name that is not a dot name is held by a slot that is not a dot slot.\<close>

lemma dot_names_used: "\<not> unused e" if "de_name e = DOT_NAME \<or> de_name e = DOTDOT_NAME"
proof -
  have "DOT_NAME ! 0 \<noteq> FS_DIRENT_FREE \<and> DOT_NAME ! 0 \<noteq> FS_DIRENT_DELETED \<and>
      DOTDOT_NAME ! 0 \<noteq> FS_DIRENT_FREE \<and> DOTDOT_NAME ! 0 \<noteq> FS_DIRENT_DELETED" by code_simp
  with that show ?thesis by (auto simp: unused_def)
qed

lemma dot_slot_name:
  assumes "tree_ok G ds \<sigma>" "dot_slot ds sl"
  shows "de_name (\<sigma> sl) = DOT_NAME \<or> de_name (\<sigma> sl) = DOTDOT_NAME" "\<not> unused (\<sigma> sl)" "is_dir (\<sigma> sl)"
proof -
  obtain d i where sl: "sl = Sub_slot d i" "d \<in> ds" "i = 0 \<or> i = 1" using assms(2) by (cases sl) auto
  have "dots_ok G ds \<sigma> d" by (rule tree_okD(5) [OF assms(1) sl(2)])
  then show n: "de_name (\<sigma> sl) = DOT_NAME \<or> de_name (\<sigma> sl) = DOTDOT_NAME" and "is_dir (\<sigma> sl)"
    using sl by (auto simp: dots_ok_def ename_def)
  with dot_names_used show "\<not> unused (\<sigma> sl)" by blast
qed

lemma holds_owns:
  assumes "tree_ok G ds \<sigma>" "holds G \<sigma> p k sl" "p \<in> insert 0 ds" "fst k \<noteq> DOT_NAME" "fst k \<noteq> DOTDOT_NAME"
  shows "owns G ds \<sigma> p sl"
  using assms dot_slot_name(1) [OF assms(1), of sl] by (auto simp: holds_def owns_def ename_def)

lemma owned_chain:
  assumes "tree_ok G ds \<sigma>" "owns G ds \<sigma> q sl" "first_cluster (\<sigma> sl) \<noteq> 0"
  shows "first_cluster (\<sigma> sl) \<in> dom G"
proof (cases "is_dir (\<sigma> sl)")
  case True
  with tree_okD(2) [OF assms(1,2)] have "first_cluster (\<sigma> sl) \<in> ds" by (simp add: entry_ok_def)
  then show ?thesis by (rule subsetD [OF tree_okD(1) [OF assms(1)]])
next
  case False
  with tree_okD(2) [OF assms(1,2)] assms(3) show ?thesis by (auto simp: entry_ok_def)
qed

section \<open>A step at one slot\<close>

text \<open>What the three changes below have in common: slot \<open>sl\<close> of directory \<open>p\<close> gets another entry, all other
  entries keep their owners.\<close>

definition entry_step :: "chains \<Rightarrow> u16 set \<Rightarrow> (slot \<Rightarrow> dirent) \<Rightarrow> u16 \<Rightarrow> slot \<Rightarrow> chains \<Rightarrow> u16 set \<Rightarrow> (slot \<Rightarrow> dirent) \<Rightarrow> bool" where
  "entry_step G ds \<sigma> p sl G' ds' \<sigma>' \<longleftrightarrow>
     (\<forall>q s. owns G' ds' \<sigma>' q s \<longleftrightarrow> (if s = sl then q = p \<and> \<not> unused (\<sigma>' sl) else owns G ds \<sigma> q s)) \<and>
     (\<forall>q s. owns G ds \<sigma> q s \<longrightarrow> s \<noteq> sl \<longrightarrow> \<sigma>' s = \<sigma> s)"

lemma entry_stepD:
  assumes "entry_step G ds \<sigma> p sl G' ds' \<sigma>'"
  shows "owns G' ds' \<sigma>' q s \<longleftrightarrow> (if s = sl then q = p \<and> \<not> unused (\<sigma>' sl) else owns G ds \<sigma> q s)"
    "owns G ds \<sigma> q s \<Longrightarrow> s \<noteq> sl \<Longrightarrow> \<sigma>' s = \<sigma> s"
  using assms unfolding entry_step_def by blast+

text \<open>The tree survives the step when the other entries stay right, the new one is right and has a chain of its
  own, no chain is lost, and the dot entries and names stay right.\<close>

lemma entry_step_ok:
  assumes step: "entry_step G ds \<sigma> p sl G' ds' \<sigma>'" and tr: "tree_ok G ds \<sigma>" and sub: "ds' \<subseteq> dom G'"
    and entries: "\<And>q s. owns G ds \<sigma> q s \<Longrightarrow> s \<noteq> sl \<Longrightarrow> entry_ok G' ds' (\<sigma> s)"
    and new: "\<not> unused (\<sigma>' sl) \<Longrightarrow> entry_ok G' ds' (\<sigma>' sl)"
    and own: "\<And>q s. \<not> unused (\<sigma>' sl) \<Longrightarrow> owns G ds \<sigma> q s \<Longrightarrow> s \<noteq> sl \<Longrightarrow> first_cluster (\<sigma> s) \<noteq> 0 \<Longrightarrow>
      first_cluster (\<sigma> s) \<noteq> first_cluster (\<sigma>' sl)"
    and leak: "\<And>c. c \<in> dom G' \<Longrightarrow> \<not> unused (\<sigma>' sl) \<and> c = first_cluster (\<sigma>' sl) \<or>
      (\<exists>q s. owns G ds \<sigma> q s \<and> s \<noteq> sl \<and> first_cluster (\<sigma> s) = c)"
    and dots: "\<And>b. b \<in> ds' \<Longrightarrow> dots_ok G' ds' \<sigma>' b"
    and names: "\<And>q k s s'. q \<in> insert 0 ds' \<Longrightarrow> holds G' \<sigma>' q k s \<Longrightarrow> holds G' \<sigma>' q k s' \<Longrightarrow> s = s'"
  shows "tree_ok G' ds' \<sigma>'"
proof (rule tree_okI)
  note ow = entry_stepD(1) [OF step] and at = entry_stepD(2) [OF step]
  show "entry_ok G' ds' (\<sigma>' s)" if "owns G' ds' \<sigma>' q s" for q s
    using that ow entries new at by (cases "s = sl") auto
  show "s = s'" if o: "owns G' ds' \<sigma>' q s" "owns G' ds' \<sigma>' q' s'"
    and eq: "first_cluster (\<sigma>' s) = first_cluster (\<sigma>' s')" "first_cluster (\<sigma>' s) \<noteq> 0" for q q' s s'
  proof (cases "s = sl"; cases "s' = sl")
    assume s: "s \<noteq> sl" "s' \<noteq> sl"
    then have "owns G ds \<sigma> q s" "owns G ds \<sigma> q' s'" using o ow by simp_all
    with tree_okD(3) [OF tr this] eq at s show ?thesis by simp
  next
    assume s: "s = sl" "s' \<noteq> sl"
    then have "\<not> unused (\<sigma>' sl)" "owns G ds \<sigma> q' s'" using o ow by simp_all
    with own [OF this s(2)] eq at s show ?thesis by simp
  next
    assume s: "s \<noteq> sl" "s' = sl"
    then have "\<not> unused (\<sigma>' sl)" "owns G ds \<sigma> q s" using o ow by simp_all
    with own [OF this s(1)] eq at s show ?thesis by simp
  qed simp
  show "\<exists>q s. owns G' ds' \<sigma>' q s \<and> first_cluster (\<sigma>' s) = c" if "c \<in> dom G'" for c
    using leak [OF that]
  proof (elim disjE exE conjE)
    assume "\<not> unused (\<sigma>' sl)" "c = first_cluster (\<sigma>' sl)"
    then show ?thesis using ow by (intro exI [of _ p] exI [of _ sl]) simp
  next
    fix q s assume "owns G ds \<sigma> q s" "s \<noteq> sl" "first_cluster (\<sigma> s) = c"
    then show ?thesis using ow at by (intro exI [of _ q] exI [of _ s]) simp
  qed
qed (fact sub dots names)+

lemma entry_step_dots:
  assumes step: "entry_step G ds \<sigma> p sl G' ds' \<sigma>'" and dk: "dots_ok G ds \<sigma> b"
    and eq: "\<sigma>' (Sub_slot b 0) = \<sigma> (Sub_slot b 0)" "\<sigma>' (Sub_slot b 1) = \<sigma> (Sub_slot b 1)"
    and owner: "\<And>q. owns G ds \<sigma> q sl \<Longrightarrow> is_dir (\<sigma> sl) \<Longrightarrow> first_cluster (\<sigma> sl) = b \<Longrightarrow>
      q = p \<and> \<not> unused (\<sigma>' sl) \<and> is_dir (\<sigma>' sl) \<and> first_cluster (\<sigma>' sl) = b"
  shows "dots_ok G' ds' \<sigma>' b"
proof -
  let ?par = "first_cluster (\<sigma> (Sub_slot b 1))"
  obtain s where o: "owns G ds \<sigma> ?par s" "is_dir (\<sigma> s)" "first_cluster (\<sigma> s) = b" using dk unfolding dots_ok_def by blast
  have "owns G' ds' \<sigma>' ?par s \<and> is_dir (\<sigma>' s) \<and> first_cluster (\<sigma>' s) = b"
    using o owner [of ?par] entry_stepD [OF step] by (cases "s = sl") auto
  with dk show ?thesis unfolding dots_ok_def eq by blast
qed

text \<open>Names stay unique when the slot's new name is not taken.\<close>

lemma names_step:
  assumes tr: "tree_ok G ds \<sigma>" and q: "q \<in> insert 0 ds"
    and hold: "\<And>s. holds G' \<sigma>' q k s \<longleftrightarrow> (if s = sl then q = p \<and> \<not> unused e \<and> ename e = k else holds G \<sigma> q k s)"
    and clash: "\<And>s. \<not> unused e \<Longrightarrow> holds G \<sigma> p (ename e) s \<Longrightarrow> s = sl"
    and h: "holds G' \<sigma>' q k s" "holds G' \<sigma>' q k s'"
  shows "s = s'"
proof (cases "s = sl \<or> s' = sl")
  case True
  with h clash show ?thesis unfolding hold by (metis (full_types))
next
  case False
  with h have "holds G \<sigma> q k s" "holds G \<sigma> q k s'" unfolding hold by simp_all
  then show ?thesis by (rule tree_okD(6) [OF tr q])
qed

section \<open>Replacing an entry\<close>

text \<open>Directories keep their chains when the chains of files change.\<close>

lemma in_dir_cong: "(\<And>d. d \<in> ds \<Longrightarrow> G' d = G d) \<Longrightarrow> p \<in> insert 0 ds \<Longrightarrow> in_dir G' p sl \<longleftrightarrow> in_dir G p sl"
  by (cases sl) auto

lemma put_step:
  assumes st: "store d G" and sl: "p \<in> insert 0 ds" "in_dir G p sl" "\<not> dot_slot ds sl"
    and \<sigma>': "\<And>q s. q \<in> insert 0 ds \<Longrightarrow> in_dir G q s \<Longrightarrow> s \<noteq> sl \<Longrightarrow> \<sigma>' s = \<sigma> s"
    and dirs: "\<And>b. b \<in> ds \<Longrightarrow> G' b = G b"
  shows "entry_step G ds \<sigma> p sl G' ds \<sigma>'"
proof -
  have in_dir: "in_dir G' q s \<longleftrightarrow> in_dir G q s" if "q \<in> insert 0 ds" for q s
    by (rule in_dir_cong [OF dirs that])
  have "owns G' ds \<sigma>' q s \<longleftrightarrow> (if s = sl then q = p \<and> \<not> unused (\<sigma>' sl) else owns G ds \<sigma> q s)" for q s
  proof (cases "q \<in> insert 0 ds \<and> in_dir G q s")
    case True
    then have "in_dir G' q s" "s = sl \<Longrightarrow> q = p" using in_dir [of q s] in_dir_unique [OF st sl(2)] by blast+
    with True sl(3) \<sigma>' [of q s] show ?thesis by (cases "s = sl") (simp_all add: owns_def)
  next
    case False
    then have "\<not> owns G ds \<sigma> q s" "\<not> owns G' ds \<sigma>' q s" using in_dir [of q s] unfolding owns_def by blast+
    with False sl(1,2) show ?thesis by auto
  qed
  moreover have "\<sigma>' s = \<sigma> s" if "owns G ds \<sigma> q s" "s \<noteq> sl" for q s using \<sigma>' that unfolding owns_def by blast
  ultimately show ?thesis unfolding entry_step_def by blast
qed

lemma put_holds:
  assumes st: "store d G" and sl: "p \<in> insert 0 ds" "in_dir G p sl" and q: "q \<in> insert 0 ds"
    and \<sigma>': "\<And>q s. q \<in> insert 0 ds \<Longrightarrow> in_dir G q s \<Longrightarrow> s \<noteq> sl \<Longrightarrow> \<sigma>' s = \<sigma> s"
    and dirs: "\<And>b. b \<in> ds \<Longrightarrow> G' b = G b"
  shows "holds G' \<sigma>' q k s \<longleftrightarrow> (if s = sl then q = p \<and> \<not> unused (\<sigma>' sl) \<and> ename (\<sigma>' sl) = k else holds G \<sigma> q k s)"
proof -
  have in_dir: "in_dir G' q s \<longleftrightarrow> in_dir G q s" by (rule in_dir_cong [OF dirs q])
  show ?thesis
  proof (cases "in_dir G q s")
    case True
    then have "in_dir G' q s" "s = sl \<Longrightarrow> q = p" using in_dir in_dir_unique [OF st sl(2)] by blast+
    with True \<sigma>' [OF q True] show ?thesis by (cases "s = sl") (auto simp: holds_def)
  next
    case False
    then show ?thesis using in_dir sl(2) by (auto simp: holds_def)
  qed
qed

lemma tree_put:
  assumes st: "store d G" and tr: "tree_ok G ds \<sigma>"
    and sl: "p \<in> insert 0 ds" "in_dir G p sl" "\<not> dot_slot ds sl"
    and \<sigma>': "\<sigma>' sl = e" "\<And>q sl'. q \<in> insert 0 ds \<Longrightarrow> in_dir G q sl' \<Longrightarrow> sl' \<noteq> sl \<Longrightarrow> \<sigma>' sl' = \<sigma> sl'"
    and dirs: "\<And>b. b \<in> ds \<Longrightarrow> G' b = G b"
    and old: "\<not> unused (\<sigma> sl) \<Longrightarrow> is_dir (\<sigma> sl) \<Longrightarrow> \<not> unused e \<and> is_dir e \<and> first_cluster e = first_cluster (\<sigma> sl)"
    and new: "\<not> unused e \<Longrightarrow> entry_ok G' ds e \<and> (\<forall>sl'. holds G \<sigma> p (ename e) sl' \<longrightarrow> sl' = sl) \<and>
      (first_cluster e \<in> dom G \<longrightarrow> \<not> unused (\<sigma> sl) \<and> first_cluster e = first_cluster (\<sigma> sl))"
    and dom: "\<And>c. c \<in> dom G' \<longleftrightarrow> c \<in> dom G \<and> \<not> (\<not> unused (\<sigma> sl) \<and> c = first_cluster (\<sigma> sl))
      \<or> \<not> unused e \<and> first_cluster e \<noteq> 0 \<and> c = first_cluster e"
    and keep: "\<And>c. c \<in> dom G \<Longrightarrow> \<not> (\<not> unused (\<sigma> sl) \<and> c = first_cluster (\<sigma> sl)) \<Longrightarrow> G' c = G c"
  shows "tree_ok G' ds \<sigma>'"
proof -
  have ow_sl: "owns G ds \<sigma> p sl \<longleftrightarrow> \<not> unused (\<sigma> sl)" using sl by (simp add: owns_def)
  have fresh: "\<not> (\<not> unused (\<sigma> sl) \<and> first_cluster (\<sigma> s) = first_cluster (\<sigma> sl))"
    if "owns G ds \<sigma> q s" "s \<noteq> sl" "first_cluster (\<sigma> s) \<noteq> 0" for q s
    using that tree_okD(3) [OF tr, of q s p sl] ow_sl by auto
  note owned = owned_chain [OF tr]
  have step: "entry_step G ds \<sigma> p sl G' ds \<sigma>'" by (rule put_step [OF st sl \<sigma>'(2) dirs])
  show ?thesis
  proof (rule entry_step_ok [OF step tr]; (unfold \<sigma>'(1))?)
    show "ds \<subseteq> dom G'" using tree_okD(1) [OF tr] dirs by (auto simp: domIff subset_iff)
    show "entry_ok G' ds (\<sigma> s)" if "owns G ds \<sigma> q s" "s \<noteq> sl" for q s
      using tree_okD(2) [OF tr that(1)] keep [OF owned [OF that(1)] fresh [OF that]] by (auto simp: entry_ok_def)
    show "entry_ok G' ds e" if "\<not> unused e" using new [OF that] by blast
    show "first_cluster (\<sigma> s) \<noteq> first_cluster e"
      if "\<not> unused e" "owns G ds \<sigma> q s" "s \<noteq> sl" "first_cluster (\<sigma> s) \<noteq> 0" for q s
      using new [OF that(1)] fresh [OF that(2-4)] owned [OF that(2,4)] by metis
    show "\<not> unused e \<and> c = first_cluster e \<or> (\<exists>q s. owns G ds \<sigma> q s \<and> s \<noteq> sl \<and> first_cluster (\<sigma> s) = c)"
      if "c \<in> dom G'" for c
    proof (cases "\<not> unused e \<and> c = first_cluster e")
      case False
      then have c: "c \<in> dom G" "\<not> (\<not> unused (\<sigma> sl) \<and> c = first_cluster (\<sigma> sl))" using dom that by blast+
      from tree_okD(4) [OF tr c(1)] c(2) show ?thesis by (auto simp: owns_def)
    qed blast
    show "dots_ok G' ds \<sigma>' b" if b: "b \<in> ds" for b
    proof (rule entry_step_dots [OF step tree_okD(5) [OF tr b]])
      have "\<sigma>' (Sub_slot b i) = \<sigma> (Sub_slot b i)" if i: "i = 0 \<or> i = 1" for i
      proof (rule \<sigma>'(2))
        show "b \<in> insert 0 ds" "Sub_slot b i \<noteq> sl" using sl(3) b i by auto
        show "in_dir G b (Sub_slot b i)" by (rule in_dir_dot [OF st tr b i])
      qed
      then show "\<sigma>' (Sub_slot b 0) = \<sigma> (Sub_slot b 0)" "\<sigma>' (Sub_slot b 1) = \<sigma> (Sub_slot b 1)" by blast+
      show "q = p \<and> \<not> unused (\<sigma>' sl) \<and> is_dir (\<sigma>' sl) \<and> first_cluster (\<sigma>' sl) = b"
        if "owns G ds \<sigma> q sl" "is_dir (\<sigma> sl)" "first_cluster (\<sigma> sl) = b" for q
        using that old in_dir_unique [OF st sl(2)] unfolding \<sigma>'(1) by (auto simp: owns_def)
    qed
    show "s = s'" if "q \<in> insert 0 ds" "holds G' \<sigma>' q k s" "holds G' \<sigma>' q k s'" for q k s s'
      using put_holds [OF st sl(1,2) that(1) \<sigma>'(2) dirs, where k = k] new
      by (intro names_step [OF tr that(1) _ _ that(2,3), where sl = sl and e = e and p = p]) (simp_all add: \<sigma>'(1))
  qed
qed

section \<open>A directory grows\<close>

lemma not_in_dir_fresh: "c \<notin> clusters G \<Longrightarrow> \<not> in_dir G q (Sub_slot c i)"
  by (auto simp: in_clusters)

lemma fresh_no_dir: "store d G \<Longrightarrow> tree_ok G ds \<sigma> \<Longrightarrow> c \<notin> clusters G \<Longrightarrow> G c = None \<and> c \<notin> ds"
proof -
  assume st: "store d G" and tr: "tree_ok G ds \<sigma>" and c: "c \<notin> clusters G"
  have none: "G c = None"
  proof (cases "G c")
    case (Some xs)
    with storeD(5) [OF st Some] c show ?thesis by (auto simp: in_clusters)
  qed simp
  moreover have "c \<notin> ds" using none tree_okD(1) [OF tr] by blast
  ultimately show ?thesis by blast
qed

text \<open>Directory \<open>b\<close> gets the cleared cluster \<open>c\<close>.\<close>

definition grown :: "chains \<Rightarrow> (slot \<Rightarrow> dirent) \<Rightarrow> u16 \<Rightarrow> u16 \<Rightarrow> chains \<Rightarrow> (slot \<Rightarrow> dirent) \<Rightarrow> bool" where
  "grown G \<sigma> b c G' \<sigma>' \<longleftrightarrow> (\<exists>xs. G b = Some xs \<and> G' = G(b \<mapsto> xs @ [c])) \<and> c \<notin> clusters G \<and> b \<noteq> 0 \<and>
     (\<forall>q sl. in_dir G q sl \<longrightarrow> \<sigma>' sl = \<sigma> sl) \<and> (\<forall>i<16. unused (\<sigma>' (Sub_slot c i)))"

lemma grown_in_dir: "grown G \<sigma> b c G' \<sigma>' \<Longrightarrow> in_dir G' q sl \<longleftrightarrow> in_dir G q sl \<or> q = b \<and> (\<exists>i<16. sl = Sub_slot c i)"
  by (cases sl) (auto simp: grown_def split: if_splits)

lemma grown_same:
  assumes "grown G \<sigma> b c G' \<sigma>'"
  shows "in_dir G q sl \<Longrightarrow> \<sigma>' sl = \<sigma> sl" "i < 16 \<Longrightarrow> unused (\<sigma>' (Sub_slot c i))"
  using assms unfolding grown_def by blast+

lemma grown_holds: "grown G \<sigma> b c G' \<sigma>' \<Longrightarrow> holds G' \<sigma>' q k sl \<longleftrightarrow> holds G \<sigma> q k sl"
  using grown_same [of G \<sigma> b c G' \<sigma>'] grown_in_dir [of G \<sigma> b c G' \<sigma>' q sl] unfolding holds_def by metis

lemma grown_owns: "grown G \<sigma> b c G' \<sigma>' \<Longrightarrow> owns G' ds \<sigma>' q sl \<longleftrightarrow> owns G ds \<sigma> q sl"
  using grown_same [of G \<sigma> b c G' \<sigma>'] grown_in_dir [of G \<sigma> b c G' \<sigma>' q sl] unfolding owns_def by metis

lemma grown_owner: "grown G \<sigma> b c G' \<sigma>' \<Longrightarrow> owns G ds \<sigma> q sl \<Longrightarrow> \<sigma>' sl = \<sigma> sl"
  using grown_same(1) [of G \<sigma> b c G' \<sigma>' q sl] unfolding owns_def by blast

lemma tree_extend:
  assumes st: "store d G" and tr: "tree_ok G ds \<sigma>" and b: "b \<in> ds" and gr: "grown G \<sigma> b c G' \<sigma>'"
  shows "tree_ok G' ds \<sigma>'"
proof -
  note ow = grown_owns [OF gr] and same = grown_owner [OF gr]
  obtain xs where G: "G b = Some xs" "G' = G(b \<mapsto> xs @ [c])" using gr unfolding grown_def by blast
  then have dom: "dom G' = dom G" and other: "a \<noteq> b \<Longrightarrow> G' a = G a" for a by auto
  show ?thesis
  proof (rule tree_okI)
    show "ds \<subseteq> dom G'" unfolding dom by (rule tree_okD(1) [OF tr])
  next
    fix q sl assume "owns G' ds \<sigma>' q sl"
    then have o: "owns G ds \<sigma> q sl" by (simp only: ow)
    have e: "entry_ok G ds (\<sigma> sl)" by (rule tree_okD(2) [OF tr o])
    show "entry_ok G' ds (\<sigma>' sl)"
    proof (cases "first_cluster (\<sigma> sl) = b")
      case True
      with e b have "is_dir (\<sigma> sl)" using dirs_not_0 [OF st tr] by (auto simp: entry_ok_def split: if_splits)
      with e show ?thesis by (simp add: entry_ok_def same [OF o])
    next
      case False
      with e show ?thesis by (simp add: entry_ok_def same [OF o] other)
    qed
  next
    fix q q' sl sl' assume "owns G' ds \<sigma>' q sl" "owns G' ds \<sigma>' q' sl'"
      and eq: "first_cluster (\<sigma>' sl) = first_cluster (\<sigma>' sl')" "first_cluster (\<sigma>' sl) \<noteq> 0"
    then have o: "owns G ds \<sigma> q sl" "owns G ds \<sigma> q' sl'" by (simp_all only: ow)
    show "sl = sl'" by (rule tree_okD(3) [OF tr o]) (use eq in \<open>simp_all only: same [OF o(1)] same [OF o(2)] not_False_eq_True\<close>)
  next
    fix a assume "a \<in> dom G'"
    then have "a \<in> dom G" by (simp only: dom)
    from tree_okD(4) [OF tr this] obtain q sl where o: "owns G ds \<sigma> q sl" "first_cluster (\<sigma> sl) = a" by blast
    then show "\<exists>q sl. owns G' ds \<sigma>' q sl \<and> first_cluster (\<sigma>' sl) = a"
      by (intro exI [of _ q] exI [of _ sl]) (simp add: ow same [OF o(1)])
  next
    fix a assume a: "a \<in> ds"
    have eq: "\<sigma>' (Sub_slot a 0) = \<sigma> (Sub_slot a 0)" "\<sigma>' (Sub_slot a 1) = \<sigma> (Sub_slot a 1)"
      by (rule grown_same(1) [OF gr in_dir_dot [OF st tr a]], simp)+
    have dk: "dots_ok G ds \<sigma> a" by (rule tree_okD(5) [OF tr a])
    then obtain sl where sl: "owns G ds \<sigma> (first_cluster (\<sigma> (Sub_slot a 1))) sl" "is_dir (\<sigma> sl)" "first_cluster (\<sigma> sl) = a"
      unfolding dots_ok_def by blast
    then have "owns G' ds \<sigma>' (first_cluster (\<sigma> (Sub_slot a 1))) sl" "is_dir (\<sigma>' sl)" "first_cluster (\<sigma>' sl) = a"
      by (simp_all add: ow same [OF sl(1)])
    with dk show "dots_ok G' ds \<sigma>' a" unfolding dots_ok_def eq by blast
  next
    fix q k sl sl' assume "q \<in> insert 0 ds" "holds G' \<sigma>' q k sl" "holds G' \<sigma>' q k sl'"
    then show "sl = sl'" unfolding grown_holds [OF gr] by (rule tree_okD(6) [OF tr])
  qed
qed

section \<open>Directories are added and removed\<close>

text \<open>The slots of the new directory \<open>c\<close> with the parent \<open>p\<close>.\<close>

definition fresh_dir :: "(slot \<Rightarrow> dirent) \<Rightarrow> u16 \<Rightarrow> u16 \<Rightarrow> bool" where
  "fresh_dir \<sigma> c p \<longleftrightarrow>
     ename (\<sigma> (Sub_slot c 0)) = (DOT_NAME, EMPTY_EXT) \<and> is_dir (\<sigma> (Sub_slot c 0)) \<and> first_cluster (\<sigma> (Sub_slot c 0)) = c \<and>
     ename (\<sigma> (Sub_slot c 1)) = (DOTDOT_NAME, EMPTY_EXT) \<and> is_dir (\<sigma> (Sub_slot c 1)) \<and> first_cluster (\<sigma> (Sub_slot c 1)) = p \<and>
     (\<forall>i<16. 2 \<le> i \<longrightarrow> unused (\<sigma> (Sub_slot c i)))"

lemma dot_names: "DOT_NAME \<noteq> DOTDOT_NAME"
  by code_simp

lemma add_dir_slots:
  assumes "store d G" "tree_ok G ds \<sigma>" "c \<notin> clusters G" "c \<noteq> 0"
  shows "in_dir (G(c \<mapsto> [c])) q s \<longleftrightarrow> in_dir G q s \<or> q = c \<and> (\<exists>i<16. s = Sub_slot c i)" "\<not> in_dir G c s"
    "in_dir G q s \<Longrightarrow> dot_slot (insert c ds) s \<longleftrightarrow> dot_slot ds s"
proof -
  have cn: "G c = None" using fresh_no_dir [OF assms(1-3)] by blast
  show "in_dir (G(c \<mapsto> [c])) q s \<longleftrightarrow> in_dir G q s \<or> q = c \<and> (\<exists>i<16. s = Sub_slot c i)" "\<not> in_dir G c s"
    using cn assms(4) by (cases s; auto)+
  have "\<not> in_dir G q (Sub_slot c i)" for i by (rule not_in_dir_fresh [OF assms(3)])
  then show "in_dir G q s \<Longrightarrow> dot_slot (insert c ds) s \<longleftrightarrow> dot_slot ds s" by (cases s) auto
qed

lemma add_dir_step:
  assumes st: "store d G" and tr: "tree_ok G ds \<sigma>" and c: "c \<notin> clusters G" "c \<noteq> 0"
    and sl: "p \<in> insert 0 ds" "in_dir G p sl" "unused (\<sigma> sl)" "\<not> unused (\<sigma>' sl)"
    and \<sigma>': "\<And>q s. in_dir G q s \<Longrightarrow> s \<noteq> sl \<Longrightarrow> \<sigma>' s = \<sigma> s" "fresh_dir \<sigma>' c p"
  shows "entry_step G ds \<sigma> p sl (G(c \<mapsto> [c])) (insert c ds) \<sigma>'" (is "entry_step G ds \<sigma> p sl ?G ?ds \<sigma>'")
proof -
  note new = add_dir_slots [OF st tr c]
  have nd: "\<not> dot_slot ds sl" using dot_slot_name(2) [OF tr] sl(3) by blast
  have "owns ?G ?ds \<sigma>' q s \<longleftrightarrow> (if s = sl then q = p \<and> \<not> unused (\<sigma>' sl) else owns G ds \<sigma> q s)" for q s
  proof (cases "in_dir G q s")
    case True
    then have q: "s = sl \<Longrightarrow> q = p" "q \<noteq> c" "in_dir ?G q s" using in_dir_unique [OF st sl(2)] new(1,2) by blast+
    then have "owns ?G ?ds \<sigma>' q s \<longleftrightarrow> q \<in> insert 0 ds \<and> \<not> dot_slot ds s \<and> \<not> unused (\<sigma>' s)"
      by (simp add: owns_def new(3) [OF True])
    then show ?thesis using True q(1) sl(1,4) nd \<sigma>'(1) [OF True] by (cases "s = sl") (auto simp: owns_def)
  next
    case False
    have "\<not> owns ?G ?ds \<sigma>' q s"
    proof
      assume o: "owns ?G ?ds \<sigma>' q s"
      then obtain i where i: "i < 16" "s = Sub_slot c i" using False new(1) by (auto simp: owns_def)
      with o have "\<not> (i = 0 \<or> i = 1)" "\<not> unused (\<sigma>' (Sub_slot c i))" by (auto simp: owns_def)
      with \<sigma>'(2) i(1) show False by (auto simp: fresh_dir_def)
    qed
    with False sl(2) show ?thesis by (auto simp: owns_def)
  qed
  moreover have "\<sigma>' s = \<sigma> s" if "owns G ds \<sigma> q s" "s \<noteq> sl" for q s using \<sigma>'(1) that unfolding owns_def by blast
  ultimately show ?thesis unfolding entry_step_def by blast
qed

text \<open>What the new directory holds, and what the others hold.\<close>

lemma fresh_dir_holds:
  assumes "fresh_dir \<sigma> c p" "G c = Some [c]" "c \<noteq> 0"
  shows "holds G \<sigma> c k sl \<longleftrightarrow> sl = Sub_slot c 0 \<and> k = (DOT_NAME, EMPTY_EXT) \<or> sl = Sub_slot c 1 \<and> k = (DOTDOT_NAME, EMPTY_EXT)"
proof -
  note f = assms(1) [unfolded fresh_dir_def]
  have used: "\<not> unused (\<sigma> (Sub_slot c 0))" "\<not> unused (\<sigma> (Sub_slot c 1))"
    using f by (auto intro!: dot_names_used simp: ename_def)
  show ?thesis
  proof (cases "in_dir G c sl")
    case True
    then obtain i where i: "sl = Sub_slot c i" "i < 16" using assms(2,3) by (cases sl) auto
    consider "i = 0" | "i = 1" | "2 \<le> i" by linarith
    then show ?thesis
      by cases (use i f used True in \<open>auto simp: holds_def\<close>)
  next
    case False
    with assms(2,3) show ?thesis by (auto simp: holds_def)
  qed
qed

lemma added_holds:
  assumes st: "store d G" and c: "c \<notin> clusters G" "c \<noteq> 0" "q \<noteq> c" and sl: "in_dir G p sl" "\<not> unused e"
    and \<sigma>': "\<sigma>' sl = e" "\<And>q sl'. in_dir G q sl' \<Longrightarrow> sl' \<noteq> sl \<Longrightarrow> \<sigma>' sl' = \<sigma> sl'"
  shows "holds (G(c \<mapsto> [c])) \<sigma>' q k sl' \<longleftrightarrow> (if sl' = sl then q = p \<and> ename e = k else holds G \<sigma> q k sl')"
proof (cases "in_dir G q sl'")
  case True
  then have "in_dir (G(c \<mapsto> [c])) q sl'" using c(3) by (cases sl') auto
  moreover have "sl' = sl \<Longrightarrow> q = p" using in_dir_unique [OF st sl(1)] True by blast
  ultimately show ?thesis using True sl(2) \<sigma>'(1) \<sigma>'(2) [OF True] by (cases "sl' = sl") (simp_all add: holds_def)
next
  case False
  then have "\<not> in_dir (G(c \<mapsto> [c])) q sl'" using c(3) by (cases sl') auto
  with False sl(1) show ?thesis by (auto simp: holds_def)
qed

lemma tree_add_dir:
  assumes st: "store d G" and tr: "tree_ok G ds \<sigma>" and c: "c \<notin> clusters G" "c \<noteq> 0"
    and sl: "p \<in> insert 0 ds" "in_dir G p sl" "unused (\<sigma> sl)"
    and e: "\<not> unused e" "is_dir e" "first_cluster e = c" "de_name e \<noteq> DOT_NAME" "de_name e \<noteq> DOTDOT_NAME"
      "\<And>sl'. \<not> holds G \<sigma> p (ename e) sl'"
    and \<sigma>': "\<sigma>' sl = e" "\<And>q sl'. in_dir G q sl' \<Longrightarrow> sl' \<noteq> sl \<Longrightarrow> \<sigma>' sl' = \<sigma> sl'" "fresh_dir \<sigma>' c p"
  shows "tree_ok (G(c \<mapsto> [c])) (insert c ds) \<sigma>'" (is "tree_ok ?G ?ds \<sigma>'")
proof -
  have cn: "G c = None" "c \<notin> ds" using fresh_no_dir [OF st tr c(1)] by blast+
  have free: "\<not> owns G ds \<sigma> q sl" for q using sl(3) by (simp add: owns_def)
  have old_fc: "first_cluster (\<sigma> s) \<noteq> c" if "owns G ds \<sigma> q s" for q s
    using owned_chain [OF tr that] cn(1) c(2) by auto
  have used: "\<not> unused (\<sigma>' sl)" using e(1) \<sigma>'(1) by simp
  have step: "entry_step G ds \<sigma> p sl ?G ?ds \<sigma>'" by (rule add_dir_step [OF st tr c sl used \<sigma>'(2,3)])
  show ?thesis
  proof (rule entry_step_ok [OF step tr]; (unfold \<sigma>'(1))?)
    show "?ds \<subseteq> dom ?G" using tree_okD(1) [OF tr] by auto
    show "entry_ok ?G ?ds (\<sigma> s)" if "owns G ds \<sigma> q s" "s \<noteq> sl" for q s
      using tree_okD(2) [OF tr that(1)] old_fc [OF that(1)] by (simp add: entry_ok_def)
    show "entry_ok ?G ?ds e" using e by (simp add: entry_ok_def)
    show "first_cluster (\<sigma> s) \<noteq> first_cluster e" if "owns G ds \<sigma> q s" for q s using old_fc [OF that] e(3) by simp
    show "\<not> unused e \<and> a = first_cluster e \<or> (\<exists>q s. owns G ds \<sigma> q s \<and> s \<noteq> sl \<and> first_cluster (\<sigma> s) = a)"
      if "a \<in> dom ?G" for a
      using that e(1,3) tree_okD(4) [OF tr, of a] free by (cases "a = c") force+
    show "dots_ok ?G ?ds \<sigma>' b" if "b \<in> ?ds" for b
    proof (cases "b = c")
      case True
      have "owns ?G ?ds \<sigma>' p sl" using entry_stepD(1) [OF step] used by simp
      with True \<sigma>'(1,3) e show ?thesis unfolding dots_ok_def fresh_dir_def by blast
    next
      case False
      then have b: "b \<in> ds" using that by blast
      have "\<not> dot_slot ds sl" using dot_slot_name(2) [OF tr] sl(3) by blast
      then have "Sub_slot b i \<noteq> sl" if "i = 0 \<or> i = 1" for i using b that by auto
      then have eq: "\<sigma>' (Sub_slot b i) = \<sigma> (Sub_slot b i)" if "i = 0 \<or> i = 1" for i
        using \<sigma>'(2) [OF in_dir_dot [OF st tr b that]] that by blast
      show ?thesis by (rule entry_step_dots [OF step tree_okD(5) [OF tr b]]) (use eq free in blast)+
    qed
    show "s = s'" if q: "q \<in> insert 0 ?ds" and h: "holds ?G \<sigma>' q k s" "holds ?G \<sigma>' q k s'" for q k s s'
    proof (cases "q = c")
      case True
      have G: "?G c = Some [c]" by simp
      show ?thesis using h dot_names unfolding True fresh_dir_holds [where G = ?G, OF \<sigma>'(3) G c(2)] by auto
    next
      case False
      with q have q': "q \<in> insert 0 ds" by blast
      show ?thesis
        using added_holds [where \<sigma>' = \<sigma>' and \<sigma> = \<sigma> and k = k, OF st c False sl(2) e(1) \<sigma>'(1,2)] e(1,6)
        by (intro names_step [OF tr q' _ _ h, where sl = sl and e = e and p = p]) simp_all
    qed
  qed
qed

lemma remove_dir_step:
  assumes st: "store d G" and tr: "tree_ok G ds \<sigma>" and c: "c \<in> ds" "\<And>s. \<not> owns G ds \<sigma> c s"
    and sl: "owns G ds \<sigma> p sl"
    and \<sigma>': "unused (\<sigma>' sl)" "\<And>q s. in_dir G q s \<Longrightarrow> s \<noteq> sl \<Longrightarrow> q \<noteq> c \<Longrightarrow> \<sigma>' s = \<sigma> s"
  shows "entry_step G ds \<sigma> p sl (G(c := None)) (ds - {c}) \<sigma>'" (is "entry_step G ds \<sigma> p sl ?G ?ds \<sigma>'")
proof -
  have c0: "c \<noteq> 0" using dirs_not_0 [OF st tr] c(1) by blast
  have ind: "in_dir ?G q s \<longleftrightarrow> in_dir G q s \<and> q \<noteq> c" for q s using c0 by (cases s) auto
  have dots: "dot_slot ?ds s \<longleftrightarrow> dot_slot ds s" if s: "in_dir G q s" "q \<noteq> c" for q s
  proof (cases "\<exists>i. s = Sub_slot c i")
    case True
    obtain xs where "G c = Some xs" using tree_okD(1) [OF tr] c(1) by blast
    then have "in_dir G c s" using c0 s(1) True storeD(5) [OF st] by auto
    then show ?thesis using in_dir_unique [OF st s(1)] s(2) by blast
  qed (cases s; auto)
  have "owns ?G ?ds \<sigma>' q s \<longleftrightarrow> (if s = sl then q = p \<and> \<not> unused (\<sigma>' sl) else owns G ds \<sigma> q s)" for q s
  proof (cases "in_dir G q s \<and> q \<noteq> c \<and> s \<noteq> sl")
    case True
    then have "\<sigma>' s = \<sigma> s" using \<sigma>'(2) by blast
    with True show ?thesis by (auto simp: owns_def ind dots)
  next
    case False
    then have "\<not> (owns G ds \<sigma> q s \<and> s \<noteq> sl)" using c(2) [of s] unfolding owns_def by blast
    moreover have "\<not> owns ?G ?ds \<sigma>' q s" using False \<sigma>'(1) ind unfolding owns_def by blast
    ultimately show ?thesis using \<sigma>'(1) by auto
  qed
  moreover have "\<sigma>' s = \<sigma> s" if "owns G ds \<sigma> q s" "s \<noteq> sl" for q s
    using that \<sigma>'(2) c(2) unfolding owns_def by blast
  ultimately show ?thesis unfolding entry_step_def by blast
qed

lemma tree_remove_dir:
  assumes st: "store d G" and tr: "tree_ok G ds \<sigma>" and c: "c \<in> ds" "\<And>sl'. \<not> owns G ds \<sigma> c sl'"
    and sl: "owns G ds \<sigma> p sl" "is_dir (\<sigma> sl)" "first_cluster (\<sigma> sl) = c"
    and \<sigma>': "unused (\<sigma>' sl)" "\<And>q sl'. in_dir G q sl' \<Longrightarrow> sl' \<noteq> sl \<Longrightarrow> q \<noteq> c \<Longrightarrow> \<sigma>' sl' = \<sigma> sl'"
  shows "tree_ok (G(c := None)) (ds - {c}) \<sigma>'" (is "tree_ok ?G ?ds \<sigma>'")
proof -
  have c0: "c \<noteq> 0" using dirs_not_0 [OF st tr] c(1) by blast
  have slp: "\<not> dot_slot ds sl" using sl(1) by (simp add: owns_def)
  have fc: "first_cluster (\<sigma> s) \<noteq> c" if "owns G ds \<sigma> q s" "s \<noteq> sl" for q s
    using tree_okD(3) [OF tr that(1) sl(1)] that(2) sl(3) c0 by auto
  have step: "entry_step G ds \<sigma> p sl ?G ?ds \<sigma>'" by (rule remove_dir_step [OF st tr c sl(1) \<sigma>'])
  show ?thesis
  proof (rule entry_step_ok [OF step tr])
    show "?ds \<subseteq> dom ?G" using tree_okD(1) [OF tr] by auto
    show "entry_ok ?G ?ds (\<sigma> s)" if "owns G ds \<sigma> q s" "s \<noteq> sl" for q s
      using tree_okD(2) [OF tr that(1)] fc [OF that] by (simp add: entry_ok_def)
    show "\<not> unused (\<sigma>' sl) \<and> a = first_cluster (\<sigma>' sl) \<or>
        (\<exists>q s. owns G ds \<sigma> q s \<and> s \<noteq> sl \<and> first_cluster (\<sigma> s) = a)" if "a \<in> dom ?G" for a
    proof -
      have "a \<in> dom G" "a \<noteq> c" using that by (auto split: if_splits)
      with tree_okD(4) [OF tr] sl(3) show ?thesis by blast
    qed
    show "dots_ok ?G ?ds \<sigma>' b" if "b \<in> ?ds" for b
    proof -
      have b: "b \<in> ds" "b \<noteq> c" using that by blast+
      have "Sub_slot b i \<noteq> sl" if "i = 0 \<or> i = 1" for i using slp b(1) that by auto
      then have eq: "\<sigma>' (Sub_slot b i) = \<sigma> (Sub_slot b i)" if "i = 0 \<or> i = 1" for i
        using \<sigma>'(2) [OF in_dir_dot [OF st tr b(1) that]] b(2) that by blast
      show ?thesis
        by (rule entry_step_dots [OF step tree_okD(5) [OF tr b(1)]]) (use eq sl(3) b(2) in blast)+
    qed
    show "s = s'" if q: "q \<in> insert 0 ?ds" and h: "holds ?G \<sigma>' q k s" "holds ?G \<sigma>' q k s'" for q k s s'
    proof -
      have "holds G \<sigma> q k s" if h: "holds ?G \<sigma>' q k s" for s
      proof -
        have i: "in_dir G q s" "q \<noteq> c" "s \<noteq> sl" using h \<sigma>'(1) c0 by (cases s; auto simp: holds_def split: if_splits)+
        with h \<sigma>'(2) [OF i(1,3,2)] show ?thesis by (simp add: holds_def)
      qed
      from tree_okD(6) [OF tr _ this [OF h(1)] this [OF h(2)]] q show ?thesis by blast
    qed
  qed (use \<sigma>'(1) in simp_all)
qed

end
