(* ===== verification/Volume.thy ===== *)
theory Volume
  imports DirTree
begin

text \<open>
  Consistent volumes and the abstract file tree they represent. \<open>vol s G ds\<close> is the invariant of the
  state of \<open>kernel/fs.c\<close>; \<open>represents s T\<close> hides the chains and says which tree of files and
  directories a caller sees. Path walking is a walk over that tree.
\<close>

section \<open>What a volume represents\<close>

datatype node = File "u8 list" | Dir u16

type_synonym tree = "u16 \<Rightarrow> fname \<rightharpoonup> node"

definition file_bytes :: "disk \<Rightarrow> chains \<Rightarrow> dirent \<Rightarrow> u8 list" where
  "file_bytes d G e = (case G (first_cluster e) of None \<Rightarrow> [] | Some xs \<Rightarrow> take (unat (file_size e)) (bytes d xs))"

definition node_of :: "disk \<Rightarrow> chains \<Rightarrow> dirent \<Rightarrow> node" where
  "node_of d G e = (if is_dir e then Dir (first_cluster e) else File (file_bytes d G e))"

definition shows_tree :: "disk \<Rightarrow> chains \<Rightarrow> u16 set \<Rightarrow> (slot \<Rightarrow> dirent) \<Rightarrow> tree \<Rightarrow> bool" where
  "shows_tree d G ds \<sigma> T \<longleftrightarrow>
     (\<forall>p k v. T p k = Some v \<longleftrightarrow> p \<in> insert 0 ds \<and> (\<exists>sl. holds G \<sigma> p k sl \<and> v = node_of d G (\<sigma> sl)))"

definition vol :: "fs \<Rightarrow> chains \<Rightarrow> u16 set \<Rightarrow> bool" where
  "vol s G ds \<longleftrightarrow> store (fs_disk s) G \<and> root_wf s \<and> root_synced s \<and> is_formatted (fs_disk s (of_nat FS_BOOT_LBA))
     \<and> tree_ok G ds (get_slot s) \<and> (cwd_is_root s \<or> cwd_cluster s \<in> ds)"

definition represents :: "fs \<Rightarrow> tree \<Rightarrow> bool" where
  "represents s T \<longleftrightarrow> (\<exists>G ds. vol s G ds \<and> shows_tree (fs_disk s) G ds (get_slot s) T)"

lemma volD:
  assumes "vol s G ds"
  shows "store (fs_disk s) G" "root_wf s" "root_synced s" "is_formatted (fs_disk s 300)"
    "tree_ok G ds (get_slot s)" "cwd_is_root s \<or> cwd_cluster s \<in> ds"
  using assms by (simp_all add: vol_def)

text \<open>The directories that the code can refer to.\<close>

definition valid_dir :: "u16 set \<Rightarrow> dir_ref \<Rightarrow> bool" where
  "valid_dir ds D \<longleftrightarrow> is_root D \<or> dir_cluster D \<in> ds"

lemma valid_dir_key: "valid_dir ds D \<Longrightarrow> key D \<in> insert 0 ds"
  by (auto simp: valid_dir_def key_def)

lemma valid_dir_ok: "vol s G ds \<Longrightarrow> valid_dir ds D \<Longrightarrow> dir_ok G D"
  using tree_okD(1) [OF volD(5), of s G ds] by (auto simp: valid_dir_def dir_ok_def)

lemma valid_cwd: "vol s G ds \<Longrightarrow> valid_dir ds (cwd_dir s)"
  using volD(6) by (auto simp: valid_dir_def cwd_dir_def)

definition cwd_key :: "fs \<Rightarrow> u16" where
  "cwd_key s = key (cwd_dir s)"

section \<open>Looking a name up\<close>

lemma lookup_tree:
  assumes v: "vol s G ds" and T: "shows_tree (fs_disk s) G ds (get_slot s) T" and D: "valid_dir ds D" and k: "fname_ok k"
  shows "(\<exists>sl. holds G (get_slot s) (key D) k sl \<and> T (key D) k = Some (node_of (fs_disk s) G (get_slot s sl)) \<and>
        dir_scan s D (fst k) (snd k) = Some (Some (get_slot s sl, slot_loc D sl)))
    \<or> T (key D) k = None \<and> (\<forall>sl. \<not> holds G (get_slot s) (key D) k sl) \<and> dir_scan s D (fst k) (snd k) = Some None"
proof -
  have tree: "T (key D) k = Some n \<longleftrightarrow> (\<exists>sl. holds G (get_slot s) (key D) k sl \<and> n = node_of (fs_disk s) G (get_slot s sl))" for n
    using T valid_dir_key [OF D] unfolding shows_tree_def by blast
  then have none: "(\<forall>sl. \<not> holds G (get_slot s) (key D) k sl) \<Longrightarrow> T (key D) k = None"
    by (cases "T (key D) k") auto
  show ?thesis
    using dir_scan_holds [OF volD(1,2) [OF v] valid_dir_ok [OF v D] k] tree none by blast
qed

section \<open>Walking a path\<close>

definition dir_of :: "node option \<Rightarrow> u16 option" where
  "dir_of v = (case v of Some (Dir c) \<Rightarrow> Some c | _ \<Rightarrow> None)"

function tree_walk :: "tree \<Rightarrow> string \<Rightarrow> u16 \<Rightarrow> u16 option" where
  "tree_walk T p d =
     (if p = [] then Some d
      else (case next_component p of (component, rest) \<Rightarrow>
        if component = [] \<or> component = ''.'' then tree_walk T rest d
        else if component = ''..'' then tree_walk T rest (case dir_of (T d (DOTDOT_NAME, EMPTY_EXT)) of None \<Rightarrow> d | Some q \<Rightarrow> q)
        else (case dir_of (T d (split_name component)) of None \<Rightarrow> None | Some q \<Rightarrow> tree_walk T rest q)))"
  by pat_completeness auto
termination
  by (relation "measure (\<lambda>(T, p, d). length p)") (auto dest: next_component_shorter [OF _ sym])

declare tree_walk.simps [simp del]

definition tree_walk_path :: "tree \<Rightarrow> string \<Rightarrow> u16 \<Rightarrow> u16 option" where
  "tree_walk_path T path d = (case path of c # p \<Rightarrow> if c = CHR ''/'' then tree_walk T p 0 else tree_walk T path d | [] \<Rightarrow> Some d)"

text \<open>The directory and the name that a path names, relative to the directory \<open>cwd\<close>.\<close>

definition tree_resolve :: "tree \<Rightarrow> u16 \<Rightarrow> string \<Rightarrow> (u16 \<times> string) option" where
  "tree_resolve T cwd path =
     (if path = [] then None
      else (let last_slash = last_slash_from path 0 (-1) in
        if last_slash < 0 then Some (cwd, take 12 path)
        else (case tree_walk_path T (take (min 95 (nat (last_slash + 1))) path) cwd of
               None \<Rightarrow> None
             | Some d \<Rightarrow> Some (d, take 12 (drop (nat (last_slash + 1)) path)))))"

text \<open>Only the directories of a tree matter for walking.\<close>

lemma tree_walk_cong: "(\<And>d k. dir_of (T d k) = dir_of (T' d k)) \<Longrightarrow> tree_walk T p d = tree_walk T' p d"
proof (induction T p d rule: tree_walk.induct)
  case (1 T p d)
  then show ?case
    by (subst (1 2) tree_walk.simps) (auto split: prod.splits option.splits)
qed

lemma tree_resolve_cong: "(\<And>d k. dir_of (T d k) = dir_of (T' d k)) \<Longrightarrow> tree_resolve T c path = tree_resolve T' c path"
proof -
  assume "\<And>d k. dir_of (T d k) = dir_of (T' d k)"
  then have "tree_walk T p d = tree_walk T' p d" for p d by (rule tree_walk_cong)
  then have "tree_walk_path T = tree_walk_path T'"
    by (intro ext) (simp add: tree_walk_path_def split: list.split)
  then show ?thesis by (simp only: tree_resolve_def)
qed

lemma dot_dot_ok: "fname_ok (DOTDOT_NAME, EMPTY_EXT)"
  by (simp add: fname_ok_def)

text \<open>A directory entry leads to a directory of the volume; \<open>..\<close> may lead to the root.\<close>

lemma dir_entry_valid:
  assumes v: "vol s G ds" and h: "holds G (get_slot s) p k sl" "p \<in> insert 0 ds" and d: "is_dir (get_slot s sl)"
    and k: "fst k \<noteq> DOTDOT_NAME"
  shows "first_cluster (get_slot s sl) \<in> ds"
proof (cases "dot_slot ds sl")
  case True
  then obtain c where c: "c \<in> ds" "sl = Sub_slot c 0 \<or> sl = Sub_slot c 1" by (cases sl) auto
  have "dots_ok G ds (get_slot s) c" by (rule tree_okD(5) [OF volD(5) [OF v] c(1)])
  with c h(1) k show ?thesis by (auto simp: dots_ok_def holds_def ename_def)
next
  case False
  then have "owns G ds (get_slot s) p sl" using h by (simp add: owns_def holds_def)
  with tree_okD(2) [OF volD(5) [OF v] this] d show ?thesis by (simp add: entry_ok_def)
qed

lemma up_entry_valid:
  assumes v: "vol s G ds" and h: "holds G (get_slot s) p (DOTDOT_NAME, EMPTY_EXT) sl" "p \<in> insert 0 ds"
  shows "is_dir (get_slot s sl) \<and> first_cluster (get_slot s sl) \<in> insert 0 ds"
proof (cases "dot_slot ds sl")
  case True
  then obtain c where c: "c \<in> ds" "sl = Sub_slot c 0 \<or> sl = Sub_slot c 1" by (cases sl) auto
  have dk: "dots_ok G ds (get_slot s) c" by (rule tree_okD(5) [OF volD(5) [OF v] c(1)])
  then obtain q where "owns G ds (get_slot s) (first_cluster (get_slot s (Sub_slot c 1))) q"
    unfolding dots_ok_def by blast
  then have "first_cluster (get_slot s (Sub_slot c 1)) \<in> insert 0 ds" unfolding owns_def by blast
  with c(2) dk c(1) show ?thesis by (elim disjE) (simp_all add: dots_ok_def del: get_slot_simps)
next
  case False
  then have "owns G ds (get_slot s) p sl" using h by (simp add: owns_def holds_def)
  with tree_okD(2) [OF volD(5) [OF v] this] h(1) show ?thesis by (simp add: entry_ok_def holds_def ename_def)
qed

lemma walk_up_tree:
  assumes v: "vol s G ds" and T: "shows_tree (fs_disk s) G ds (get_slot s) T" and D: "valid_dir ds D"
  shows "\<exists>D'. walk_up s D = Some D' \<and> valid_dir ds D' \<and>
    key D' = (case dir_of (T (key D) (DOTDOT_NAME, EMPTY_EXT)) of None \<Rightarrow> key D | Some q \<Rightarrow> q)"
proof (cases "is_root D")
  case True
  then have k: "key D = 0" by (simp add: key_def)
  have "\<not> holds G (get_slot s) 0 (DOTDOT_NAME, EMPTY_EXT) sl" for sl
  proof
    assume h: "holds G (get_slot s) 0 (DOTDOT_NAME, EMPTY_EXT) sl"
    then have nd: "\<not> dot_slot ds sl" by (cases sl) (simp_all add: holds_def)
    then have "owns G ds (get_slot s) 0 sl" using h by (simp add: owns_def holds_def)
    with tree_okD(2) [OF volD(5) [OF v] this] h show False by (simp add: entry_ok_def holds_def ename_def)
  qed
  then have "T 0 (DOTDOT_NAME, EMPTY_EXT) = None"
    using lookup_tree [OF v T D dot_dot_ok] k by auto
  with True D k show ?thesis by (simp add: walk_up_def dir_of_def)
next
  case False
  from lookup_tree [OF v T D dot_dot_ok] show ?thesis
  proof (elim disjE exE conjE)
    fix sl assume h: "holds G (get_slot s) (key D) (DOTDOT_NAME, EMPTY_EXT) sl"
      and t: "T (key D) (DOTDOT_NAME, EMPTY_EXT) = Some (node_of (fs_disk s) G (get_slot s sl))"
      and sc: "dir_scan s D (fst (DOTDOT_NAME, EMPTY_EXT)) (snd (DOTDOT_NAME, EMPTY_EXT)) = Some (Some (get_slot s sl, slot_loc D sl))"
    note u = up_entry_valid [OF v h valid_dir_key [OF D]]
    with False t sc show ?thesis
      by (auto simp: walk_up_def dir_of_def node_of_def valid_dir_def key_def simp del: get_slot_simps)
  next
    assume "T (key D) (DOTDOT_NAME, EMPTY_EXT) = None" "dir_scan s D (fst (DOTDOT_NAME, EMPTY_EXT)) (snd (DOTDOT_NAME, EMPTY_EXT)) = Some None"
    with False D show ?thesis by (simp add: walk_up_def dir_of_def)
  qed
qed

text \<open>\<open>walk_from\<close> follows the tree.\<close>

text \<open>One component of a path that is not a dot: the walk goes into the directory of that name, or fails.\<close>

lemma walk_into:
  assumes v: "vol s G ds" and T: "shows_tree (fs_disk s) G ds (get_slot s) T" and D: "valid_dir ds D"
    and n: "next_component p = (c, rest)" "p \<noteq> []" "c \<noteq> []" "c \<noteq> ''.''" "c \<noteq> ''..''"
  shows "(\<exists>D1 b1. walk_from s p D b n = walk_from s rest D1 b1 n \<and> tree_walk T p (key D) = tree_walk T rest (key D1) \<and>
      valid_dir ds D1 \<and> (b1 = None \<longleftrightarrow> b = None))
    \<or> walk_from s p D b n = Some (Inl FsFailed) \<and> tree_walk T p (key D) = None"
proof -
  let ?k = "split_name c"
  have step: "walk_from s p D b n = (case dir_scan s D (fst ?k) (snd ?k) of
       None \<Rightarrow> None
     | Some None \<Rightarrow> Some (Inl FsFailed)
     | Some (Some (entry, loc)) \<Rightarrow>
         if \<not> is_dir entry then Some (Inl FsFailed)
         else walk_from s rest \<lparr>is_root = False, dir_cluster = first_cluster entry\<rparr>
                (map_option (\<lambda>b. path_append b n entry) b) n)"
    "tree_walk T p (key D) = (case dir_of (T (key D) ?k) of None \<Rightarrow> None | Some q \<Rightarrow> tree_walk T rest q)"
    using n by (auto simp: walk_from.simps [of s p] tree_walk.simps [of T p] is_dir_def split: prod.split option.split)
  from lookup_tree [OF v T D split_name_ok [of c]] show ?thesis
  proof (elim disjE exE conjE)
    fix sl assume h: "holds G (get_slot s) (key D) ?k sl"
      and t: "T (key D) ?k = Some (node_of (fs_disk s) G (get_slot s sl))"
      and sc: "dir_scan s D (fst ?k) (snd ?k) = Some (Some (get_slot s sl, slot_loc D sl))"
    show ?thesis
    proof (cases "is_dir (get_slot s sl)")
      case True
      let ?D = "\<lparr>is_root = False, dir_cluster = first_cluster (get_slot s sl)\<rparr>"
      have "fst ?k \<noteq> DOTDOT_NAME" using split_name_not_dots [of c "fst ?k" "snd ?k"] by simp
      then have "valid_dir ds ?D" using dir_entry_valid [OF v h valid_dir_key [OF D] True] by (simp add: valid_dir_def)
      then show ?thesis unfolding step using True t sc
        by (intro disjI1 exI [of _ ?D] exI [of _ "map_option (\<lambda>b. path_append b n (get_slot s sl)) b"])
          (simp add: dir_of_def node_of_def key_def del: get_slot_simps)
    next
      case False
      with t sc show ?thesis unfolding step by (simp add: dir_of_def node_of_def del: get_slot_simps)
    qed
  next
    assume "T (key D) ?k = None" "dir_scan s D (fst ?k) (snd ?k) = Some None"
    then show ?thesis unfolding step by (simp add: dir_of_def)
  qed
qed

lemma walk_from_tree:
  assumes v: "vol s G ds" and T: "shows_tree (fs_disk s) G ds (get_slot s) T"
  shows "valid_dir ds D \<Longrightarrow>
    (\<exists>D' b'. walk_from s p D b n = Some (Inr (D', b')) \<and> tree_walk T p (key D) = Some (key D') \<and> valid_dir ds D' \<and> (b' = None \<longleftrightarrow> b = None))
    \<or> walk_from s p D b n = Some (Inl FsFailed) \<and> tree_walk T p (key D) = None"
proof (induction "length p" arbitrary: p D b rule: less_induct)
  case less
  show ?case
  proof (cases "p = []")
    case True
    with less.prems show ?thesis by (simp add: walk_from.simps [of s "[]"] tree_walk.simps [of T "[]"])
  next
    case False
    obtain comp' rest where n: "next_component p = (comp', rest)" by fastforce
    note IH = less.hyps [OF next_component_shorter [OF False n]]
    show ?thesis
    proof (cases "comp' = [] \<or> comp' = ''.''")
      case True
      with IH [OF less.prems, of b] n False show ?thesis
        by (subst (1 2) walk_from.simps, subst (1 2) tree_walk.simps) auto
    next
      case dot: False
      show ?thesis
      proof (cases "comp' = ''..''")
        case True
        obtain D1 where D1: "walk_up s D = Some D1" "valid_dir ds D1"
          "key D1 = (case dir_of (T (key D) (DOTDOT_NAME, EMPTY_EXT)) of None \<Rightarrow> key D | Some q \<Rightarrow> q)"
          using walk_up_tree [OF v T less.prems] by blast
        with IH [OF D1(2), of "map_option path_trim_last b"] n False dot True show ?thesis
          by (subst (1 2) walk_from.simps, subst (1 2) tree_walk.simps) auto
      next
        case ndd: False
        have "comp' \<noteq> []" "comp' \<noteq> ''.''" using dot by blast+
        from walk_into [OF v T less.prems n False this ndd, where b = b and n = n] show ?thesis
        proof (elim disjE exE conjE)
          fix D1 b1 assume "valid_dir ds D1" and eq: "walk_from s p D b n = walk_from s rest D1 b1 n"
            "tree_walk T p (key D) = tree_walk T rest (key D1)" "b1 = None \<longleftrightarrow> b = None"
          from IH [OF this(1), of b1] show ?thesis unfolding eq .
        qed simp
      qed
    qed
  qed
qed

lemma walk_path_tree:
  assumes v: "vol s G ds" and T: "shows_tree (fs_disk s) G ds (get_slot s) T" and D: "valid_dir ds D"
  shows "(\<exists>D' b'. walk_path s p D b n = Some (Inr (D', b')) \<and> tree_walk_path T p (key D) = Some (key D') \<and> valid_dir ds D' \<and> (b' = None \<longleftrightarrow> b = None))
    \<or> walk_path s p D b n = Some (Inl FsFailed) \<and> tree_walk_path T p (key D) = None"
proof (cases p)
  case Nil
  have "tree_walk T [] (key D) = Some (key D)" by (simp add: tree_walk.simps)
  with Nil walk_from_tree [OF v T D, of "[]" b n] show ?thesis by (simp add: walk_path_def tree_walk_path_def)
next
  case (Cons c q)
  have root: "valid_dir ds \<lparr>is_root = True, dir_cluster = 0\<rparr>" by (simp add: valid_dir_def)
  from Cons walk_from_tree [OF v T D, of p b n] walk_from_tree [OF v T root, of q "map_option (\<lambda>b. ''/'') b" n]
  show ?thesis by (cases "c = CHR ''/''") (simp_all add: walk_path_def tree_walk_path_def key_def)
qed

text \<open>\<open>resolve_parent\<close> resolves in the tree.\<close>

lemma resolve_parent_tree:
  assumes v: "vol s G ds" and T: "shows_tree (fs_disk s) G ds (get_slot s) T"
  shows "(\<exists>D leaf. resolve_parent s path = Some (Inr (D, leaf)) \<and> tree_resolve T (cwd_key s) path = Some (key D, leaf) \<and> valid_dir ds D)
    \<or> resolve_parent s path = Some (Inl FsFailed) \<and> tree_resolve T (cwd_key s) path = None"
proof -
  let ?i = "last_slash_from path 0 (-1)"
  let ?dl = "if nat (?i + 1) > 96 - 1 then 96 - 1 else nat (?i + 1)"
  have dl: "?dl = min 95 (nat (?i + 1))" by (simp add: min_def)
  show ?thesis
  proof (cases "path = [] \<or> ?i < 0")
    case True
    then show ?thesis
      using valid_cwd [OF v] by (auto simp: resolve_parent_def tree_resolve_def cwd_key_def str_copy_n_take)
  next
    case False
    from walk_path_tree [OF v T valid_cwd [OF v], of "take (min 95 (nat (?i + 1))) path" None 0] show ?thesis
      unfolding resolve_parent_def tree_resolve_def Let_def dl cwd_key_def
      using False by (elim disjE exE conjE) (simp_all add: str_copy_n_take)
  qed
qed

end
