(* ===== verification/Entries.thy ===== *)
theory Entries
  imports Volume
begin

text \<open>
  Writing one entry of a volume after its file's chain has changed: the step that all operations of
  \<open>kernel/fs.c\<close> on files end with. It keeps the volume consistent and changes the tree at one name.
\<close>

section \<open>The tree after replacing an entry\<close>

definition tree_set :: "tree \<Rightarrow> u16 \<Rightarrow> dirent \<Rightarrow> dirent \<Rightarrow> node \<Rightarrow> tree" where
  "tree_set T p old e n = (\<lambda>q k.
     if q = p then (if \<not> unused e \<and> k = ename e then Some n
                    else if \<not> unused old \<and> k = ename old then None else T p k)
     else T q k)"

text \<open>The sectors that a change of the clusters \<open>A\<close> may touch.\<close>

definition only_changes :: "disk \<Rightarrow> disk \<Rightarrow> u16 set \<Rightarrow> bool" where
  "only_changes d d' A \<longleftrightarrow> (\<forall>x\<in>A. data_cluster x) \<and>
     (\<forall>lba. \<not> fat_area lba \<longrightarrow> lba \<notin> cluster_to_lba ` A \<longrightarrow> d' lba = d lba)"

lemma only_changes_data: "only_changes d d' A \<Longrightarrow> data_cluster x \<Longrightarrow> x \<notin> A \<Longrightarrow> d' (cluster_to_lba x) = d (cluster_to_lba x)"
  unfolding only_changes_def
  using data_lba_not_fat [of x] cluster_to_lba_inj data_cluster_is_link by (auto simp: image_iff)

lemma only_changes_low:
  assumes "only_changes d d' A" "\<not> fat_area lba" "unat lba < FS_DATA_LBA"
  shows "d' lba = d lba"
proof -
  have "unat (cluster_to_lba x) \<ge> 435" if "x \<in> A" for x
    using that assms(1) data_lba [of x] by (simp add: only_changes_def data_cluster_def)
  then have "lba \<notin> cluster_to_lba ` A" using assms(3) by fastforce
  with assms(1,2) show ?thesis by (simp add: only_changes_def)
qed

lemma root_synced_cong: "(\<And>lba. root_area lba \<Longrightarrow> d' lba = fs_disk s lba) \<Longrightarrow> root_synced (s\<lparr>fs_disk := d'\<rparr>) = root_synced s"
proof -
  assume d: "\<And>lba. root_area lba \<Longrightarrow> d' lba = fs_disk s lba"
  have "d' (427 + of_nat (j div 16)) = fs_disk s (427 + of_nat (j div 16))" if "j < 128" for j
  proof -
    have "j div 16 < 8" using that by (simp add: less_mult_imp_div_less)
    then have "root_area (of_nat (427 + j div 16))" by (simp add: root_area_def unat_of_nat del: of_nat_add)
    from d [OF this] show ?thesis by simp
  qed
  then have "fs_root (root_load (s\<lparr>fs_disk := d'\<rparr>)) = fs_root (root_load s)"
    by (simp add: root_load_def disk_read_sector_def del: upt_rec_numeral)
  then show ?thesis by (simp add: root_synced_def)
qed

section \<open>The volume after replacing an entry\<close>

text \<open>Root directory and boot sector do not depend on the data area and the FATs.\<close>

definition base_ok :: "fs \<Rightarrow> bool" where
  "base_ok s \<longleftrightarrow> root_wf s \<and> root_synced s \<and> is_formatted (fs_disk s 300)"

lemma vol_base: "vol s G ds \<longleftrightarrow> store (fs_disk s) G \<and> base_ok s \<and> tree_ok G ds (get_slot s) \<and> valid_dir ds (cwd_dir s)"
  by (auto simp: vol_def base_ok_def valid_dir_def cwd_dir_def)

lemma base_ok_changes:
  assumes b: "base_ok s" and ch: "only_changes (fs_disk s) d1 A"
  shows "base_ok (s\<lparr>fs_disk := d1\<rparr>)"
proof -
  have "d1 lba = fs_disk s lba" if "root_area lba" for lba
    by (rule only_changes_low [OF ch root_not_fat [OF that]]) (use that in \<open>simp add: root_area_def\<close>)
  then have "root_synced (s\<lparr>fs_disk := d1\<rparr>)" using root_synced_cong [of d1 s] b by (simp add: base_ok_def)
  moreover have "d1 300 = fs_disk s 300" by (rule only_changes_low [OF ch]) (simp_all add: fat_area_def)
  ultimately show ?thesis using b by (simp add: base_ok_def root_wf_def)
qed

lemma base_ok_put:
  assumes b: "base_ok s" and l: "slot_ok (loc_slot l)" and e: "wf_dirent e"
  shows "base_ok (dir_write_entry l e s)"
proof -
  have "\<not> slot_area (loc_slot l) 300"
    using l by (cases "loc_slot l") (auto simp: slot_area_def root_area_def word_unat_eq_iff data_lba)
  from dir_write_entry_frame [OF this] dir_write_root_wf [OF _ e] dir_write_synced [OF _ _ e l] b
  show ?thesis by (simp add: base_ok_def)
qed

lemma store_put: "store (fs_disk s) G \<Longrightarrow> slot_ok (loc_slot l) \<Longrightarrow> store (fs_disk (dir_write_entry l e s)) G"
  by (rule store_outside, assumption, rule dir_write_entry_frame) (use slot_not_fat in blast)

text \<open>Writing an entry of directory \<open>p\<close> leaves the clusters of every other chain alone.\<close>

lemma put_keeps_data:
  assumes st: "store (fs_disk s) G" and sl: "in_dir G p (loc_slot l)" and x: "G f = Some xs" "f \<noteq> p" "x \<in> set xs"
  shows "fs_disk (dir_write_entry l e s) (cluster_to_lba x) = fs_disk s (cluster_to_lba x)"
proof (rule dir_write_entry_frame)
  have dx: "data_cluster x" by (rule storeD(3) [OF st x(1,3)])
  show "\<not> slot_area (loc_slot l) (cluster_to_lba x)"
  proof (cases "loc_slot l")
    case (Root_slot i)
    then show ?thesis using data_not_root [OF dx] by (simp add: slot_area_def)
  next
    case (Sub_slot b i)
    with sl obtain ys where ys: "G p = Some ys" "b \<in> set ys" by auto
    from store_disjoint [OF st ys(1) x(1)] ys x have "b \<noteq> x" by auto
    moreover have "data_cluster b" by (rule storeD(3) [OF st ys])
    ultimately show ?thesis using Sub_slot dx cluster_to_lba_inj data_cluster_is_link by (simp add: slot_area_def)
  qed
qed

lemma old_file_chain:
  assumes "store d G" "tree_ok G ds \<sigma>" "p \<in> insert 0 ds" "in_dir G p sl" "\<not> dot_slot ds sl"
    "\<not> unused (\<sigma> sl)" "\<not> is_dir (\<sigma> sl)"
  shows "first_cluster (\<sigma> sl) \<notin> ds"
proof -
  have "entry_ok G ds (\<sigma> sl)" using assms tree_okD(2) [OF assms(2)] by (simp add: owns_def)
  then show ?thesis using assms(7) dirs_not_0 [OF assms(1,2)] by (auto simp: entry_ok_def split: if_splits)
qed

text \<open>The clusters \<open>A\<close> are free or belong to the file in slot \<open>sl\<close>.\<close>

definition spare :: "chains \<Rightarrow> dirent \<Rightarrow> u16 set \<Rightarrow> bool" where
  "spare G old A \<longleftrightarrow> (\<forall>x\<in>A. \<forall>c xs. G c = Some xs \<longrightarrow> x \<in> set xs \<longrightarrow>
     \<not> unused old \<and> \<not> is_dir old \<and> c = first_cluster old)"

lemma spare_slots:
  assumes v: "vol s G ds" and sl: "p \<in> insert 0 ds" "in_dir G p sl" "\<not> dot_slot ds sl"
    and A: "only_changes (fs_disk s) d1 A" "spare G (get_slot s sl) A"
    and q: "q \<in> insert 0 ds" "in_dir G q sl'"
  shows "get_slot (s\<lparr>fs_disk := d1\<rparr>) sl' = get_slot s sl'"
proof (cases sl')
  case (Sub_slot c i)
  with q obtain xs where xs: "G q = Some xs" "c \<in> set xs" "q \<in> ds" by auto
  have "c \<notin> A"
  proof
    assume "c \<in> A"
    with A(2) xs(1,2) have "\<not> unused (get_slot s sl)" "\<not> is_dir (get_slot s sl)" "q = first_cluster (get_slot s sl)"
      unfolding spare_def by blast+
    with old_file_chain [OF volD(1) [OF v] volD(5) [OF v] sl] xs(3) show False by simp
  qed
  then show ?thesis using only_changes_data [OF A(1) storeD(3) [OF volD(1) [OF v] xs(1,2)]] Sub_slot by simp
qed simp

text \<open>The chains and the disk have changed to \<open>G1\<close> and \<open>d1\<close>, and slot \<open>sl\<close> of directory \<open>D\<close> is to get
  the entry \<open>e\<close> that goes with them.\<close>

definition change :: "fs \<Rightarrow> chains \<Rightarrow> u16 set \<Rightarrow> dir_ref \<Rightarrow> slot \<Rightarrow> dirent \<Rightarrow> disk \<Rightarrow> chains \<Rightarrow> bool" where
  "change s G ds D sl e d1 G1 \<longleftrightarrow>
     (let old = get_slot s sl; dropped = (\<lambda>c. \<not> unused old \<and> c = first_cluster old) in
      vol s G ds \<and> valid_dir ds D \<and> in_dir G (key D) sl \<and> \<not> dot_slot ds sl \<and> wf_dirent e \<and>
      store d1 G1 \<and> (\<forall>b\<in>ds. G1 b = G b) \<and>
      (\<exists>A. only_changes (fs_disk s) d1 A \<and> spare G old A) \<and>
      (\<not> unused old \<longrightarrow> is_dir old \<longrightarrow> \<not> unused e \<and> is_dir e \<and> first_cluster e = first_cluster old) \<and>
      (\<not> unused e \<longrightarrow> entry_ok G1 ds e \<and> (\<forall>sl'. holds G (get_slot s) (key D) (ename e) sl' \<longrightarrow> sl' = sl) \<and>
         (first_cluster e \<in> dom G \<longrightarrow> dropped (first_cluster e))) \<and>
      (\<forall>c. c \<in> dom G1 \<longleftrightarrow> c \<in> dom G \<and> \<not> dropped c \<or> \<not> unused e \<and> first_cluster e \<noteq> 0 \<and> c = first_cluster e) \<and>
      (\<forall>c\<in>dom G. \<not> dropped c \<longrightarrow> G1 c = G c))"

lemma changeD:
  assumes "change s G ds D sl e d1 G1"
  shows "vol s G ds" "valid_dir ds D" "in_dir G (key D) sl" "\<not> dot_slot ds sl" "wf_dirent e" "store d1 G1"
    "b \<in> ds \<Longrightarrow> G1 b = G b"
    "\<exists>A. only_changes (fs_disk s) d1 A \<and> spare G (get_slot s sl) A"
    "\<not> unused (get_slot s sl) \<Longrightarrow> is_dir (get_slot s sl) \<Longrightarrow> \<not> unused e \<and> is_dir e \<and> first_cluster e = first_cluster (get_slot s sl)"
    "\<not> unused e \<Longrightarrow> entry_ok G1 ds e \<and> (\<forall>sl'. holds G (get_slot s) (key D) (ename e) sl' \<longrightarrow> sl' = sl) \<and>
       (first_cluster e \<in> dom G \<longrightarrow> \<not> unused (get_slot s sl) \<and> first_cluster e = first_cluster (get_slot s sl))"
    "c \<in> dom G1 \<longleftrightarrow> c \<in> dom G \<and> \<not> (\<not> unused (get_slot s sl) \<and> c = first_cluster (get_slot s sl))
       \<or> \<not> unused e \<and> first_cluster e \<noteq> 0 \<and> c = first_cluster e"
    "c \<in> dom G \<Longrightarrow> \<not> (\<not> unused (get_slot s sl) \<and> c = first_cluster (get_slot s sl)) \<Longrightarrow> G1 c = G c"
    "key D \<in> insert 0 ds"
proof -
  note a = assms [unfolded change_def Let_def]
  from a show "vol s G ds" by (elim conjE)
  from a show "in_dir G (key D) sl" by (elim conjE)
  from a show "\<not> dot_slot ds sl" by (elim conjE)
  from a show "wf_dirent e" by (elim conjE)
  from a show "store d1 G1" by (elim conjE)
  from a show D: "valid_dir ds D" by (elim conjE)
  have "\<forall>b\<in>ds. G1 b = G b" using assms unfolding change_def Let_def by (elim conjE)
  then show "b \<in> ds \<Longrightarrow> G1 b = G b" by blast
  show "\<exists>A. only_changes (fs_disk s) d1 A \<and> spare G (get_slot s sl) A" using assms unfolding change_def Let_def by (elim conjE)
  show "\<not> unused (get_slot s sl) \<Longrightarrow> is_dir (get_slot s sl) \<Longrightarrow> \<not> unused e \<and> is_dir e \<and> first_cluster e = first_cluster (get_slot s sl)"
    using assms unfolding change_def Let_def by (elim conjE) (drule mp, assumption)+
  show "\<not> unused e \<Longrightarrow> entry_ok G1 ds e \<and> (\<forall>sl'. holds G (get_slot s) (key D) (ename e) sl' \<longrightarrow> sl' = sl) \<and>
       (first_cluster e \<in> dom G \<longrightarrow> \<not> unused (get_slot s sl) \<and> first_cluster e = first_cluster (get_slot s sl))"
    using assms unfolding change_def Let_def by (elim conjE) (drule mp, assumption)+
  have "\<forall>c. c \<in> dom G1 \<longleftrightarrow> c \<in> dom G \<and> \<not> (\<not> unused (get_slot s sl) \<and> c = first_cluster (get_slot s sl))
       \<or> \<not> unused e \<and> first_cluster e \<noteq> 0 \<and> c = first_cluster e"
    using assms unfolding change_def Let_def by (elim conjE)
  then show "c \<in> dom G1 \<longleftrightarrow> c \<in> dom G \<and> \<not> (\<not> unused (get_slot s sl) \<and> c = first_cluster (get_slot s sl))
       \<or> \<not> unused e \<and> first_cluster e \<noteq> 0 \<and> c = first_cluster e" by (rule spec)
  have "\<forall>c\<in>dom G. \<not> (\<not> unused (get_slot s sl) \<and> c = first_cluster (get_slot s sl)) \<longrightarrow> G1 c = G c"
    using assms unfolding change_def Let_def by (elim conjE)
  then show "c \<in> dom G \<Longrightarrow> \<not> (\<not> unused (get_slot s sl) \<and> c = first_cluster (get_slot s sl)) \<Longrightarrow> G1 c = G c"
    by blast
  show "key D \<in> insert 0 ds" by (rule valid_dir_key [OF D])
qed

abbreviation put_entry :: "dir_ref \<Rightarrow> slot \<Rightarrow> dirent \<Rightarrow> disk \<Rightarrow> fs \<Rightarrow> fs" where
  "put_entry D sl e d1 s \<equiv> dir_write_entry (slot_loc D sl) e (s\<lparr>fs_disk := d1\<rparr>)"

lemma change_slot:
  assumes "change s G ds D sl e d1 G1"
  shows "loc_slot (slot_loc D sl) = sl" "slot_ok sl"
proof -
  note cd = changeD [OF assms] and st = volD(1) [OF changeD(1) [OF assms]]
  show "loc_slot (slot_loc D sl) = sl" by (rule loc_slot_loc [OF st valid_dir_ok [OF cd(1,2)] cd(3)])
  show "slot_ok sl" by (rule in_dir_slot_ok [OF st cd(3)])
qed

lemma change_get:
  assumes c: "change s G ds D sl e d1 G1" and q: "q \<in> insert 0 ds" "in_dir G q sl'"
  shows "get_slot (put_entry D sl e d1 s) sl' = (if sl' = sl then e else get_slot s sl')"
proof -
  note cd = changeD [OF c] and vd = volD [OF changeD(1) [OF c]]
  obtain A where A: "only_changes (fs_disk s) d1 A" "spare G (get_slot s sl) A" using cd(8) by blast
  have "length (fs_root (s\<lparr>fs_disk := d1\<rparr>)) = 128" using vd(2) by (simp add: root_wf_def)
  then show ?thesis
    using get_dir_write [of "slot_loc D sl" sl' e "s\<lparr>fs_disk := d1\<rparr>"] change_slot [OF c] in_dir_slot_ok [OF vd(1) q(2)]
      cd(5) spare_slots [OF cd(1,13,3,4) A q] by (simp del: get_slot_simps)
qed

lemma change_tree:
  assumes c: "change s G ds D sl e d1 G1"
  shows "tree_ok G1 ds (get_slot (put_entry D sl e d1 s))"
proof -
  note cd = changeD [OF c]
  have new: "get_slot (put_entry D sl e d1 s) sl = e" using change_get [OF c cd(13,3)] by simp
  have other: "\<And>q sl'. q \<in> insert 0 ds \<Longrightarrow> in_dir G q sl' \<Longrightarrow> sl' \<noteq> sl \<Longrightarrow>
      get_slot (put_entry D sl e d1 s) sl' = get_slot s sl'"
    using change_get [OF c] by (simp del: get_slot_simps)
  show ?thesis
    by (rule tree_put [OF volD(1) [OF cd(1)] volD(5) [OF cd(1)] cd(13,3,4) new other cd(7,9,10,11,12)])
qed

lemma change_vol:
  assumes c: "change s G ds D sl e d1 G1"
  shows "vol (put_entry D sl e d1 s) G1 ds"
proof -
  note cd = changeD [OF c] and slot = change_slot [OF c]
  have ok: "slot_ok (loc_slot (slot_loc D sl))" using slot by simp
  obtain A where "only_changes (fs_disk s) d1 A" using cd(8) by blast
  then have "base_ok (s\<lparr>fs_disk := d1\<rparr>)" using base_ok_changes cd(1) by (simp add: vol_base)
  moreover have "store (fs_disk (put_entry D sl e d1 s)) G1" by (rule store_put [OF _ ok]) (simp add: cd(6))
  ultimately show ?thesis
    using base_ok_put [OF _ ok cd(5)] change_tree [OF c] cd(1) by (simp add: vol_base cwd_dir_def)
qed

section \<open>The data of files\<close>

lemma change_keeps_data:
  assumes c: "change s G ds D sl e d1 G1" and x: "G1 f = Some xs" "f \<notin> ds" "x \<in> set xs"
  shows "fs_disk (put_entry D sl e d1 s) (cluster_to_lba x) = d1 (cluster_to_lba x)"
proof -
  note cd = changeD [OF c]
  have "in_dir G1 (key D) sl \<longleftrightarrow> in_dir G (key D) sl" by (rule in_dir_cong [OF cd(7) cd(13)])
  then have "in_dir G1 (key D) (loc_slot (slot_loc D sl))" unfolding change_slot(1) [OF c] using cd(3) by blast
  moreover have "f \<noteq> key D" using x(1,2) cd(13) store_not_0 [OF cd(6)] by auto
  ultimately show ?thesis using put_keeps_data [of "s\<lparr>fs_disk := d1\<rparr>" G1 "key D" "slot_loc D sl" f xs x] cd(6) x by simp
qed

lemma change_bytes:
  assumes "change s G ds D sl e d1 G1" "first_cluster f \<notin> ds"
  shows "file_bytes (fs_disk (put_entry D sl e d1 s)) G1 f = file_bytes d1 G1 f"
proof (cases "G1 (first_cluster f)")
  case (Some xs)
  have "bytes (fs_disk (put_entry D sl e d1 s)) xs = bytes d1 xs"
    by (rule bytes_cong, rule change_keeps_data [OF assms(1) Some assms(2)])
  with Some show ?thesis by (simp add: file_bytes_def)
qed (simp add: file_bytes_def)

lemma change_other_chain:
  assumes c: "change s G ds D sl e d1 G1" and o: "owns G ds (get_slot s) q sl'" "sl' \<noteq> sl" "\<not> is_dir (get_slot s sl')"
  shows "file_bytes d1 G1 (get_slot s sl') = file_bytes (fs_disk s) G (get_slot s sl')"
proof (cases "first_cluster (get_slot s sl') = 0")
  case True
  then show ?thesis
    using store_not_0 [OF changeD(6) [OF c]] store_not_0 [OF volD(1) [OF changeD(1) [OF c]]] by (simp add: file_bytes_def)
next
  case nz: False
  note cd = changeD [OF c] and vd = volD [OF changeD(1) [OF c]]
  let ?c = "first_cluster (get_slot s sl')"
  obtain A where A: "only_changes (fs_disk s) d1 A" "spare G (get_slot s sl) A" using cd(8) by blast
  have "?c \<in> dom G" by (rule owned_chain [OF vd(5) o(1) nz])
  then obtain xs where xs: "G ?c = Some xs" by blast
  have ne: "\<not> (\<not> unused (get_slot s sl) \<and> ?c = first_cluster (get_slot s sl))"
  proof
    assume a: "\<not> unused (get_slot s sl) \<and> ?c = first_cluster (get_slot s sl)"
    then have "owns G ds (get_slot s) (key D) sl" using cd(3,4,13) by (simp add: owns_def)
    from tree_okD(3) [OF vd(5) o(1) this] a nz o(2) show False by blast
  qed
  then have "x \<notin> A" if "x \<in> set xs" for x using A(2) xs that unfolding spare_def by blast
  then have "bytes d1 xs = bytes (fs_disk s) xs"
    by (intro bytes_cong only_changes_data [OF A(1)]) (use storeD(3) [OF vd(1) xs] in blast)+
  moreover have "G1 ?c = Some xs" using cd(12) [OF _ ne] xs by auto
  ultimately show ?thesis using xs by (simp add: file_bytes_def)
qed

lemma change_node:
  assumes c: "change s G ds D sl e d1 G1" and h: "q \<in> insert 0 ds" "in_dir G q sl'" "\<not> unused (get_slot s sl')" "sl' \<noteq> sl"
  shows "node_of (fs_disk (put_entry D sl e d1 s)) G1 (get_slot s sl') = node_of (fs_disk s) G (get_slot s sl')"
proof (cases "is_dir (get_slot s sl')")
  case False
  note vd = volD [OF changeD(1) [OF c]]
  have nd: "\<not> dot_slot ds sl'" using False dot_slot_name(3) [OF vd(5)] by blast
  then have "owns G ds (get_slot s) q sl'" using h by (simp add: owns_def)
  from change_other_chain [OF c this h(4) False] change_bytes [OF c old_file_chain [OF vd(1,5) h(1,2) nd h(3) False]] False
  show ?thesis by (simp add: node_of_def)
qed (simp add: node_of_def)

lemma change_new_node:
  assumes c: "change s G ds D sl e d1 G1" and e: "\<not> unused e"
  shows "node_of (fs_disk (put_entry D sl e d1 s)) G1 e = node_of d1 G1 e"
proof (cases "is_dir e")
  case False
  note vd = volD [OF changeD(1) [OF c]]
  have "first_cluster e \<notin> ds"
    using changeD(10) [OF c e] dirs_not_0 [OF vd(1,5)] False by (auto simp: entry_ok_def split: if_splits)
  with False change_bytes [OF c] show ?thesis by (simp add: node_of_def)
qed (simp add: node_of_def)

section \<open>The tree after the change\<close>

lemma change_holds:
  assumes c: "change s G ds D sl e d1 G1" and q: "q \<in> insert 0 ds"
  shows "holds G1 (get_slot (put_entry D sl e d1 s)) q k sl' \<longleftrightarrow>
    (if sl' = sl then q = key D \<and> \<not> unused e \<and> ename e = k else holds G (get_slot s) q k sl')"
proof -
  note cd = changeD [OF c]
  have ind: "in_dir G1 q sl' \<longleftrightarrow> in_dir G q sl'" by (rule in_dir_cong [OF cd(7) q])
  show ?thesis
  proof (cases "in_dir G q sl'")
    case True
    then have "sl' = sl \<Longrightarrow> q = key D" using in_dir_unique [OF volD(1) [OF cd(1)] cd(3)] by blast
    with True ind change_get [OF c q True] show ?thesis
      by (cases "sl' = sl") (simp_all add: holds_def del: get_slot_simps)
  next
    case False
    then have "\<not> holds G (get_slot s) q k sl'" "\<not> holds G1 (get_slot (put_entry D sl e d1 s)) q k sl'"
      using ind unfolding holds_def by blast+
    with False cd(3) show ?thesis by auto
  qed
qed

lemma shows_treeD:
  assumes "shows_tree d G ds \<sigma> T"
  shows "T p k = Some n \<longleftrightarrow> p \<in> insert 0 ds \<and> (\<exists>sl. holds G \<sigma> p k sl \<and> n = node_of d G (\<sigma> sl))"
  using assms unfolding shows_tree_def by blast

text \<open>The entries that a name has after the change.\<close>

lemma change_found:
  assumes c: "change s G ds D sl e d1 G1" and q: "q \<in> insert 0 ds"
  shows "(\<exists>sl'. holds G1 (get_slot (put_entry D sl e d1 s)) q k sl' \<and>
      n = node_of (fs_disk (put_entry D sl e d1 s)) G1 (get_slot (put_entry D sl e d1 s) sl'))
    \<longleftrightarrow> q = key D \<and> \<not> unused e \<and> k = ename e \<and> n = node_of d1 G1 e
      \<or> (\<exists>sl'. sl' \<noteq> sl \<and> holds G (get_slot s) q k sl' \<and> n = node_of (fs_disk s) G (get_slot s sl'))"
    (is "(\<exists>sl'. ?new sl' \<and> n = ?node sl') \<longleftrightarrow> ?e \<or> (\<exists>sl'. sl' \<noteq> sl \<and> ?old sl')")
proof -
  note cd = changeD [OF c]
  have at: "get_slot (put_entry D sl e d1 s) sl = e" using change_get [OF c cd(13,3)] by simp
  have "?new sl \<and> n = ?node sl \<longleftrightarrow> ?e"
    unfolding change_holds [OF c q] at using change_new_node [OF c] by auto
  moreover have "?new sl' \<and> n = ?node sl' \<longleftrightarrow> ?old sl'" if ne: "sl' \<noteq> sl" for sl'
  proof (cases "holds G (get_slot s) q k sl'")
    case True
    then have "in_dir G q sl'" "\<not> unused (get_slot s sl')" by (simp_all add: holds_def del: get_slot_simps)
    with ne True change_get [OF c q] change_node [OF c q] show ?thesis by (simp add: change_holds [OF c q] del: get_slot_simps)
  next
    case False
    with ne show ?thesis by (simp add: change_holds [OF c q] del: get_slot_simps)
  qed
  ultimately show ?thesis by metis
qed

lemma change_shows:
  assumes c: "change s G ds D sl e d1 G1" and T: "shows_tree (fs_disk s) G ds (get_slot s) T"
  shows "shows_tree (fs_disk (put_entry D sl e d1 s)) G1 ds (get_slot (put_entry D sl e d1 s))
    (tree_set T (key D) (get_slot s sl) e (node_of d1 G1 e))"
  unfolding shows_tree_def
proof (intro allI)
  fix q k n
  note cd = changeD [OF c] and vd = volD [OF changeD(1) [OF c]] and tr = shows_treeD [OF T]
  let ?p = "key D" and ?\<sigma> = "get_slot s" and ?s' = "put_entry D sl e d1 s"
  let ?L = "tree_set T ?p (?\<sigma> sl) e (node_of d1 G1 e) q k = Some n"
  let ?R = "\<exists>sl'. holds G1 (get_slot ?s') q k sl' \<and> n = node_of (fs_disk ?s') G1 (get_slot ?s' sl')"
  show "?L \<longleftrightarrow> q \<in> insert 0 ds \<and> ?R"
  proof (cases "q \<in> insert 0 ds")
    case False
    then have "T q k = None" using tr [of q k] by (cases "T q k") auto
    moreover have "q \<noteq> ?p" using False cd(13) by blast
    ultimately show ?thesis using False by (simp add: tree_set_def)
  next
    case q: True
    note R = change_found [OF c q, of k n]
    have "q = ?p" if "in_dir G q sl" by (rule in_dir_unique [OF vd(1) that cd(3)])
    then have old: "holds G ?\<sigma> q k sl \<longleftrightarrow> q = ?p \<and> \<not> unused (?\<sigma> sl) \<and> k = ename (?\<sigma> sl)"
      using cd(3) unfolding holds_def by blast
    have uniq: "\<And>sl'. holds G ?\<sigma> q k sl' \<Longrightarrow> holds G ?\<sigma> q k sl \<Longrightarrow> sl' = sl" by (rule tree_okD(6) [OF vd(5) q])
    consider "q = ?p" "\<not> unused e" "k = ename e"
      | "q = ?p" "\<not> (\<not> unused e \<and> k = ename e)" "\<not> unused (?\<sigma> sl)" "k = ename (?\<sigma> sl)"
      | "\<not> holds G ?\<sigma> q k sl" "q = ?p \<Longrightarrow> \<not> (\<not> unused e \<and> k = ename e)" using old by blast
    then show ?thesis
    proof cases
      case 1
      then have "?L \<longleftrightarrow> n = node_of d1 G1 e" by (auto simp: tree_set_def)
      moreover have "\<And>sl'. holds G ?\<sigma> q k sl' \<Longrightarrow> sl' = sl" using cd(10) 1 by blast
      then have "?R \<longleftrightarrow> n = node_of d1 G1 e" unfolding R using 1 by blast
      ultimately show ?thesis using q by blast
    next
      case 2
      then have "\<not> ?L" by (auto simp: tree_set_def)
      moreover have "holds G ?\<sigma> q k sl" using old 2 by blast
      then have "\<not> ?R" unfolding R using uniq 2(2) by blast
      ultimately show ?thesis by blast
    next
      case 3
      then have "?L \<longleftrightarrow> T q k = Some n" using old unfolding tree_set_def by auto
      moreover have "?R \<longleftrightarrow> (\<exists>sl'. holds G ?\<sigma> q k sl' \<and> n = node_of (fs_disk s) G (?\<sigma> sl'))"
      proof -
        have "sl' \<noteq> sl" if "holds G ?\<sigma> q k sl'" for sl' using that 3(1) by (intro notI) (simp only:)
        then show ?thesis unfolding R using 3(2) by blast
      qed
      ultimately show ?thesis using q tr by blast
    qed
  qed
qed

end
