(* ===== verification/FileOps.thy ===== *)
theory FileOps
  imports Entries
begin

text \<open>
  Consistent volumes that show a tree (\<open>models\<close>), and the operations of \<open>kernel/fs.c\<close> on a file that exists:
  \<open>fs_write_entry\<close>, \<open>fs_read\<close>, \<open>fs_stat\<close> and \<open>fs_delete\<close>. Each keeps the volume consistent and acts on the tree as its
  name says, on every path to its return.
\<close>

section \<open>Volumes that represent a tree\<close>

definition models :: "fs \<Rightarrow> chains \<Rightarrow> u16 set \<Rightarrow> tree \<Rightarrow> bool" where
  "models s G ds T \<longleftrightarrow> vol s G ds \<and> shows_tree (fs_disk s) G ds (get_slot s) T"

lemma modelsD:
  assumes "models s G ds T"
  shows "vol s G ds" "shows_tree (fs_disk s) G ds (get_slot s) T"
  using assms by (simp_all add: models_def)

lemma represents_models: "represents s T \<longleftrightarrow> (\<exists>G ds. models s G ds T)"
  by (simp add: represents_def models_def)

definition same_cwd :: "fs \<Rightarrow> fs \<Rightarrow> bool" where
  "same_cwd s s' \<longleftrightarrow> cwd_is_root s' = cwd_is_root s \<and> cwd_cluster s' = cwd_cluster s \<and> cwd_path s' = cwd_path s"

lemma same_cwd_refl [simp]: "same_cwd s s"
  by (simp add: same_cwd_def)

lemma same_cwd_write [simp]: "same_cwd s (dir_write_entry l e s') = same_cwd s s'" "same_cwd s (s'\<lparr>fs_disk := d\<rparr>) = same_cwd s s'"
  by (simp_all add: same_cwd_def)

lemma same_cwd_key: "same_cwd s s' \<Longrightarrow> cwd_key s' = cwd_key s"
  by (simp add: same_cwd_def cwd_key_def cwd_dir_def)

text \<open>A name that a user can give, and the slot that holds it.\<close>

definition user_name :: "fname \<Rightarrow> bool" where
  "user_name k \<longleftrightarrow> fname_ok k \<and> fst k \<noteq> DOT_NAME \<and> fst k \<noteq> DOTDOT_NAME"

lemma user_name_split [simp]: "user_name (split_name s)"
  using split_name_not_dots [of s "fst (split_name s)" "snd (split_name s)"] by (simp add: user_name_def split_name_ok)

lemma holds_slot:
  assumes m: "models s G ds T" and D: "valid_dir ds D" and h: "holds G (get_slot s) (key D) k sl" and k: "user_name k"
  shows "owns G ds (get_slot s) (key D) sl" "in_dir G (key D) sl" "\<not> dot_slot ds sl" "\<not> unused (get_slot s sl)"
    "ename (get_slot s sl) = k" "entry_ok G ds (get_slot s sl)" "wf_dirent (get_slot s sl)"
proof -
  note vd = volD [OF modelsD(1) [OF m]]
  show o: "owns G ds (get_slot s) (key D) sl"
    by (rule holds_owns [OF vd(5) h valid_dir_key [OF D]]) (use k in \<open>simp_all add: user_name_def\<close>)
  show "entry_ok G ds (get_slot s sl)" by (rule tree_okD(2) [OF vd(5) o])
  show i: "in_dir G (key D) sl" "\<not> dot_slot ds sl" "\<not> unused (get_slot s sl)" "ename (get_slot s sl) = k"
    using o h unfolding owns_def holds_def by blast+
  show "wf_dirent (get_slot s sl)" by (rule wf_get_slot [OF vd(2) in_dir_slot_ok [OF vd(1) i(1)]])
qed

section \<open>Trees with one name changed\<close>

lemma tree_set_same: "\<not> unused e \<Longrightarrow> \<not> unused old \<Longrightarrow> ename e = ename old \<Longrightarrow>
    tree_set T p old e n = T(p := (T p)(ename old \<mapsto> n))"
  by (auto simp: tree_set_def fun_eq_iff)

lemma tree_set_new: "\<not> unused e \<Longrightarrow> unused old \<Longrightarrow> tree_set T p old e n = T(p := (T p)(ename e \<mapsto> n))"
  by (auto simp: tree_set_def fun_eq_iff)

lemma tree_set_del: "unused e \<Longrightarrow> \<not> unused old \<Longrightarrow> tree_set T p old e n = T(p := (T p)(ename old := None))"
  by (auto simp: tree_set_def fun_eq_iff)

lemma tree_set_rename: "\<not> unused e \<Longrightarrow> \<not> unused old \<Longrightarrow>
    tree_set T p old e n = T(p := (T p)(ename old := None, ename e \<mapsto> n))"
  by (auto simp: tree_set_def fun_eq_iff)

section \<open>Sizes\<close>

lemma data_cluster_count: "card {c. data_cluster c} \<le> 15949"
proof -
  have "unat ` {c. data_cluster c} \<subseteq> {2..<15951}" by (auto simp: data_cluster_def)
  then have "card (unat ` {c. data_cluster c}) \<le> 15949" using card_mono [of "{2..<15951::nat}"] by fastforce
  moreover have "inj_on unat {c. data_cluster c}" by (simp add: inj_on_def word_unat_eq_iff)
  ultimately show ?thesis by (simp add: card_image)
qed

lemma clusters_bound: "distinct xs \<Longrightarrow> \<forall>x\<in>set xs. data_cluster x \<Longrightarrow> length xs \<le> 15949"
  using card_mono [of "{c. data_cluster c}" "set xs"] data_cluster_count
  by (simp add: distinct_card [symmetric]) (metis (no_types, lifting) finite le_trans mem_Collect_eq subsetI)

lemma chain_bound: "store d G \<Longrightarrow> G c = Some xs \<Longrightarrow> length xs \<le> 15949"
  using storeD(3,7) [of d G c xs] clusters_bound by blast

lemma clusters_for_size:
  assumes "unat (n :: u32) \<le> 0xFFFFFE00"
  shows "unat ((n + of_nat FS_BYTES_PER_SECTOR - 1) div of_nat FS_BYTES_PER_SECTOR) = (unat n + 511) div 512"
proof -
  have "n + of_nat FS_BYTES_PER_SECTOR - 1 = n + 511" by simp
  moreover have "unat (n + 511) = unat n + 511" using assms by (subst unat_add_u32) simp_all
  ultimately show ?thesis by (simp only: unat_div layout_values) simp
qed

section \<open>A file gets a new chain\<close>

lemma extended_dom: "c \<in> dom (extended G cs) \<longleftrightarrow> c \<in> dom G \<or> cs \<noteq> [] \<and> c = hd cs"
  by (auto simp: extended_def)

lemma extended_hd: "cs \<noteq> [] \<Longrightarrow> extended G cs (hd cs) = Some cs"
  by (simp add: extended_def)

lemma chain_file_bytes:
  assumes "store d (extended G cs)" "first_cluster e = start_of cs"
  shows "file_bytes d (extended G cs) e = take (unat (file_size e)) (bytes d cs)"
proof (cases "cs = []")
  case True
  with assms store_not_0 [OF assms(1)] show ?thesis by (simp add: file_bytes_def start_of_def)
next
  case False
  with assms(2) extended_hd [OF False] show ?thesis by (simp add: file_bytes_def start_of_def)
qed

lemma extended_other: "cs = [] \<or> c \<noteq> hd cs \<Longrightarrow> extended G cs c = G c"
  by (auto simp: extended_def)

lemma swap_chain:
  assumes st: "store d G" and G0: "G0 = G(f := None)" and cs: "set cs \<inter> clusters G0 = {}"
  shows "cs \<noteq> [] \<Longrightarrow> hd cs \<notin> dom G \<or> hd cs = f" "c \<in> dom G \<Longrightarrow> c \<noteq> f \<Longrightarrow> extended G0 cs c = G c"
    "c \<in> dom (extended G0 cs) \<longleftrightarrow> c \<in> dom G \<and> c \<noteq> f \<or> cs \<noteq> [] \<and> c = hd cs"
proof -
  have in_own: "c \<in> clusters G0" if "c \<in> dom G" "c \<noteq> f" for c
  proof -
    from that(1) obtain xs where xs: "G c = Some xs" unfolding dom_def by blast
    then have "c \<in> set xs" by (rule storeD(5) [OF st])
    with xs that(2) show ?thesis by (auto simp: in_clusters G0)
  qed
  show new: "hd cs \<notin> dom G \<or> hd cs = f" if "cs \<noteq> []" using hd_in_set [OF that] in_own cs by blast
  show "extended G0 cs c = G c" if "c \<in> dom G" "c \<noteq> f"
  proof -
    have "cs = [] \<or> c \<noteq> hd cs" using that new by blast
    then show ?thesis using that(2) by (simp add: extended_other G0)
  qed
  show "c \<in> dom (extended G0 cs) \<longleftrightarrow> c \<in> dom G \<and> c \<noteq> f \<or> cs \<noteq> [] \<and> c = hd cs"
    unfolding extended_dom by (auto simp: G0)
qed

lemma swap_spare:
  assumes "A \<inter> clusters (G(first_cluster e := None)) = {}" "\<not> unused e" "\<not> is_dir e"
  shows "spare G e A"
  unfolding spare_def
proof (intro ballI allI impI)
  fix x c xs assume x: "x \<in> A" "G c = Some xs" "x \<in> set xs"
  have "c = first_cluster e"
  proof (rule ccontr)
    assume "c \<noteq> first_cluster e"
    with x(2) have "(G(first_cluster e := None)) c = Some xs" by simp
    with x(3) have "x \<in> clusters (G(first_cluster e := None))" unfolding in_clusters by blast
    with x(1) assms(1) show False by blast
  qed
  with assms(2,3) show "\<not> unused e \<and> \<not> is_dir e \<and> c = first_cluster e" by blast
qed

lemma change_file:
  assumes m: "models s G ds T" and D: "valid_dir ds D" and h: "holds G (get_slot s) (key D) k sl" and k: "user_name k"
    and f: "\<not> is_dir (get_slot s sl)"
    and G0: "G0 = G(first_cluster (get_slot s sl) := None)"
    and cs: "set cs \<inter> clusters G0 = {}" "\<forall>x\<in>set cs. data_cluster x" "length cs = (unat n + 511) div 512"
    and st: "store d1 (extended G0 cs)" and fr: "only_changes (fs_disk s) d1 A" "A \<inter> clusters G0 = {}"
    and e: "e = (get_slot s sl)\<lparr>first_cluster := start_of cs, file_size := n\<rparr>"
  shows "change s G ds D sl e d1 (extended G0 cs)"
proof -
  let ?old = "get_slot s sl" and ?G1 = "extended G0 cs"
  note v = modelsD(1) [OF m] and slot = holds_slot [OF m D h k]
  note vd = volD [OF v]
  note swap = swap_chain [OF vd(1) G0 cs(1)]
  have nd: "first_cluster ?old \<notin> ds"
    by (rule old_file_chain [OF vd(1,5) valid_dir_key [OF D] slot(2,3,4) f])
  have dsG: "ds \<subseteq> dom G" by (rule tree_okD(1) [OF vd(5)])
  have start: "cs \<noteq> [] \<Longrightarrow> start_of cs = hd cs \<and> hd cs \<in> set cs \<and> hd cs \<noteq> 0" "cs = [] \<Longrightarrow> start_of cs = 0"
    using cs(2) data_cluster_nz by (auto simp: start_of_def)
  have same: "is_dir e = is_dir ?old" "ename e = ename ?old" "unused e = unused ?old" "first_cluster e = start_of cs" "file_size e = n"
    "de_name e = de_name ?old" by (simp_all add: e is_dir_def ename_def unused_def)
  have hd_ds: "hd cs \<notin> ds" if "cs \<noteq> []" using swap(1) [OF that] dsG nd by auto
  have ok: "entry_ok ?G1 ds e"
  proof (cases "cs = []")
    case True
    then have "n = 0" using cs(3) by (auto simp: div_eq_0_iff unat_eq_0)
    with True slot(6) start(2) f same show ?thesis by (simp add: entry_ok_def)
  next
    case False
    then have "?G1 (hd cs) = Some cs" by (simp add: extended_def)
    with False slot(6) start(1) f same cs(3) hd_ds show ?thesis by (simp add: entry_ok_def)
  qed
  have names: "\<forall>sl'. holds G (get_slot s) (key D) (ename e) sl' \<longrightarrow> sl' = sl"
    using tree_okD(6) [OF vd(5) valid_dir_key [OF D] _ h] same(2) slot(5) by auto
  have "cs \<noteq> [] \<and> c = hd cs \<longleftrightarrow> first_cluster e \<noteq> 0 \<and> c = first_cluster e" for c using start same(4) by (cases "cs = []") auto
  then have dom: "\<forall>c. c \<in> dom ?G1 \<longleftrightarrow> c \<in> dom G \<and> \<not> (\<not> unused ?old \<and> c = first_cluster ?old)
      \<or> \<not> unused e \<and> first_cluster e \<noteq> 0 \<and> c = first_cluster e"
    unfolding swap(3) using same(3) slot(4) by blast
  have spare: "spare G ?old A" by (rule swap_spare [OF fr(2) [unfolded G0] slot(4) f])
  have wf: "wf_dirent e" using slot(7) by (simp add: e wf_dirent_def)
  have dirs: "\<forall>b\<in>ds. ?G1 b = G b" using swap(2) nd dsG by (metis subsetD)
  have owner: "first_cluster e \<in> dom G \<longrightarrow> \<not> unused ?old \<and> first_cluster e = first_cluster ?old"
    using swap(1) start same(4) slot(4) store_not_0 [OF vd(1)] by (cases "cs = []") auto
  have kp: "\<forall>c\<in>dom G. \<not> (\<not> unused ?old \<and> c = first_cluster ?old) \<longrightarrow> ?G1 c = G c" using swap(2) slot(4) by blast
  show ?thesis
    unfolding change_def Let_def
    using v D slot(2,3) wf st dirs fr(1) spare f ok names owner dom kp by blast
qed

section \<open>Writing\<close>

definition freed :: "dirent \<Rightarrow> disk \<Rightarrow> disk" where
  "freed e d = (if first_cluster e \<noteq> 0 then fat_free_chain (first_cluster e) d else d)"

lemma freed_state: "(if first_cluster e \<noteq> 0 then s\<lparr>fs_disk := fat_free_chain (first_cluster e) (fs_disk s)\<rparr> else s)
    = s\<lparr>fs_disk := freed e (fs_disk s)\<rparr>"
  by (cases "first_cluster e = 0") (simp_all add: freed_def)

lemma freed_file:
  assumes st: "store d G" and e: "entry_ok G ds e" "\<not> is_dir e"
  shows "store (freed e d) (G(first_cluster e := None))" "only_changes d (freed e d) {}"
proof -
  have "store (freed e d) (G(first_cluster e := None)) \<and> (\<forall>lba. \<not> fat_area lba \<longrightarrow> freed e d lba = d lba)"
  proof (cases "first_cluster e = 0")
    case True
    then have "G(first_cluster e := None) = G" using store_not_0 [OF st] by (simp add: fun_upd_idem)
    with True st show ?thesis by (simp add: freed_def)
  next
    case False
    with e obtain xs where "G (first_cluster e) = Some xs" by (auto simp: entry_ok_def)
    from store_free [OF st this] False show ?thesis by (simp add: freed_def)
  qed
  then show "store (freed e d) (G(first_cluster e := None))" "only_changes d (freed e d) {}"
    by (simp_all add: only_changes_def)
qed

lemma only_changes_trans: "only_changes d d' A \<Longrightarrow> only_changes d' d'' B \<Longrightarrow> only_changes d d'' (A \<union> B)"
  unfolding only_changes_def image_Un by (metis UnE UnI1 UnI2)

lemma extended_drop: "G c = None \<Longrightarrow> cs \<noteq> [] \<Longrightarrow> hd cs = c \<Longrightarrow> (extended G cs)(c := None) = G"
  by (auto simp: extended_def fun_eq_iff)

text \<open>The data loop, started on no clusters.\<close>

lemma write_loop:
  assumes st: "store d G" and w: "append_clusters d 0 0 data = (ok, f, rest, d')"
  shows "\<exists>cs. f = start_of cs \<and> store d' (extended G cs) \<and> set cs \<inter> clusters G = {} \<and> (\<forall>x\<in>set cs. data_cluster x) \<and>
    only_changes d d' (set cs) \<and> (ok \<longrightarrow> length cs = (length data + 511) div 512 \<and> take (length data) (bytes d' cs) = data)"
proof -
  from append_clusters_store [of d "[]" 0 data ok f rest d' G] w st obtain cs where
    cs: "f = start_of cs" "store d' (extended G cs)" "rest = drop (512 * length cs) data" "ok \<longleftrightarrow> rest = []"
      "set cs \<inter> clusters G = {}" "\<forall>x\<in>set cs. data_cluster x" "length cs \<le> (length data + 511) div 512"
      "\<forall>i<length cs. d' (cluster_to_lba (cs ! i)) = sector_of (take 512 (drop (512 * i) data))"
      "\<forall>lba. \<not> fat_area lba \<longrightarrow> lba \<notin> cluster_to_lba ` set cs \<longrightarrow> d' lba = d lba" by (auto simp: start_of_def)
  have "length cs = (length data + 511) div 512 \<and> take (length data) (bytes d' cs) = data" if ok
  proof -
    have "length data \<le> 512 * length cs" using that cs(3,4) by simp
    then have "length cs = (length data + 511) div 512" using cs(7) by linarith
    with bytes_chunks [OF cs(8) this] show ?thesis by blast
  qed
  with cs(1,2,5,6,9) show ?thesis by (intro exI [of _ cs]) (simp add: only_changes_def)
qed

text \<open>Giving the clusters of a loop that failed back.\<close>

lemma undo_loop:
  assumes st: "store d0 G" and cs: "store d1 (extended G cs)" "set cs \<inter> clusters G = {}" "\<forall>x\<in>set cs. data_cluster x"
    and ch: "only_changes d d1 A" and f: "f = start_of cs"
  shows "store (if f \<noteq> 0 then fat_free_chain f d1 else d1) G"
    "only_changes d (if f \<noteq> 0 then fat_free_chain f d1 else d1) A"
proof -
  have "store (if f \<noteq> 0 then fat_free_chain f d1 else d1) G \<and> only_changes d (if f \<noteq> 0 then fat_free_chain f d1 else d1) A"
  proof (cases "cs = []")
    case True
    then show ?thesis using cs(1) ch f by (simp add: start_of_def extended_def)
  next
    case False
    then have hd: "f = hd cs" "f \<noteq> 0" "hd cs \<in> set cs" using f cs(3) data_cluster_nz by (auto simp: start_of_def)
    have "extended G cs f = Some cs" using False hd(1) by (simp add: extended_def)
    note free = store_free [OF cs(1) this]
    have "G f = None"
    proof (cases "G f")
      case (Some ys)
      then have "f \<in> clusters G" using storeD(5) [OF st Some] unfolding in_clusters by blast
      with cs(2) hd(1,3) show ?thesis by blast
    qed simp
    have "(extended G cs)(f := None) = G" by (rule extended_drop [where c = f]) (use \<open>G f = None\<close> False hd(1) in auto)
    from free(1) [unfolded this] have "store (fat_free_chain f d1) G" .
    moreover have "only_changes d (fat_free_chain f d1) A" using ch free(2) unfolding only_changes_def by simp
    ultimately show ?thesis using hd(2) by simp
  qed
  then show "store (if f \<noteq> 0 then fat_free_chain f d1 else d1) G"
    "only_changes d (if f \<noteq> 0 then fat_free_chain f d1 else d1) A" by blast+
qed

lemma not_dir_attr: "\<not> is_dir e \<longleftrightarrow> de_attr e AND FS_ATTR_DIRECTORY = 0"
  by (simp add: is_dir_def)

text \<open>What the change of a file does to the model.\<close>

lemma models_change:
  assumes m: "models s G ds T" and c: "change s G ds D sl e d1 G1"
  shows "models (put_entry D sl e d1 s) G1 ds (tree_set T (key D) (get_slot s sl) e (node_of d1 G1 e))"
  using change_vol [OF c] change_shows [OF c modelsD(2) [OF m]] by (simp add: models_def)

lemma models_file:
  assumes m: "models s G ds T" and D: "valid_dir ds D" and h: "holds G (get_slot s) (key D) k sl" and k: "user_name k"
    and f: "\<not> is_dir (get_slot s sl)" and c: "change s G ds D sl e d1 G1"
    and e: "e = (get_slot s sl)\<lparr>first_cluster := c, file_size := n\<rparr>"
  shows "models (put_entry D sl e d1 s) G1 ds (T(key D := (T (key D))(k \<mapsto> File (file_bytes d1 G1 e))))"
proof -
  note slot = holds_slot [OF m D h k]
  have "\<not> unused e" "ename e = k" "\<not> is_dir e" using slot(4,5) f by (simp_all add: e unused_def ename_def is_dir_def)
  with models_change [OF m c] slot(4,5) show ?thesis by (simp add: tree_set_same node_of_def)
qed

lemma empty_file_bytes: "store d G \<Longrightarrow> first_cluster e = 0 \<Longrightarrow> file_bytes d G e = []"
  by (simp add: file_bytes_def store_not_0)

lemma truncate_models:
  assumes m: "models s G ds T" and D: "valid_dir ds D" and h: "holds G (get_slot s) (key D) k sl" and k: "user_name k"
    and f: "\<not> is_dir (get_slot s sl)" and G0: "G0 = G(first_cluster (get_slot s sl) := None)"
    and st: "store d1 G0" and fr: "only_changes (fs_disk s) d1 A" "A \<inter> clusters G0 = {}"
  shows "models (put_entry D sl ((get_slot s sl)\<lparr>first_cluster := 0, file_size := 0\<rparr>) d1 s) G0 ds
    (T(key D := (T (key D))(k \<mapsto> File [])))"
proof -
  let ?e = "(get_slot s sl)\<lparr>first_cluster := 0, file_size := 0\<rparr>"
  have "change s G ds D sl ?e d1 (extended G0 [])"
    by (rule change_file [OF m D h k f G0, where n = 0]) (use st fr in \<open>simp_all add: extended_def start_of_def\<close>)
  then have c: "change s G ds D sl ?e d1 G0" by (simp add: extended_def)
  have "file_bytes d1 G0 ?e = []" by (rule empty_file_bytes [OF st]) simp
  with models_file [OF m D h k f c refl] show ?thesis by simp
qed

lemma fs_write_entry_models:
  assumes m: "models s G ds T" and D: "valid_dir ds D" and h: "holds G (get_slot s) (key D) k sl" and k: "user_name k"
    and f: "\<not> is_dir (get_slot s sl)" and n: "length data \<le> 0xFFFFFE00"
    and w: "fs_write_entry (get_slot s sl) (slot_loc D sl) data s = (r, s')"
  shows "same_cwd s s' \<and> (\<exists>G'. r = 0 \<and> models s' G' ds (T(key D := (T (key D))(k \<mapsto> File data)))
      \<or> r = -1 \<and> models s' G' ds (T(key D := (T (key D))(k \<mapsto> File []))))"
proof -
  let ?e = "get_slot s sl"
  let ?d0 = "freed ?e (fs_disk s)" and ?G0 = "G(first_cluster ?e := None)"
  let ?emp = "?e\<lparr>first_cluster := 0, file_size := 0\<rparr>" and ?n = "of_nat (length data) :: u32"
  note slot = holds_slot [OF m D h k]
  note fr = freed_file [OF volD(1) [OF modelsD(1) [OF m]] slot(6) f]
  have un: "unat ?n = length data" using n by (simp add: unat_of_nat)
  have num: "unat ((?n + of_nat FS_BYTES_PER_SECTOR - 1) div of_nat FS_BYTES_PER_SECTOR) = (length data + 511) div 512"
    using clusters_for_size [of ?n] un n by simp
  obtain ok fi rest d1 where a: "append_clusters ?d0 0 0 data = (ok, fi, rest, d1)" using prod_cases4 by blast
  have wr: "write_clusters ((length data + 511) div 512) ?d0 0 0 data = (ok, fi, d1)"
    using write_is_append [of "(length data + 511) div 512" data 0 0 ?d0] a by simp
  have "?n = 0 \<longleftrightarrow> unat ?n = 0" by (simp only: unat_eq_0)
  then have zero: "?n = 0 \<longleftrightarrow> data = []" unfolding un by simp
  note disk = freed_state [of ?e s]
  show ?thesis
  proof (cases "data = []")
    case True
    then have "r = 0" "s' = put_entry D sl ?emp ?d0 s" using w unfolding fs_write_entry_def Let_def disk by simp_all
    with truncate_models [OF m D h k f refl fr] True show ?thesis by auto
  next
    case False
    have res: "(r, s') = (if ok then (0, put_entry D sl (?e\<lparr>first_cluster := fi, file_size := ?n\<rparr>) d1 s)
        else (-1, put_entry D sl ?emp (if fi \<noteq> 0 then fat_free_chain fi d1 else d1) s))"
      using w False zero unfolding fs_write_entry_def Let_def disk num by (cases ok) (simp_all add: wr)
    from write_loop [OF fr(1) a] obtain cs where cs: "fi = start_of cs" "store d1 (extended ?G0 cs)"
      "set cs \<inter> clusters ?G0 = {}" "\<forall>x\<in>set cs. data_cluster x" "only_changes ?d0 d1 (set cs)"
      "ok \<longrightarrow> length cs = (length data + 511) div 512 \<and> take (length data) (bytes d1 cs) = data" by blast
    have ch: "only_changes (fs_disk s) d1 (set cs)" using only_changes_trans [OF fr(2) cs(5)] by simp
    show ?thesis
    proof (cases ok)
      case True
      let ?e1 = "?e\<lparr>first_cluster := start_of cs, file_size := ?n\<rparr>"
      have len: "length cs = (unat ?n + 511) div 512" "take (length data) (bytes d1 cs) = data" using cs(6) True un by simp_all
      then have "cs \<noteq> []" using False by auto
      then have "file_bytes d1 (extended ?G0 cs) ?e1 = data" using len(2) un by (simp add: file_bytes_def start_of_def extended_def)
      with models_file [OF m D h k f change_file [OF m D h k f refl cs(3,4) len(1) cs(2) ch cs(3) refl] refl] res cs(1) True
      show ?thesis by auto
    next
      case fail: False
      note undo = undo_loop [OF fr(1) cs(2-4) ch cs(1)]
      from truncate_models [OF m D h k f refl undo cs(3)] res fail show ?thesis by auto
    qed
  qed
qed

section \<open>Finding an entry by its path\<close>

definition tree_find :: "tree \<Rightarrow> u16 \<Rightarrow> string \<Rightarrow> node option" where
  "tree_find T cwd path = (case tree_resolve T cwd path of None \<Rightarrow> None | Some (p, leaf) \<Rightarrow> T p (split_name leaf))"

text \<open>The outcome of \<open>resolve_parent\<close> followed by \<open>dir_scan\<close>.\<close>

lemma entry_cases:
  assumes m: "models s G ds T"
  obtains (unresolved) "resolve_parent s path = Some (Inl FsFailed)" "tree_resolve T (cwd_key s) path = None"
    | (missing) D leaf where "resolve_parent s path = Some (Inr (D, leaf))" "tree_resolve T (cwd_key s) path = Some (key D, leaf)"
        "valid_dir ds D" "T (key D) (split_name leaf) = None" "\<And>sl. \<not> holds G (get_slot s) (key D) (split_name leaf) sl"
        "dir_scan s D (fst (split_name leaf)) (snd (split_name leaf)) = Some None"
    | (found) D leaf sl where "resolve_parent s path = Some (Inr (D, leaf))" "tree_resolve T (cwd_key s) path = Some (key D, leaf)"
        "valid_dir ds D" "T (key D) (split_name leaf) = Some (node_of (fs_disk s) G (get_slot s sl))"
        "holds G (get_slot s) (key D) (split_name leaf) sl"
        "dir_scan s D (fst (split_name leaf)) (snd (split_name leaf)) = Some (Some (get_slot s sl, slot_loc D sl))"
proof -
  note md = modelsD [OF m]
  from resolve_parent_tree [OF md, of path] show thesis
  proof (elim disjE exE conjE)
    fix D leaf assume r: "resolve_parent s path = Some (Inr (D, leaf))" "tree_resolve T (cwd_key s) path = Some (key D, leaf)"
      "valid_dir ds D"
    from lookup_tree [OF md r(3) split_name_ok [of leaf]] missing [OF r] found [OF r] show thesis by blast
  qed (rule unresolved)
qed

section \<open>Reading\<close>

lemma file_size_bound:
  assumes st: "store d G" and e: "entry_ok G ds e" "\<not> is_dir e" "first_cluster e \<noteq> 0"
  obtains xs where "G (first_cluster e) = Some xs" "unat (file_size e) \<le> 512 * length xs" "unat (file_size e) \<le> 8165888"
    "length xs = (unat (file_size e) + 511) div 512"
proof -
  from e obtain xs where xs: "G (first_cluster e) = Some xs" "length xs = (unat (file_size e) + 511) div 512"
    by (auto simp: entry_ok_def)
  then have le: "unat (file_size e) \<le> 512 * length xs" by linarith
  then have "unat (file_size e) \<le> 8165888" using chain_bound [OF st xs(1)] by linarith
  then show thesis by (rule that [OF xs(1) le _ xs(2)])
qed

lemma length_file_bytes:
  assumes st: "store d G" and e: "entry_ok G ds e" "\<not> is_dir e"
  shows "length (file_bytes d G e) = unat (file_size e)"
proof (cases "first_cluster e = 0")
  case True
  with e have "file_size e = 0" by (simp add: entry_ok_def)
  with empty_file_bytes [OF st True] show ?thesis by simp
next
  case False
  from file_size_bound [OF st e False] obtain xs where "G (first_cluster e) = Some xs" "unat (file_size e) \<le> 512 * length xs"
    by blast
  then show ?thesis by (simp add: file_bytes_def)
qed

lemma read_file_bytes:
  assumes st: "store d G" and e: "entry_ok G ds e" "\<not> is_dir e" and n: "n = (if file_size e > max_size then max_size else file_size e)"
  shows "read_clusters (unat ((n + of_nat FS_BYTES_PER_SECTOR - 1) div of_nat FS_BYTES_PER_SECTOR)) d (first_cluster e) (unat n)
    = take (unat max_size) (file_bytes d G e)"
proof (cases "first_cluster e = 0")
  case True
  with e have "file_size e = 0" by (simp add: entry_ok_def)
  with n empty_file_bytes [OF st True] show ?thesis by simp
next
  case False
  from file_size_bound [OF st e False] obtain xs where xs: "G (first_cluster e) = Some xs"
    "unat (file_size e) \<le> 512 * length xs" "unat (file_size e) \<le> 8165888" by blast
  have un: "unat n = min (unat (file_size e)) (unat max_size)" by (simp add: n min_def word_le_nat_alt word_less_nat_alt)
  have "unat ((n + of_nat FS_BYTES_PER_SECTOR - 1) div of_nat FS_BYTES_PER_SECTOR) = (unat n + 511) div 512"
    by (rule clusters_for_size) (use un xs(3) in simp)
  moreover have "read_clusters ((unat n + 511) div 512) d (first_cluster e) (unat n) = take (unat n) (bytes d xs)"
    by (rule read_clusters_bytes [OF storeD(2) [OF st xs(1)]]) (use un xs(2) in simp_all)
  moreover have "take (unat n) (bytes d xs) = take (unat max_size) (file_bytes d G e)"
    using xs(1) un by (simp add: file_bytes_def min.commute)
  ultimately show ?thesis by simp
qed

lemma node_of_file: "\<not> is_dir e \<Longrightarrow> node_of d G e = File (file_bytes d G e)"
  and node_of_dir: "is_dir e \<Longrightarrow> node_of d G e = Dir (first_cluster e)"
  by (simp_all add: node_of_def)

lemma fs_read_models:
  assumes m: "models s G ds T"
  shows "fs_read path max_size s = Some (case tree_find T (cwd_key s) path of
    Some (File bs) \<Rightarrow> Inr (take (unat max_size) bs) | _ \<Rightarrow> Inl FsFailed)"
  using m
proof (cases rule: entry_cases [where path = path])
  case unresolved
  then show ?thesis by (simp add: fs_read_def tree_find_def)
next
  case (missing D leaf)
  then show ?thesis by (simp add: fs_read_def tree_find_def split_beta)
next
  case (found D leaf sl)
  note slot = holds_slot [OF m found(3,5) user_name_split]
  show ?thesis
  proof (cases "is_dir (get_slot s sl)")
    case True
    with found show ?thesis by (simp add: fs_read_def tree_find_def split_beta node_of_dir is_dir_def)
  next
    case False
    note data = read_file_bytes [OF volD(1) [OF modelsD(1) [OF m]] slot(6) False refl]
    from found False data [of max_size] show ?thesis
      unfolding fs_read_def tree_find_def Let_def
      by (cases "max_size < file_size (get_slot s sl)") (simp_all add: split_beta node_of_file not_dir_attr)
  qed
qed

lemma fs_stat_models:
  assumes m: "models s G ds T"
  shows "tree_find T (cwd_key s) path = None \<Longrightarrow> fs_stat path s = Some (Inl FsFailed)"
    "tree_find T (cwd_key s) path = Some (File bs) \<Longrightarrow> fs_stat path s = Some (Inr (of_nat (length bs)))"
proof -
  show "fs_stat path s = Some (Inl FsFailed)" if "tree_find T (cwd_key s) path = None"
    using m by (cases rule: entry_cases [where path = path]) (use that in \<open>simp_all add: fs_stat_def tree_find_def split_beta\<close>)
  show "fs_stat path s = Some (Inr (of_nat (length bs)))" if f: "tree_find T (cwd_key s) path = Some (File bs)"
    using m
  proof (cases rule: entry_cases [where path = path])
    case (found D leaf sl)
    note slot = holds_slot [OF m found(3,5) user_name_split]
    have n: "node_of (fs_disk s) G (get_slot s sl) = File bs" using f found(2,4) by (simp add: tree_find_def)
    then have nd: "\<not> is_dir (get_slot s sl)" by (auto simp: node_of_def)
    with n length_file_bytes [OF volD(1) [OF modelsD(1) [OF m]] slot(6) nd] found show ?thesis
      by (auto simp: fs_stat_def split_beta node_of_def)
  qed (use f in \<open>simp_all add: tree_find_def\<close>)
qed

section \<open>Deleting\<close>

text \<open>An entry is marked as deleted.\<close>

definition erased :: "dirent \<Rightarrow> dirent" where
  "erased e = e\<lparr>de_name := (de_name e)[0 := FS_DIRENT_DELETED], first_cluster := 0, file_size := 0\<rparr>"

lemma erased_props: "wf_dirent e \<Longrightarrow> wf_dirent (erased e) \<and> unused (erased e)"
  by (simp add: erased_def wf_dirent_def unused_def)

lemma delete_models:
  assumes m: "models s G ds T" and D: "valid_dir ds D" and h: "holds G (get_slot s) (key D) k sl" and k: "user_name k"
    and f: "\<not> is_dir (get_slot s sl)"
  shows "models (put_entry D sl (erased (get_slot s sl)) (freed (get_slot s sl) (fs_disk s)) s)
    (G(first_cluster (get_slot s sl) := None)) ds (T(key D := (T (key D))(k := None)))"
proof -
  let ?old = "get_slot s sl" and ?new = "erased (get_slot s sl)"
  note v = modelsD(1) [OF m] and slot = holds_slot [OF m D h k]
  note vd = volD [OF v] and fr = freed_file [OF volD(1) [OF v] slot(6) f]
  note e = erased_props [OF slot(7)]
  have "first_cluster ?old \<notin> ds" by (rule old_file_chain [OF vd(1,5) valid_dir_key [OF D] slot(2,3,4) f])
  then have "\<forall>b\<in>ds. (G(first_cluster ?old := None)) b = G b" by auto
  moreover have "spare G ?old {}" by (simp add: spare_def)
  ultimately have "change s G ds D sl ?new (freed ?old (fs_disk s)) (G(first_cluster ?old := None))"
    unfolding change_def Let_def using v D slot(2,3,4) e fr f by auto
  from models_change [OF m this] e slot(4,5) show ?thesis by (simp add: tree_set_del)
qed

lemma fs_delete_models:
  assumes m: "models s G ds T" and "fs_delete path s = res"
  shows "\<exists>r s'. res = Some (r, s') \<and> (case tree_resolve T (cwd_key s) path of
      None \<Rightarrow> r = -1 \<and> s' = s
    | Some (p, leaf) \<Rightarrow> (case T p (split_name leaf) of
        Some (File bs) \<Rightarrow> r = 0 \<and> same_cwd s s' \<and> (\<exists>G'. models s' G' ds (T(p := (T p)(split_name leaf := None))))
      | _ \<Rightarrow> r = -1 \<and> s' = s))"
  using m
proof (cases rule: entry_cases [where path = path])
  case (found D leaf sl)
  show ?thesis
  proof (cases "is_dir (get_slot s sl)")
    case True
    with found assms(2) show ?thesis by (auto simp: fs_delete_def split_beta node_of_dir is_dir_def)
  next
    case False
    have "fs_delete path s = Some (0, put_entry D sl (erased (get_slot s sl)) (freed (get_slot s sl) (fs_disk s)) s)"
      using found False unfolding fs_delete_def Let_def freed_state by (simp add: split_beta not_dir_attr erased_def)
    with delete_models [OF m found(3,5) user_name_split False] found False assms(2) show ?thesis
      by (auto simp: node_of_file)
  qed
qed (use assms(2) in \<open>auto simp: fs_delete_def split_beta\<close>)

section \<open>Creating\<close>

lemma unused_zero: "unused (dirent_at zero_sector i)"
  by (simp add: unused_def dirent_at_def)

text \<open>A directory that has grown by a cleared cluster shows the same tree.\<close>

lemma grown_models:
  assumes m: "models s G ds T" and b: "b \<in> ds" "G b = Some xs" and c: "c \<notin> clusters G" "data_cluster c"
    and st: "store d' (G(b \<mapsto> xs @ [c]))" and z: "d' (cluster_to_lba c) = zero_sector"
    and fr: "\<forall>lba. \<not> fat_area lba \<longrightarrow> lba \<noteq> cluster_to_lba c \<longrightarrow> d' lba = fs_disk s lba"
  shows "models (s\<lparr>fs_disk := d'\<rparr>) (G(b \<mapsto> xs @ [c])) ds T" "in_dir (G(b \<mapsto> xs @ [c])) b (Sub_slot c 0)"
    "unused (get_slot (s\<lparr>fs_disk := d'\<rparr>) (Sub_slot c 0))"
proof -
  let ?s = "s\<lparr>fs_disk := d'\<rparr>" and ?G = "G(b \<mapsto> xs @ [c])"
  note md = modelsD [OF m] and vd = volD [OF modelsD(1) [OF m]]
  have ch: "only_changes (fs_disk s) d' {c}" using fr c(2) by (simp add: only_changes_def)
  have b0: "b \<noteq> 0" using dirs_not_0 [OF vd(1,5)] b(1) by auto
  have same: "get_slot ?s sl = get_slot s sl" if "in_dir G q sl" for q sl
  proof (cases sl)
    case (Sub_slot y i)
    with that c(1) have "y \<noteq> c" using not_in_dir_fresh [OF c(1)] by blast
    moreover have "data_cluster y" using in_dir_slot_ok [OF vd(1) that] Sub_slot by simp
    ultimately show ?thesis using only_changes_data [OF ch] Sub_slot by simp
  qed simp
  have new: "unused (get_slot ?s (Sub_slot c i))" for i using unused_zero z by simp
  have gr: "grown G (get_slot s) b c ?G (get_slot ?s)"
    unfolding grown_def using b(2) c(1) b0 same new by (simp del: get_slot_simps)
  have "root_synced ?s"
    using root_synced_cong [of d' s] only_changes_low [OF ch root_not_fat] vd(3) by (simp add: root_area_def)
  moreover have "fs_disk ?s 300 = fs_disk s 300" using only_changes_low [OF ch, of 300] by (simp add: fat_area_def)
  ultimately have "vol ?s ?G ds"
    using st vd(2,4,6) tree_extend [OF vd(1,5) b(1) gr] by (simp add: vol_def root_wf_def)
  moreover have node: "node_of d' ?G (get_slot ?s sl) = node_of (fs_disk s) G (get_slot s sl)"
    if h: "holds G (get_slot s) p k sl" "p \<in> insert 0 ds" for p k sl
  proof -
    have i: "in_dir G p sl" "\<not> unused (get_slot s sl)" using h(1) unfolding holds_def by blast+
    show ?thesis
    proof (cases "is_dir (get_slot s sl)")
    case True
    then show ?thesis by (simp add: same [OF i(1)] node_of_dir del: get_slot_simps)
  next
    case False
    have "\<not> dot_slot ds sl" using dot_slot_name(3) [OF vd(5)] False by blast
    from old_file_chain [OF vd(1,5) h(2) i(1) this i(2) False] have nb: "first_cluster (get_slot s sl) \<noteq> b" using b(1) by auto
    have "bytes d' ys = bytes (fs_disk s) ys" if y: "G (first_cluster (get_slot s sl)) = Some ys" for ys
    proof (rule bytes_cong, rule only_changes_data [OF ch])
      fix x assume "x \<in> set ys"
      then show "data_cluster x" "x \<notin> {c}" using storeD(3) [OF vd(1) y] c(1) y by (auto simp: in_clusters)
    qed
    with nb False same [OF i(1)] show ?thesis
      by (simp add: node_of_file file_bytes_def split: option.split del: get_slot_simps)
    qed
  qed
  moreover have "shows_tree d' ?G ds (get_slot ?s) T"
    unfolding shows_tree_def grown_holds [OF gr]
    using shows_treeD [OF md(2)] node by (metis insertCI)
  ultimately show "models ?s ?G ds T" by (simp add: models_def del: get_slot_simps)
  show "in_dir ?G b (Sub_slot c 0)" using b0 by simp
  show "unused (get_slot ?s (Sub_slot c 0))" by (rule new)
qed

end
