(* ===== verification/WriteOps.thy ===== *)
theory WriteOps
  imports FileOps
begin

text \<open>
  Creating and writing files (\<open>fs_create\<close>, \<open>fs_open_or_create\<close>, \<open>fs_write\<close>) on a consistent volume.
\<close>

section \<open>A free slot\<close>

lemma models_none:
  assumes m: "models s G ds T" and D: "valid_dir ds D"
  shows "T (key D) k = None \<longleftrightarrow> (\<forall>sl. \<not> holds G (get_slot s) (key D) k sl)"
  using shows_treeD [OF modelsD(2) [OF m], of "key D" k] valid_dir_key [OF D] by (cases "T (key D) k") auto

lemma find_free_models:
  assumes m: "models s G ds T" and D: "valid_dir ds D"
  obtains (full) "dir_find_free s D = Some (None, s)"
    | (free) G' sl s' where "dir_find_free s D = Some (Some (slot_loc D sl), s')" "models s' G' ds T" "in_dir G' (key D) sl"
        "unused (get_slot s' sl)" "same_cwd s s'"
proof -
  note v = modelsD(1) [OF m]
  obtain r s' where f: "dir_find_free s D = Some (r, s')" "found_free s G D r s'"
    using dir_find_free_found [OF volD(1) [OF v] valid_dir_ok [OF v D]] by blast
  from f(2) [unfolded found_free_def] show thesis
  proof (elim disjE exE conjE)
    fix sl assume "in_dir G (key D) sl" "unused (get_slot s sl)" "r = Some (slot_loc D sl)" "s' = s"
    with f(1) m show thesis by (intro free [of sl s G]) simp_all
  next
    assume "r = None" "s' = s"
    with f(1) show thesis by (intro full) simp
  next
    fix xs c d' assume g: "\<not> is_root D" "G (dir_cluster D) = Some xs" "c \<notin> clusters G" "data_cluster c"
      "r = Some (slot_loc D (Sub_slot c 0))" "s' = s\<lparr>fs_disk := d'\<rparr>" "store d' (G(dir_cluster D \<mapsto> xs @ [c]))"
      "d' (cluster_to_lba c) = zero_sector" "\<forall>lba. \<not> fat_area lba \<longrightarrow> lba \<noteq> cluster_to_lba c \<longrightarrow> d' lba = fs_disk s lba"
    have k: "key D = dir_cluster D" "dir_cluster D \<in> ds" using g(1) D by (simp_all add: key_def valid_dir_def)
    note gm = grown_models [OF m k(2) g(2,3,4,7,8,9)]
    show thesis
      by (rule free [of "Sub_slot c 0" s' "G(dir_cluster D \<mapsto> xs @ [c])"]) (use f(1) g(5,6) k(1) gm in \<open>simp_all del: get_slot_simps\<close>)
  qed
qed

section \<open>A new entry\<close>

text \<open>A name whose first byte is neither of the two marks of an unused slot.\<close>

definition good_name :: "fname \<Rightarrow> bool" where
  "good_name k \<longleftrightarrow> fst k ! 0 \<noteq> FS_DIRENT_FREE \<and> fst k ! 0 \<noteq> FS_DIRENT_DELETED"

lemma new_dirent_props:
  assumes "user_name k"
  shows "wf_dirent (new_dirent (fst k) (snd k) a c)" "ename (new_dirent (fst k) (snd k) a c) = k"
    "unused (new_dirent (fst k) (snd k) a c) \<longleftrightarrow> \<not> good_name k"
    "is_dir (new_dirent (fst k) (snd k) a c) \<longleftrightarrow> a AND FS_ATTR_DIRECTORY \<noteq> 0"
    "first_cluster (new_dirent (fst k) (snd k) a c) = c" "file_size (new_dirent (fst k) (snd k) a c) = 0"
    "de_name (new_dirent (fst k) (snd k) a c) = fst k"
  using assms by (auto simp: new_dirent_def wf_dirent_def ename_def unused_def good_name_def is_dir_def user_name_def fname_ok_def)

lemma put_same_disk: "put_entry D sl e (fs_disk s) s = dir_write_entry (slot_loc D sl) e s"
  by simp

lemma create_models:
  assumes m: "models s G ds T" and D: "valid_dir ds D" and sl: "in_dir G (key D) sl" "unused (get_slot s sl)"
    and k: "user_name k" "good_name k" and none: "T (key D) k = None"
  shows "models (dir_write_entry (slot_loc D sl) (new_dirent (fst k) (snd k) FS_ATTR_NORMAL 0) s) G ds
    (T(key D := (T (key D))(k \<mapsto> File [])))"
proof -
  let ?new = "new_dirent (fst k) (snd k) FS_ATTR_NORMAL 0"
  note v = modelsD(1) [OF m] and e = new_dirent_props [OF k(1)]
  note vd = volD [OF v]
  have nd: "\<not> is_dir ?new" unfolding e(4) by simp
  have "entry_ok G ds ?new" using k(1) nd by (simp add: entry_ok_def e user_name_def)
  moreover have "\<not> dot_slot ds sl" using dot_slot_name(2) [OF vd(5)] sl(2) by blast
  moreover have "\<forall>sl'. holds G (get_slot s) (key D) (ename ?new) sl' \<longrightarrow> sl' = sl"
    using none models_none [OF m D] e(2) by simp
  moreover have "only_changes (fs_disk s) (fs_disk s) {}" "spare G (get_slot s sl) {}" by (simp_all add: only_changes_def spare_def)
  ultimately have "change s G ds D sl ?new (fs_disk s) G"
    unfolding change_def Let_def using v D sl e(1,5) vd(1) store_not_0 [OF vd(1)] by auto
  from models_change [OF m this] have "models (dir_write_entry (slot_loc D sl) ?new s) G ds
      (tree_set T (key D) (get_slot s sl) ?new (node_of (fs_disk s) G ?new))" by simp
  moreover have "node_of (fs_disk s) G ?new = File []"
    using nd empty_file_bytes [OF vd(1) e(5)] by (simp add: node_of_file)
  moreover have "\<not> unused ?new" using e(3) k(2) by blast
  ultimately show ?thesis using sl(2) e(2) by (simp add: tree_set_new)
qed

lemma fs_create_models:
  assumes m: "models s G ds T" and r: "resolve_parent s path = Some (Inr (D, leaf))" and D: "valid_dir ds D" and l: "leaf \<noteq> []"
    and g: "good_name (split_name leaf)"
  shows "T (key D) (split_name leaf) \<noteq> None \<Longrightarrow> fs_create path s = Some (-1, s)"
    and "T (key D) (split_name leaf) = None \<Longrightarrow> fs_create path s = Some (-1, s) \<or>
      (\<exists>s' G'. fs_create path s = Some (0, s') \<and> same_cwd s s' \<and>
         models s' G' ds (T(key D := (T (key D))(split_name leaf \<mapsto> File []))))"
proof -
  let ?k = "split_name leaf"
  note look = lookup_tree [OF modelsD [OF m] D split_name_ok [of leaf]]
  show "fs_create path s = Some (-1, s)" if "T (key D) ?k \<noteq> None"
    using look that r l by (auto simp: fs_create_def split_beta)
  assume none: "T (key D) ?k = None"
  then have sc: "dir_scan s D (fst ?k) (snd ?k) = Some None" using look by auto
  from m D show "fs_create path s = Some (-1, s) \<or>
      (\<exists>s' G'. fs_create path s = Some (0, s') \<and> same_cwd s s' \<and> models s' G' ds (T(key D := (T (key D))(?k \<mapsto> File []))))"
  proof (cases rule: find_free_models)
    case full
    with r l sc show ?thesis by (simp add: fs_create_def split_beta)
  next
    case (free G' sl s')
    note c = create_models [OF free(2) D free(3,4) user_name_split g none]
    have "fs_create path s = Some (0, dir_write_entry (slot_loc D sl) (new_dirent (fst ?k) (snd ?k) FS_ATTR_NORMAL 0) s')"
      using r l sc free(1) by (simp add: fs_create_def split_beta)
    with c free(5) show ?thesis by auto
  qed
qed

section \<open>Opening for writing\<close>

text \<open>The file is there afterwards, empty when it was not before, or there is no room for its entry.\<close>

lemma open_or_create_models:
  assumes m: "models s G ds T" and t: "tree_resolve T (cwd_key s) path = Some (p, leaf)" and l: "leaf \<noteq> []"
    and g: "good_name (split_name leaf)"
  obtains (full) "fs_open_or_create path s = Some (None, s)" "T p (split_name leaf) = None" "fs_create path s = Some (-1, s)"
    | (opened) D sl G' s' T' where "fs_open_or_create path s = Some (Some (get_slot s' sl, slot_loc D sl), s')"
        "key D = p" "valid_dir ds D" "models s' G' ds T'" "holds G' (get_slot s') p (split_name leaf) sl" "same_cwd s s'"
        "T' = (if T p (split_name leaf) = None then T(p := (T p)(split_name leaf \<mapsto> File [])) else T)"
        "T p (split_name leaf) \<noteq> None \<longrightarrow> s' = s"
  using m
proof (cases rule: entry_cases [where path = path])
  case unresolved
  with t show ?thesis by simp
next
  case (found D leaf' sl)
  with t have eq: "leaf' = leaf" "key D = p" by simp_all
  have "fs_open_or_create path s = Some (Some (get_slot s sl, slot_loc D sl), s)"
    using found eq l by (simp add: fs_open_or_create_def split_beta)
  with found eq m show ?thesis by (intro opened [of s sl D G T]) simp_all
next
  case (missing D leaf')
  with t have eq: "leaf' = leaf" "key D = p" by simp_all
  let ?k = "split_name leaf"
  have none: "T (key D) ?k = None" using missing(4) eq by simp
  have r: "resolve_parent s path = Some (Inr (D, leaf))" using missing(1) eq by simp
  have start: "fs_open_or_create path s = do {
      (ret, s) \<leftarrow> fs_create path s;
      if ret < 0 then Some (None, s) else do { found \<leftarrow> dir_scan s D (fst ?k) (snd ?k); Some (found, s) } }"
    using missing(6) r l eq by (simp add: fs_open_or_create_def split_beta cong: if_cong)
  from fs_create_models(2) [OF m r missing(3) l g none] show ?thesis
  proof (elim disjE exE conjE)
    assume "fs_create path s = Some (-1, s)"
    with start none eq show ?thesis by (intro full) simp_all
  next
    fix s' G' assume c: "fs_create path s = Some (0, s')" "same_cwd s s'" "models s' G' ds (T(key D := (T (key D))(?k \<mapsto> File [])))"
    from lookup_tree [OF modelsD [OF c(3)] missing(3) split_name_ok [of leaf]] obtain sl where
      sl: "holds G' (get_slot s') (key D) ?k sl" "dir_scan s' D (fst ?k) (snd ?k) = Some (Some (get_slot s' sl, slot_loc D sl))"
      by auto
    from start c(1) sl(2) have "fs_open_or_create path s = Some (Some (get_slot s' sl, slot_loc D sl), s')" by simp
    with c sl(1) eq missing(3) none show ?thesis
      by (intro opened [of s' sl D G' "T(key D := (T (key D))(?k \<mapsto> File []))"]) simp_all
  qed
qed

lemma upd_file_twice: "(if T p k = None then T(p := (T p)(k \<mapsto> File [])) else T)(p := ((if T p k = None then T(p := (T p)(k \<mapsto> File [])) else T) p)(k \<mapsto> n))
    = T(p := (T p)(k \<mapsto> n))"
  by (auto simp: fun_eq_iff)

lemma fs_write_models:
  assumes m: "models s G ds T" and t: "tree_resolve T (cwd_key s) path = Some (p, leaf)" and l: "leaf \<noteq> []"
    and g: "good_name (split_name leaf)" and n: "length data \<le> 0xFFFFFE00"
  shows "\<exists>r s'. fs_write path data s = Some (r, s') \<and> same_cwd s s' \<and>
    (if dir_of (T p (split_name leaf)) \<noteq> None then r = -1 \<and> s' = s
     else \<exists>G'. r = 0 \<and> models s' G' ds (T(p := (T p)(split_name leaf \<mapsto> File data)))
       \<or> r = -1 \<and> models s' G' ds (T(p := (T p)(split_name leaf \<mapsto> File [])))
       \<or> r = -1 \<and> T p (split_name leaf) = None \<and> s' = s)"
  using m t l g
proof (cases rule: open_or_create_models)
  case full
  then show ?thesis by (simp add: fs_write_def dir_of_def)
next
  case (opened D sl G' s' T')
  let ?k = "split_name leaf"
  have h: "holds G' (get_slot s') (key D) ?k sl" using opened(2,5) by simp
  have node: "T' p ?k = Some (node_of (fs_disk s') G' (get_slot s' sl))"
    using shows_treeD [OF modelsD(2) [OF opened(4)]] valid_dir_key [OF opened(3)] opened(2,5) by blast
  show ?thesis
  proof (cases "is_dir (get_slot s' sl)")
    case True
    then have d: "T p ?k = Some (Dir (first_cluster (get_slot s' sl)))"
      using node opened(7) by (auto simp: node_of_dir split: if_splits)
    then have "s' = s" using opened(8) by simp
    with d True opened(1) show ?thesis by (simp add: fs_write_def dir_of_def is_dir_def del: get_slot_simps)
  next
    case False
    then have d: "dir_of (T p ?k) = None" using node opened(7) by (auto simp: node_of_file dir_of_def split: if_splits)
    obtain r s'' where w: "fs_write_entry (get_slot s' sl) (slot_loc D sl) data s' = (r, s'')" by fastforce
    have res: "fs_write path data s = Some (r, s'')"
      using opened(1) False w by (simp add: fs_write_def not_dir_attr del: get_slot_simps)
    from fs_write_entry_models [OF opened(4,3) h user_name_split False n w] opened(2,6,7) upd_file_twice [of T p ?k]
    have "same_cwd s s''" "\<exists>G'. r = 0 \<and> models s'' G' ds (T(p := (T p)(?k \<mapsto> File data)))
        \<or> r = -1 \<and> models s'' G' ds (T(p := (T p)(?k \<mapsto> File [])))"
      by (auto simp: same_cwd_def)
    with res d show ?thesis by (intro exI [of _ r] exI [of _ s'']) (simp, blast)
  qed
qed

end
