(* ===== verification/AppendOps.thy ===== *)
theory AppendOps
  imports WriteOps
begin

text \<open>
  Appending (\<open>fs_append\<close>): the last sector is filled up, then clusters are added. What is written
  when the disk fills up is a prefix of the data.
\<close>

section \<open>The data loop on an existing chain\<close>

text \<open>Like \<open>bytes_chunks\<close>, for a loop that may have stopped early.\<close>

lemma bytes_chunks_prefix:
  assumes "\<forall>i < length cs. d (cluster_to_lba (cs ! i)) = sector_of (take 512 (drop (512 * i) data))"
    and "length cs \<le> (length data + 511) div 512"
  shows "take (min (512 * length cs) (length data)) (bytes d cs) = take (512 * length cs) data"
  using assms
proof (induction cs arbitrary: data)
  case (Cons c cs)
  have ne: "data \<noteq> []" using Cons.prems(2) by auto
  have "d (cluster_to_lba (cs ! i)) = sector_of (take 512 (drop (512 * i) (drop 512 data)))" if "i < length cs" for i
    using Cons.prems(1) [rule_format, of "Suc i"] that by (simp add: add.commute)
  moreover have "Suc (length cs) \<le> (length data + 511) div 512" using Cons.prems(2) by simp
  then have "length cs \<le> (length (drop 512 data) + 511) div 512" unfolding length_drop by linarith
  ultimately have IH: "take (min (512 * length cs) (length (drop 512 data))) (bytes d cs) = take (512 * length cs) (drop 512 data)"
    using Cons.IH by blast
  have c: "d (cluster_to_lba c) = sector_of (take 512 data)" using Cons.prems(1) [rule_format, of 0] by simp
  show ?case
  proof (cases "length data \<le> 512")
    case True
    then show ?thesis by (simp add: c sector_of_bytes)
  next
    case False
    then have "min (512 * length (c # cs)) (length data) = 512 + min (512 * length cs) (length (drop 512 data))" by simp
    moreover have "take (512 * length (c # cs)) data = take 512 data @ take (512 * length cs) (drop 512 data)"
      by (simp add: take_add)
    ultimately show ?thesis using IH False by (simp add: c sector_of_bytes take_add)
  qed
qed simp

text \<open>The clusters \<open>cs\<close> get the new clusters \<open>cs'\<close>, which hold \<open>written\<close> bytes of the data.\<close>

lemma append_loop:
  assumes st: "store d G" and cs: "cs \<noteq> [] \<Longrightarrow> G (hd cs) = Some cs \<and> prev = last cs"
    and a: "append_clusters d (start_of cs) prev data = (ok, f, rest, d')"
  shows "\<exists>cs'. f = start_of (cs @ cs') \<and> store d' (extended G (cs @ cs')) \<and> set cs' \<inter> clusters G = {} \<and>
    (\<forall>x\<in>set cs'. data_cluster x) \<and> only_changes d d' (set cs') \<and> (ok \<longleftrightarrow> rest = []) \<and>
    rest = drop (512 * length cs') data \<and> length cs' \<le> (length data + 511) div 512 \<and>
    take (length data - length rest) (bytes d' cs') = take (512 * length cs') data \<and> bytes d' cs = bytes d cs"
proof -
  from append_clusters_store [OF a st cs] obtain cs' where
    c: "f = start_of (cs @ cs')" "store d' (extended G (cs @ cs'))" "rest = drop (512 * length cs') data" "ok \<longleftrightarrow> rest = []"
      "set cs' \<inter> clusters G = {}" "\<forall>x\<in>set cs'. data_cluster x" "length cs' \<le> (length data + 511) div 512"
      "\<forall>i<length cs'. d' (cluster_to_lba (cs' ! i)) = sector_of (take 512 (drop (512 * i) data))"
      "\<forall>lba. \<not> fat_area lba \<longrightarrow> lba \<notin> cluster_to_lba ` set cs' \<longrightarrow> d' lba = d lba" by blast
  have ch: "only_changes d d' (set cs')" using c(6,9) by (simp add: only_changes_def)
  have "bytes d' cs = bytes d cs"
  proof (cases "cs = []")
    case False
    then have G: "G (hd cs) = Some cs" using cs by blast
    show ?thesis
    proof (rule bytes_cong, rule only_changes_data [OF ch])
      fix x assume x: "x \<in> set cs"
      then show "data_cluster x" by (rule storeD(3) [OF st G])
      have "x \<in> clusters G" using x G unfolding in_clusters by blast
      with c(5) show "x \<notin> set cs'" by blast
    qed
  qed simp
  moreover have "length data - length rest = min (512 * length cs') (length data)" using c(3) by simp
  ultimately show ?thesis using c ch bytes_chunks_prefix [OF c(8,7)] by (intro exI [of _ cs']) simp
qed

section \<open>Filling the last sector\<close>

lemma put_bytes_take:
  assumes "off + length bs \<le> 512"
  shows "take (off + length bs) (sector_bytes (put_bytes b off bs)) = take off (sector_bytes b) @ bs"
  by (rule nth_equalityI) (use assms in \<open>auto simp: sector_bytes_def put_bytes_def nth_append\<close>)

text \<open>The last sector of the file, when it is not full, and the disk with it filled up.\<close>

definition filled :: "disk \<Rightarrow> u16 \<Rightarrow> nat \<Rightarrow> u8 list \<Rightarrow> disk" where
  "filled d c off bs = (if off = 0 then d else disk_write_sector d (cluster_to_lba c)
     (put_bytes (disk_read_sector d (cluster_to_lba c)) off bs))"

lemma filled_last:
  assumes st: "store d G" and xs: "G c = Some xs" and n: "length xs = (cur + 511) div 512" "0 < cur" "off = cur mod 512"
    and bs: "bs = (if off = 0 then [] else take (512 - off) data)"
  shows "store (filled d (last xs) off bs) G" "only_changes d (filled d (last xs) off bs) (set xs)"
    "take (cur + length bs) (bytes (filled d (last xs) off bs) xs) = take cur (bytes d xs) @ bs"
    "drop (length bs) data \<noteq> [] \<Longrightarrow> cur + length bs = 512 * length xs"
    "cur + length bs \<le> 512 * length xs" "512 * length xs < cur + length bs + 512"
proof -
  note c = storeD [OF st xs]
  have l: "last xs \<in> set xs" "data_cluster (last xs)" using c(1,3) last_in_set by blast+
  show "store (filled d (last xs) off bs) G"
    using store_sector_write [OF st data_lba_not_fat [OF l(2)]] st by (simp add: filled_def)
  show ch: "only_changes d (filled d (last xs) off bs) (set xs)"
    unfolding only_changes_def using c(3) l(1) by (auto simp: filled_def disk_write_sector_def)
  obtain ys where ys: "xs = ys @ [last xs]" using c(1) by (metis append_butlast_last_id)
  have len: "length xs = Suc (length ys)" using arg_cong [OF ys, of length] by simp
  have cur: "off \<noteq> 0 \<Longrightarrow> cur = 512 * length ys + off" "off = 0 \<Longrightarrow> cur = 512 * length xs" "off < 512"
  proof -
    have q: "cur = 512 * (cur div 512) + off" and off: "off < 512" using n(3) by simp_all
    show "off < 512" by (rule off)
    show "cur = 512 * length xs" if "off = 0"
    proof -
      have "(cur + 511) div 512 = cur div 512" using that q by linarith
      with that q n(1) show ?thesis by simp
    qed
    show "cur = 512 * length ys + off" if "off \<noteq> 0"
    proof -
      have "(cur + 511) div 512 = Suc (cur div 512)" using that q off by linarith
      with q n(1) len show ?thesis by simp
    qed
  qed
  show full: "drop (length bs) data \<noteq> [] \<Longrightarrow> cur + length bs = 512 * length xs"
    using cur len bs by (cases "off = 0") auto
  have le: "off + length bs \<le> 512" using bs cur(3) by auto
  then show "cur + length bs \<le> 512 * length xs" "512 * length xs < cur + length bs + 512"
    using cur len bs by (cases "off = 0"; simp)+
  show "take (cur + length bs) (bytes (filled d (last xs) off bs) xs) = take cur (bytes d xs) @ bs"
  proof (cases "off = 0")
    case True
    with bs show ?thesis by (simp add: filled_def)
  next
    case False
    let ?d = "filled d (last xs) off bs" and ?l = "cluster_to_lba (last xs)"
    have "last xs \<notin> set ys" using c(7) ys by (metis distinct_append disjoint_insert(1) list.set(2))
    then have other: "bytes ?d ys = bytes d ys"
    proof (intro bytes_cong)
      fix y assume y: "y \<in> set ys" and "last xs \<notin> set ys"
      moreover have "y \<in> set xs" using y ys by (metis Un_iff set_append)
      then have "data_cluster y" by (rule c(3))
      ultimately have "cluster_to_lba y \<noteq> ?l" using cluster_to_lba_inj [OF data_cluster_is_link data_cluster_is_link] l(2) by auto
      then show "?d (cluster_to_lba y) = d (cluster_to_lba y)" by (simp add: filled_def disk_write_sector_def)
    qed
    have "?d ?l = put_bytes (d ?l) off bs" using False by (simp add: filled_def disk_simps)
    then have "bytes ?d xs = bytes d ys @ sector_bytes (put_bytes (d ?l) off bs)" using other by (subst ys) simp
    moreover have "bytes d xs = bytes d ys @ sector_bytes (d ?l)" by (subst ys) simp
    ultimately show ?thesis using cur(1) [OF False] put_bytes_take [OF le] by (simp add: take_add)
  qed
qed

section \<open>Appending to an entry\<close>

text \<open>What holds when the loop of \<open>fs_append\<close> starts: \<open>bs\<close> has gone into the last sector of \<open>xs\<close>.\<close>

definition append_ready :: "disk \<Rightarrow> chains \<Rightarrow> dirent \<Rightarrow> u8 list \<Rightarrow> disk \<Rightarrow> u16 list \<Rightarrow> u8 list \<Rightarrow> bool" where
  "append_ready d G e data d0 xs bs \<longleftrightarrow>
     store d0 G \<and> (xs \<noteq> [] \<longrightarrow> G (hd xs) = Some xs) \<and> start_of xs = first_cluster e \<and> only_changes d d0 (set xs) \<and>
     take (unat (file_size e) + length bs) (bytes d0 xs) = file_bytes d G e @ bs \<and> bs = take (length bs) data \<and>
     (drop (length bs) data \<noteq> [] \<longrightarrow> unat (file_size e) + length bs = 512 * length xs) \<and>
     unat (file_size e) + length bs \<le> 512 * length xs \<and> 512 * length xs < unat (file_size e) + length bs + 512"

text \<open>The size and the content after the loop, as arithmetic on lists.\<close>

lemma append_sizes:
  assumes "drop (length bs) data \<noteq> [] \<longrightarrow> n + length bs = 512 * m" "n + length bs \<le> 512 * m" "512 * m < n + length bs + 512"
    and "rest = drop (512 * j) (drop (length bs) data)" "j \<le> (length (drop (length bs) data) + 511) div 512" "length bs \<le> length data"
  shows "m + j = (n + (length data - length rest) + 511) div 512"
    "length data - length rest = length bs + (length (drop (length bs) data) - length rest)"
    "drop (length bs) data \<noteq> [] \<or> j = 0"
proof -
  show "length data - length rest = length bs + (length (drop (length bs) data) - length rest)" using assms(4,6) by simp
  show j0: "drop (length bs) data \<noteq> [] \<or> j = 0" using assms(5) by auto
  show "m + j = (n + (length data - length rest) + 511) div 512"
  proof (cases "drop (length bs) data = []")
    case True
    then have "j = 0" "length data - length rest = length bs" using j0 assms(4,6) by simp_all
    then show ?thesis using assms(2,3) by (simp add: div_nat_eqI)
  next
    case False
    let ?l = "length data - length bs"
    have "n + length bs = 512 * m" "length data - length rest = length bs + min (512 * j) ?l" "j \<le> (?l + 511) div 512"
      using False assms(1,4,5,6) by auto
    then have "n + (length data - length rest) + 511 = 512 * m + (min (512 * j) ?l + 511)" by linarith
    moreover have "(min (512 * j) ?l + 511) div 512 = j" using \<open>j \<le> (?l + 511) div 512\<close> by (simp add: min_def) linarith
    ultimately show ?thesis by simp
  qed
qed

lemma clusters_remove_self: "G (hd xs) = Some xs \<Longrightarrow> store d G \<Longrightarrow> set xs \<inter> clusters (G(hd xs := None)) = {}"
proof -
  assume G: "G (hd xs) = Some xs" and st: "store d G"
  have "set xs \<inter> set ys = {}" if "(G(hd xs := None)) c = Some ys" for c ys
    using that store_disjoint [OF st G, of c ys] by (auto split: if_splits)
  then show ?thesis unfolding clusters_def ran_def by blast
qed

text \<open>The bytes of the extended chain.\<close>

lemma append_bytes:
  assumes old: "take (n + length bs) (bytes d xs) = old @ bs" and same: "bytes d' xs = bytes d xs"
    and full: "drop (length bs) data \<noteq> [] \<longrightarrow> n + length bs = 512 * length xs" and bs: "bs = take (length bs) data"
    and new: "take w (bytes d' cs) = take (512 * length cs) (drop (length bs) data)" and none: "drop (length bs) data = [] \<Longrightarrow> cs = [] \<and> w = 0"
  shows "take (n + (length bs + w)) (bytes d' (xs @ cs)) = old @ take (length bs + 512 * length cs) data"
proof (cases "drop (length bs) data = []")
  case True
  with none have "cs = []" "w = 0" by simp_all
  with old same bs show ?thesis by simp
next
  case False
  with full have n: "n + length bs = length (bytes d' xs)" by simp
  then have "take (n + (length bs + w)) (bytes d' (xs @ cs)) = bytes d' xs @ take w (bytes d' cs)" by (simp add: add.assoc [symmetric])
  also have "bytes d' xs = old @ bs" using old n same by simp
  finally show ?thesis using new bs by (simp add: take_add)
qed

lemma clusters_remove: "clusters (G(f := None)) \<subseteq> clusters G"
proof
  fix x assume "x \<in> clusters (G(f := None))"
  then obtain b ys where "(G(f := None)) b = Some ys" "x \<in> set ys" unfolding in_clusters by blast
  then have "G b = Some ys" by (simp split: if_splits)
  with \<open>x \<in> set ys\<close> show "x \<in> clusters G" unfolding in_clusters by blast
qed

text \<open>Taking the file's chain out and putting it back longer is extending it.\<close>

lemma extend_own_chain:
  assumes st: "store d0 G" and G: "xs \<noteq> [] \<Longrightarrow> G (hd xs) = Some xs" and f: "start_of xs = f" and cs: "set cs \<inter> clusters G = {}"
    and data: "\<forall>x\<in>set cs. data_cluster x"
  shows "extended (G(f := None)) (xs @ cs) = extended G (xs @ cs)" "set (xs @ cs) \<inter> clusters (G(f := None)) = {}"
    "\<forall>x\<in>set (xs @ cs). data_cluster x"
proof -
  have hd: "xs \<noteq> [] \<Longrightarrow> hd xs = f" using f by (simp add: start_of_def)
  show "extended (G(f := None)) (xs @ cs) = extended G (xs @ cs)"
  proof (cases "xs = []")
    case True
    then have "f = 0" using f by (simp add: start_of_def)
    then have "G(f := None) = G" using store_not_0 [OF st] by (simp add: fun_upd_idem)
    then show ?thesis by simp
  next
    case False
    with hd show ?thesis by (simp add: extended_def)
  qed
  have "set xs \<inter> clusters (G(f := None)) = {}"
    using clusters_remove_self [OF G st] hd by (cases "xs = []") simp_all
  with cs show "set (xs @ cs) \<inter> clusters (G(f := None)) = {}" using clusters_remove [of G f] by auto
  show "\<forall>x\<in>set (xs @ cs). data_cluster x" using data G storeD(3) [OF st] by (cases "xs = []") auto
qed

lemma append_finish:
  assumes m: "models s G ds T" and D: "valid_dir ds D" and h: "holds G (get_slot s) (key D) k sl" and k: "user_name k"
    and f: "\<not> is_dir (get_slot s sl)" and rd: "append_ready (fs_disk s) G (get_slot s sl) data d0 xs bs"
    and prev: "xs \<noteq> [] \<Longrightarrow> prev = last xs"
    and a: "append_clusters d0 (first_cluster (get_slot s sl)) prev (drop (length bs) data) = (ok, fi, rest, d1)"
    and e: "e = (get_slot s sl)\<lparr>first_cluster := fi, file_size := file_size (get_slot s sl) + of_nat (length data - length rest)\<rparr>"
  shows "\<exists>G' n. models (put_entry D sl e d1 s) G' ds
      (T(key D := (T (key D))(k \<mapsto> File (file_bytes (fs_disk s) G (get_slot s sl) @ take n data)))) \<and> (ok \<longrightarrow> take n data = data)"
proof -
  let ?old = "get_slot s sl"
  define base where "base = G(first_cluster ?old := None)"
  note vd = volD [OF modelsD(1) [OF m]]
  have r: "store d0 G" "xs \<noteq> [] \<Longrightarrow> G (hd xs) = Some xs" "start_of xs = first_cluster ?old" "only_changes (fs_disk s) d0 (set xs)"
    "take (unat (file_size ?old) + length bs) (bytes d0 xs) = file_bytes (fs_disk s) G ?old @ bs" "bs = take (length bs) data"
    "drop (length bs) data \<noteq> [] \<longrightarrow> unat (file_size ?old) + length bs = 512 * length xs"
    "unat (file_size ?old) + length bs \<le> 512 * length xs" "512 * length xs < unat (file_size ?old) + length bs + 512"
    using rd unfolding append_ready_def by blast+
  from append_loop [OF r(1) _ a [folded r(3)]] r(2) prev obtain cs where
    c: "fi = start_of (xs @ cs)" "store d1 (extended G (xs @ cs))" "set cs \<inter> clusters G = {}" "\<forall>x\<in>set cs. data_cluster x"
      "only_changes d0 d1 (set cs)" "ok \<longleftrightarrow> rest = []" "rest = drop (512 * length cs) (drop (length bs) data)"
      "length cs \<le> (length (drop (length bs) data) + 511) div 512"
      "take (length (drop (length bs) data) - length rest) (bytes d1 cs) = take (512 * length cs) (drop (length bs) data)"
      "bytes d1 xs = bytes d0 xs" by blast
  have bl: "length bs \<le> length data" using r(6) by (metis length_take min.cobounded1 nle_le)
  note sz = append_sizes [OF r(7-9) c(7,8) bl]
  note own = extend_own_chain [OF r(1) r(2) r(3) c(3,4), folded base_def]
  note ext = own(1)
  have ch: "only_changes (fs_disk s) d1 (set (xs @ cs))" using only_changes_trans [OF r(4) c(5)] by simp
  have "length (xs @ cs) \<le> 15949"
  proof (cases "xs @ cs = []")
    case False
    then have "extended G (xs @ cs) (hd (xs @ cs)) = Some (xs @ cs)" by (rule extended_hd)
    then show ?thesis by (rule chain_bound [OF c(2)])
  qed simp
  then have small: "unat (file_size ?old) + (length data - length rest) \<le> 8165888" using sz(1) by (simp only: length_append)
  then have un: "unat (file_size ?old + of_nat (length data - length rest)) = unat (file_size ?old) + (length data - length rest)"
    by (subst unat_add_u32) (simp_all add: unat_of_nat)
  have len: "length (xs @ cs) = (unat (file_size ?old + of_nat (length data - length rest)) + 511) div 512" unfolding un using sz(1) by simp
  have "change s G ds D sl e d1 (extended base (xs @ cs))"
    by (rule change_file [OF m D h k f base_def own(2,3) len _ ch own(2)]) (use c(1,2) ext e in simp_all)
  from models_file [OF m D h k f this e]
  have "models (put_entry D sl e d1 s) (extended base (xs @ cs)) ds
      (T(key D := (T (key D))(k \<mapsto> File (file_bytes d1 (extended base (xs @ cs)) e))))" .
  moreover have "file_bytes d1 (extended base (xs @ cs)) e = file_bytes (fs_disk s) G ?old @ take (length bs + 512 * length cs) data"
  proof -
    have "file_bytes d1 (extended base (xs @ cs)) e = take (unat (file_size e)) (bytes d1 (xs @ cs))"
      by (rule chain_file_bytes) (use c(1,2) e ext in simp_all)
    also have "unat (file_size e) = unat (file_size ?old) + (length bs + (length (drop (length bs) data) - length rest))"
      using e un sz(2) by simp
    finally show ?thesis
      using append_bytes [OF r(5) c(10) r(7,6) c(9)] sz(3) by fastforce
  qed
  moreover have "take (length bs + 512 * length cs) data = data" if ok using that c(6,7) by simp
  ultimately show ?thesis by auto
qed

text \<open>The state when the loop starts, from the file's size and its last sector.\<close>

lemma append_start:
  assumes m: "models s G ds T" and D: "valid_dir ds D" and h: "holds G (get_slot s) (key D) k sl" and k: "user_name k"
    and f: "\<not> is_dir (get_slot s sl)" and ne: "data \<noteq> []"
  obtains xs prev d0 bs where "append_ready (fs_disk s) G (get_slot s sl) data d0 xs bs" "xs \<noteq> [] \<longrightarrow> prev = last xs"
    "fs_append_entry (get_slot s sl) (slot_loc D sl) data s =
      (case append_clusters d0 (first_cluster (get_slot s sl)) prev (drop (length bs) data) of (ok, fi, rest, d1) \<Rightarrow>
        (if ok then 0 else -1, put_entry D sl ((get_slot s sl)\<lparr>first_cluster := fi,
           file_size := file_size (get_slot s sl) + of_nat (length data - length rest)\<rparr>) d1 s))"
proof -
  let ?old = "get_slot s sl" and ?d = "fs_disk s"
  let ?cur = "unat (file_size ?old)" and ?off = "unat (file_size ?old mod of_nat FS_BYTES_PER_SECTOR)"
  note slot = holds_slot [OF m D h k] and st = volD(1) [OF modelsD(1) [OF m]]
  have off: "?off = ?cur mod 512" by (simp add: unat_mod)
  define bs where "bs = (if ?cur > 0 \<and> ?off \<noteq> 0 then take (512 - ?off) data else [])"
  show thesis
  proof (cases "?cur = 0")
    case True
    have fc: "first_cluster ?old = 0"
    proof (rule ccontr)
      assume "first_cluster ?old \<noteq> 0"
      from file_size_bound [OF st slot(6) f this] obtain xs where "G (first_cluster ?old) = Some xs" "length xs = (?cur + 511) div 512" by blast
      with storeD(1) [OF st] True show False by auto
    qed
    have sz: "file_size ?old = 0" using True by (simp add: unat_eq_0)
    have "append_ready ?d G ?old data ?d [] bs"
      using st True fc empty_file_bytes [OF st fc] by (simp add: append_ready_def start_of_def only_changes_def bs_def)
    moreover have "fs_append_entry ?old (slot_loc D sl) data s =
      (case append_clusters ?d (first_cluster ?old) 0 (drop (length bs) data) of (ok, fi, rest, d1) \<Rightarrow>
        (if ok then 0 else -1, put_entry D sl (?old\<lparr>first_cluster := fi, file_size := file_size ?old + of_nat (length data - length rest)\<rparr>) d1 s))"
      using ne sz by (simp add: fs_append_entry_def Let_def bs_def split: prod.split)
    ultimately show thesis using that [of ?d "[]" bs 0] by blast
  next
    case cur: False
    then have sz: "file_size ?old > 0" "file_size ?old \<noteq> 0" by (simp_all only: word_less_nat_alt) auto
    then have fc: "first_cluster ?old \<noteq> 0" using slot(6) f by (auto simp: entry_ok_def)
    from file_size_bound [OF st slot(6) f fc] obtain xs where xs: "G (first_cluster ?old) = Some xs" "length xs = (?cur + 511) div 512" by blast
    note x = storeD [OF st xs(1)]
    have hd: "hd xs = first_cluster ?old" "start_of xs = first_cluster ?old" using x(1,4) by (simp_all add: start_of_def)
    have bs: "bs = (if ?off = 0 then [] else take (512 - ?off) data)" using cur by (simp add: bs_def)
    note fill = filled_last [OF st xs(1,2) _ off bs]
    have idx: "unat ((file_size ?old - 1) div of_nat FS_BYTES_PER_SECTOR) = length xs - 1"
    proof -
      have "unat (file_size ?old - 1) = ?cur - 1" by (rule unat_minus_one [OF sz(2)])
      then show ?thesis using xs(2) cur by (simp add: unat_div)
    qed
    have "cluster_at_index ?d (first_cluster ?old) (length xs - 1) = xs ! (length xs - 1)"
      by (rule cluster_at_index_chain [OF x(2)]) (use x(1) in simp)
    then have last: "cluster_at_index ?d (first_cluster ?old) (length xs - 1) = last xs" using x(1) by (simp add: last_conv_nth)
    have nz: "last xs \<noteq> 0" using x(1,3) data_cluster_nz last_in_set by blast
    have old: "file_bytes ?d G ?old = take ?cur (bytes ?d xs)" using xs(1) by (simp add: file_bytes_def)
    have bt: "bs = take (length bs) data" unfolding bs by (simp add: take_all_iff min_def)
    have pos: "0 < ?cur" using cur by simp
    have "append_ready ?d G ?old data (filled ?d (last xs) ?off bs) xs bs"
      unfolding append_ready_def old hd using fill [OF pos] xs(1) bt by blast
    moreover have "fs_append_entry ?old (slot_loc D sl) data s =
      (case append_clusters (filled ?d (last xs) ?off bs) (first_cluster ?old) (last xs) (drop (length bs) data) of (ok, fi, rest, d1) \<Rightarrow>
        (if ok then 0 else -1, put_entry D sl (?old\<lparr>first_cluster := fi, file_size := file_size ?old + of_nat (length data - length rest)\<rparr>) d1 s))"
      using ne sz nz unfolding fs_append_entry_def Let_def idx last by (simp add: bs filled_def split: prod.split)
    ultimately show thesis using that [of "filled ?d (last xs) ?off bs" xs bs "last xs"] by blast
  qed
qed

lemma fs_append_entry_models:
  assumes m: "models s G ds T" and D: "valid_dir ds D" and h: "holds G (get_slot s) (key D) k sl" and k: "user_name k"
    and f: "\<not> is_dir (get_slot s sl)" and w: "fs_append_entry (get_slot s sl) (slot_loc D sl) data s = (r, s')"
  shows "same_cwd s s' \<and> (\<exists>G' n. models s' G' ds
      (T(key D := (T (key D))(k \<mapsto> File (file_bytes (fs_disk s) G (get_slot s sl) @ take n data))))
      \<and> (r = 0 \<and> take n data = data \<or> r = -1))"
proof (cases "data = []")
  case True
  then have "r = 0" "s' = s" using w by (simp_all add: fs_append_entry_def)
  moreover have "T (key D) k = Some (File (file_bytes (fs_disk s) G (get_slot s sl)))"
    using shows_treeD [OF modelsD(2) [OF m], of "key D" k] h valid_dir_key [OF D] node_of_file [OF f] by metis
  then have "T(key D := (T (key D))(k \<mapsto> File (file_bytes (fs_disk s) G (get_slot s sl)))) = T" by (simp add: fun_upd_idem)
  ultimately show ?thesis using m True by auto
next
  case False
  obtain xs prev d0 bs where rd: "append_ready (fs_disk s) G (get_slot s sl) data d0 xs bs" and prev: "xs \<noteq> [] \<longrightarrow> prev = last xs"
    and run: "fs_append_entry (get_slot s sl) (slot_loc D sl) data s =
      (case append_clusters d0 (first_cluster (get_slot s sl)) prev (drop (length bs) data) of (ok, fi, rest, d1) \<Rightarrow>
        (if ok then 0 else -1, put_entry D sl ((get_slot s sl)\<lparr>first_cluster := fi,
           file_size := file_size (get_slot s sl) + of_nat (length data - length rest)\<rparr>) d1 s))"
    by (rule append_start [OF m D h k f False]) (rule that; assumption)
  let ?old = "get_slot s sl"
  obtain ok fi rest d1 where a: "append_clusters d0 (first_cluster ?old) prev (drop (length bs) data) = (ok, fi, rest, d1)"
    using prod_cases4 by blast
  let ?new = "?old\<lparr>first_cluster := fi, file_size := file_size ?old + of_nat (length data - length rest)\<rparr>"
  have res: "r = (if ok then 0 else -1)" "s' = put_entry D sl ?new d1 s" using w run a by auto
  from append_finish [OF m D h k f rd prev [rule_format] a refl] obtain G' n where
    "models s' G' ds (T(key D := (T (key D))(k \<mapsto> File (file_bytes (fs_disk s) G ?old @ take n data))))" "ok \<longrightarrow> take n data = data"
    unfolding res(2) by blast
  then show ?thesis using res by (intro conjI exI [of _ G'] exI [of _ n]) auto
qed

text \<open>\<open>fs_append\<close> on a path.\<close>

lemma fs_append_models:
  assumes m: "models s G ds T" and t: "tree_resolve T (cwd_key s) path = Some (p, leaf)" and l: "leaf \<noteq> []"
    and g: "good_name (split_name leaf)"
  shows "\<exists>r s'. fs_append path data s = Some (r, s') \<and> same_cwd s s' \<and>
    (case T p (split_name leaf) of
       Some (Dir c) \<Rightarrow> r = -1 \<and> s' = s
     | Some (File old) \<Rightarrow> \<exists>G' n. models s' G' ds (T(p := (T p)(split_name leaf \<mapsto> File (old @ take n data))))
         \<and> (r = 0 \<and> take n data = data \<or> r = -1)
     | None \<Rightarrow> r = -1 \<and> s' = s \<or> (\<exists>G' n. models s' G' ds (T(p := (T p)(split_name leaf \<mapsto> File (take n data))))
         \<and> (r = 0 \<and> take n data = data \<or> r = -1)))"
  using m t l g
proof (cases rule: open_or_create_models)
  case full
  then show ?thesis by (simp add: fs_append_def)
next
  case (opened D sl G' s' T')
  let ?k = "split_name leaf" and ?e = "get_slot s' sl"
  have h: "holds G' (get_slot s') (key D) ?k sl" using opened(2,5) by simp
  have node: "T' p ?k = Some (node_of (fs_disk s') G' ?e)"
    using shows_treeD [OF modelsD(2) [OF opened(4)]] valid_dir_key [OF opened(3)] opened(2,5) by blast
  show ?thesis
  proof (cases "is_dir ?e")
    case True
    then have d: "T p ?k = Some (Dir (first_cluster ?e))" using node opened(7) by (auto simp: node_of_dir split: if_splits)
    then have "s' = s" using opened(8) by simp
    with d True opened(1) show ?thesis by (simp add: fs_append_def is_dir_def del: get_slot_simps)
  next
    case False
    then have isf: "T' p ?k = Some (File (file_bytes (fs_disk s') G' ?e))" using node by (simp add: node_of_file)
    obtain r s'' where w: "fs_append_entry ?e (slot_loc D sl) data s' = (r, s'')" by fastforce
    have res: "fs_append path data s = Some (r, s'')"
      using opened(1) False w by (simp add: fs_append_def not_dir_attr del: get_slot_simps)
    from fs_append_entry_models [OF opened(4,3) h user_name_split False w] obtain G'' n where
      ap: "same_cwd s' s''" "models s'' G'' ds (T'(p := (T' p)(?k \<mapsto> File (file_bytes (fs_disk s') G' ?e @ take n data))))"
        "r = 0 \<and> take n data = data \<or> r = -1" unfolding opened(2) by blast
    have T: "T'(p := (T' p)(?k \<mapsto> v)) = T(p := (T p)(?k \<mapsto> v))" for v using opened(7) by (auto simp: fun_eq_iff)
    have cwd: "same_cwd s s''" using opened(6) ap(1) by (simp add: same_cwd_def)
    have "T p ?k = None \<and> file_bytes (fs_disk s') G' ?e = [] \<or> T p ?k = Some (File (file_bytes (fs_disk s') G' ?e))"
      using opened(7) isf by (auto split: if_splits)
    moreover have "\<exists>G1 n. models s'' G1 ds (T(p := (T p)(?k \<mapsto> File (file_bytes (fs_disk s') G' ?e @ take n data))))
        \<and> (r = 0 \<and> take n data = data \<or> r = -1)" using ap(2,3) unfolding T by blast
    ultimately show ?thesis using res cwd by (elim disjE) simp_all
  qed
qed

end
