(* ===== verification/DirOps.thy ===== *)
theory DirOps
  imports AppendOps
begin

text \<open>
  Renaming, removing directories, and changing the current directory (\<open>fs_rename\<close>, \<open>fs_rmdir\<close>, \<open>fs_chdir\<close>) on a
  consistent volume.
\<close>

section \<open>Renaming\<close>

lemma rename_models:
  assumes m: "models s G ds T" and D: "valid_dir ds D" and h: "holds G (get_slot s) (key D) k sl" and k: "user_name k"
    and k': "user_name k'" "good_name k'" and none: "T (key D) k' = None" and v: "T (key D) k = Some v"
  shows "models (dir_write_entry (slot_loc D sl) ((get_slot s sl)\<lparr>de_name := fst k', de_ext := snd k'\<rparr>) s) G ds
    (T(key D := (T (key D))(k := None, k' \<mapsto> v)))"
proof -
  let ?old = "get_slot s sl" and ?new = "(get_slot s sl)\<lparr>de_name := fst k', de_ext := snd k'\<rparr>"
  note slot = holds_slot [OF m D h k]
  note vd = volD [OF modelsD(1) [OF m]]
  have e: "wf_dirent ?new" "ename ?new = k'" "\<not> unused ?new" "is_dir ?new = is_dir ?old" "first_cluster ?new = first_cluster ?old"
    using slot(7) k' by (auto simp: wf_dirent_def ename_def unused_def is_dir_def user_name_def fname_ok_def good_name_def)
  have "entry_ok G ds ?new" using slot(6) k'(1) e(4) by (simp add: entry_ok_def user_name_def)
  moreover have "\<forall>sl'. holds G (get_slot s) (key D) (ename ?new) sl' \<longrightarrow> sl' = sl" using none models_none [OF m D] e(2) by simp
  moreover have "only_changes (fs_disk s) (fs_disk s) {}" "spare G ?old {}" by (simp_all add: only_changes_def spare_def)
  moreover have "first_cluster ?old \<in> dom G" if "first_cluster ?old \<noteq> 0" by (rule owned_chain [OF vd(5) slot(1) that])
  then have "c \<in> dom G \<longleftrightarrow> c \<in> dom G \<and> \<not> (\<not> unused ?old \<and> c = first_cluster ?old)
      \<or> \<not> unused ?new \<and> first_cluster ?new \<noteq> 0 \<and> c = first_cluster ?new" for c
    using e(3,5) store_not_0 [OF vd(1)] by (cases "first_cluster ?old = 0") auto
  ultimately have "change s G ds D sl ?new (fs_disk s) G"
    unfolding change_def Let_def using modelsD(1) [OF m] D slot(2,3,4) e vd(1) by blast
  from models_change [OF m this] have "models (dir_write_entry (slot_loc D sl) ?new s) G ds
      (tree_set T (key D) ?old ?new (node_of (fs_disk s) G ?new))" by simp
  moreover have "node_of (fs_disk s) G ?new = v"
  proof -
    have "T (key D) k = Some (node_of (fs_disk s) G ?old)"
      using shows_treeD [OF modelsD(2) [OF m]] valid_dir_key [OF D] h by blast
    moreover have "file_bytes (fs_disk s) G ?new = file_bytes (fs_disk s) G ?old"
      by (simp add: file_bytes_def split: option.split)
    ultimately show ?thesis using v e(4,5) by (simp add: node_of_def)
  qed
  ultimately show ?thesis using e(2,3) slot(4,5) by (simp add: tree_set_rename)
qed

text \<open>Both names in the directory that both paths lead to.\<close>

lemma fs_rename_models:
  assumes m: "models s G ds T" and r: "resolve_parent s old_path = Some (Inr (D, leaf))" "resolve_parent s new_path = Some (Inr (D, leaf'))"
    and D: "valid_dir ds D" and l: "leaf' \<noteq> []" and g: "good_name (split_name leaf')"
  shows "\<exists>r s'. fs_rename old_path new_path s = Some (r, s') \<and> same_cwd s s' \<and>
    (case T (key D) (split_name leaf) of
       Some v \<Rightarrow> if T (key D) (split_name leaf') = None
         then r = 0 \<and> models s' G ds (T(key D := (T (key D))(split_name leaf := None, split_name leaf' \<mapsto> v)))
         else r = -1 \<and> s' = s
     | None \<Rightarrow> r = -1 \<and> s' = s)"
proof -
  let ?k = "split_name leaf" and ?k' = "split_name leaf'"
  note look = lookup_tree [OF modelsD [OF m] D split_name_ok]
  show ?thesis
  proof (cases "T (key D) ?k")
    case None
    with look [of leaf] r show ?thesis by (auto simp: fs_rename_def split_beta)
  next
    case (Some v)
    with look [of leaf] obtain sl where h: "holds G (get_slot s) (key D) ?k sl"
      "dir_scan s D (fst ?k) (snd ?k) = Some (Some (get_slot s sl, slot_loc D sl))" by auto
    show ?thesis
    proof (cases "T (key D) ?k'")
      case None
      then have "dir_scan s D (fst ?k') (snd ?k') = Some None" using look [of leaf'] by auto
      with rename_models [OF m D h(1) user_name_split user_name_split g None Some] h(2) r l Some None show ?thesis
        by (simp add: fs_rename_def split_beta)
    next
      case (Some v')
      then have "\<exists>x. dir_scan s D (fst ?k') (snd ?k') = Some (Some x)" using look [of leaf'] by auto
      with h(2) r l Some \<open>T (key D) ?k = Some v\<close> show ?thesis by (auto simp: fs_rename_def split_beta)
    qed
  qed
qed

text \<open>Whatever the paths are, a rename that returns 0 has moved the entry within one directory, and any other has no effect.\<close>

lemma fs_rename_outcome:
  assumes m: "models s G ds T" and t: "tree_resolve T (cwd_key s) new_path = Some (q, leaf')" and g: "good_name (split_name leaf')"
  shows "\<exists>r s'. fs_rename old_path new_path s = Some (r, s') \<and> same_cwd s s' \<and>
    (r = -1 \<and> s' = s \<or> r = 0 \<and> (\<exists>leaf v. tree_resolve T (cwd_key s) old_path = Some (q, leaf) \<and>
       T q (split_name leaf) = Some v \<and> T q (split_name leaf') = None \<and>
       models s' G ds (T(q := (T q)(split_name leaf := None, split_name leaf' \<mapsto> v)))))"
  using m
proof (cases rule: entry_cases [where path = old_path])
  case (found D leaf sl)
  note f = found
  from m show ?thesis
  proof (cases rule: entry_cases [where path = new_path])
    case unresolved
    with t show ?thesis by simp
  next
    case (found D' leaf2 sl')
    with f t show ?thesis by (simp add: fs_rename_def split_beta)
  next
    case (missing D' leaf2)
    then have eq: "leaf2 = leaf'" "key D' = q" using t by simp_all
    show ?thesis
    proof (cases "leaf' = [] \<or> is_root D' \<noteq> is_root D \<or> dir_cluster D' \<noteq> dir_cluster D")
      case True
      with f missing eq show ?thesis by (auto simp: fs_rename_def split_beta)
    next
      case False
      then have "D' = D" by simp
      with False f missing eq fs_rename_models [OF m f(1) _ f(3), of new_path leaf'] g show ?thesis
        by auto
    qed
  qed
qed (auto simp: fs_rename_def split_beta)

section \<open>Changing the current directory\<close>

lemma fs_chdir_models:
  assumes m: "models s G ds T"
  shows "\<exists>r s'. fs_chdir path s = Some (r, s') \<and> (case tree_walk_path T path (cwd_key s) of
      None \<Rightarrow> r = -1 \<and> s' = s
    | Some q \<Rightarrow> r = 0 \<and> models s' G ds T \<and> cwd_key s' = q)"
proof -
  from walk_path_tree [OF modelsD [OF m] valid_cwd [OF modelsD(1) [OF m]], of path "Some (str_copy_n (cwd_path s) 128)" 128]
  show ?thesis
  proof (elim disjE exE conjE)
    fix D b assume w: "walk_path s path (cwd_dir s) (Some (str_copy_n (cwd_path s) 128)) 128 = Some (Inr (D, b))"
      "tree_walk_path T path (key (cwd_dir s)) = Some (key D)" "valid_dir ds D"
    let ?s = "s\<lparr>cwd_is_root := is_root D, cwd_cluster := dir_cluster D,
      cwd_path := (case b of None \<Rightarrow> cwd_path s | Some b \<Rightarrow> str_copy_n b 128)\<rparr>"
    have "get_slot ?s = get_slot s" by (simp add: get_slot_def fun_eq_iff split: slot.split)
    moreover have "root_synced ?s = root_synced s" by (simp add: root_synced_def root_load_def)
    ultimately have "models ?s G ds T"
      using m w(3) by (auto simp: models_def vol_def root_wf_def valid_dir_def)
    moreover have "cwd_key ?s = key D" by (simp add: cwd_key_def cwd_dir_def key_def)
    ultimately show ?thesis using w(1,2) by (simp add: fs_chdir_def cwd_key_def)
  next
    assume "walk_path s path (cwd_dir s) (Some (str_copy_n (cwd_path s) 128)) 128 = Some (Inl FsFailed)"
      "tree_walk_path T path (key (cwd_dir s)) = None"
    then show ?thesis by (simp add: fs_chdir_def cwd_key_def)
  qed
qed

section \<open>Removing a directory\<close>

definition only_dots :: "dirent \<Rightarrow> bool" where
  "only_dots e \<longleftrightarrow> unused e \<or> fields_eq (de_name e) DOT_NAME FS_NAME_FIELD_LEN \<or> fields_eq (de_name e) DOTDOT_NAME FS_NAME_FIELD_LEN"

lemma dir_empty_all: "iter_yields s it ls \<Longrightarrow> dir_empty_from s it = Some (list_all (\<lambda>x. only_dots (fst x)) ls)"
proof (induction rule: iter_yields.induct)
  case (stop it it')
  then show ?case by (subst dir_empty_from.simps) simp
next
  case (step it x it' ls)
  then show ?case by (subst dir_empty_from.simps) (auto simp: only_dots_def split: prod.splits)
qed

text \<open>The scan of \<open>fs_rmdir\<close> says whether the tree has nothing but the dot entries there.\<close>

lemma only_dots_slot:
  assumes "vol s G ds" "in_dir G c sl"
  shows "only_dots (get_slot s sl) \<longleftrightarrow> unused (get_slot s sl) \<or> de_name (get_slot s sl) \<in> {DOT_NAME, DOTDOT_NAME}"
  using wf_get_slot [OF volD(2) [OF assms(1)] in_dir_slot_ok [OF volD(1) [OF assms(1)] assms(2)]]
  by (simp add: only_dots_def fields_eq_full wf_dirent_def)

lemma owns_only_dots:
  assumes v: "vol s G ds" and c: "c \<in> ds"
  shows "owns G ds (get_slot s) c sl \<longleftrightarrow> in_dir G c sl \<and> \<not> only_dots (get_slot s sl)"
proof (cases "in_dir G c sl \<and> \<not> unused (get_slot s sl)")
  case True
  have "de_name (get_slot s sl) \<notin> {DOT_NAME, DOTDOT_NAME}" if "owns G ds (get_slot s) c sl"
    using tree_okD(2) [OF volD(5) [OF v] that] unfolding entry_ok_def by blast
  moreover have "de_name (get_slot s sl) \<in> {DOT_NAME, DOTDOT_NAME}" if "dot_slot ds sl"
    using dot_slot_name(1) [OF volD(5) [OF v] that] by blast
  ultimately show ?thesis using True only_dots_slot [OF v, of c sl] c unfolding owns_def by blast
next
  case False
  then show ?thesis using only_dots_slot [OF v, of c sl] unfolding owns_def by blast
qed

lemma names_only_dots:
  assumes m: "models s G ds T" and c: "c \<in> ds"
  shows "fst ` dom (T c) \<subseteq> {DOT_NAME, DOTDOT_NAME} \<longleftrightarrow> (\<forall>sl. in_dir G c sl \<longrightarrow> only_dots (get_slot s sl))"
proof -
  let ?\<sigma> = "get_slot s" and ?dots = "{DOT_NAME, DOTDOT_NAME}"
  have "valid_dir ds \<lparr>is_root = False, dir_cluster = c\<rparr>" "key \<lparr>is_root = False, dir_cluster = c\<rparr> = c"
    using c by (simp_all add: valid_dir_def key_def)
  then have dom: "k \<in> dom (T c) \<longleftrightarrow> (\<exists>sl. holds G ?\<sigma> c k sl)" for k using models_none [OF m, of _ k] by fastforce
  have "n \<in> fst ` dom (T c) \<longleftrightarrow> (\<exists>sl. in_dir G c sl \<and> \<not> unused (?\<sigma> sl) \<and> de_name (?\<sigma> sl) = n)" for n
  proof
    assume "n \<in> fst ` dom (T c)"
    then obtain k where k: "k \<in> dom (T c)" "n = fst k" by (rule imageE)
    then obtain sl where "holds G ?\<sigma> c k sl" using dom by blast
    with k(2) show "\<exists>sl. in_dir G c sl \<and> \<not> unused (?\<sigma> sl) \<and> de_name (?\<sigma> sl) = n" by (auto simp: holds_def ename_def)
  next
    assume "\<exists>sl. in_dir G c sl \<and> \<not> unused (?\<sigma> sl) \<and> de_name (?\<sigma> sl) = n"
    then obtain sl where sl: "holds G ?\<sigma> c (ename (?\<sigma> sl)) sl" "fst (ename (?\<sigma> sl)) = n" by (auto simp: holds_def ename_def)
    then have "ename (?\<sigma> sl) \<in> dom (T c)" using dom by blast
    with sl(2) show "n \<in> fst ` dom (T c)" by blast
  qed
  then have eq: "fst ` dom (T c) = {de_name (?\<sigma> sl) |sl. in_dir G c sl \<and> \<not> unused (?\<sigma> sl)}" by (intro set_eqI) auto
  have "fst ` dom (T c) \<subseteq> ?dots \<longleftrightarrow> (\<forall>sl. in_dir G c sl \<longrightarrow> unused (?\<sigma> sl) \<or> de_name (?\<sigma> sl) \<in> ?dots)"
    unfolding eq by blast
  then show ?thesis by (simp only: only_dots_slot [OF modelsD(1) [OF m]] cong: imp_cong)
qed

lemma dir_empty_tree:
  assumes m: "models s G ds T" and c: "c \<in> ds"
  shows "\<exists>b. dir_empty_from s (dir_iter_start \<lparr>is_root = False, dir_cluster = c\<rparr>) = Some b \<and>
    (b \<longleftrightarrow> (\<forall>sl. \<not> owns G ds (get_slot s) c sl)) \<and> (b \<longleftrightarrow> fst ` dom (T c) \<subseteq> {DOT_NAME, DOTDOT_NAME})"
proof -
  let ?D = "\<lparr>is_root = False, dir_cluster = c\<rparr>" and ?\<sigma> = "get_slot s"
  note v = modelsD(1) [OF m]
  note vd = volD [OF v]
  have D: "valid_dir ds ?D" "key ?D = c" using c by (simp_all add: valid_dir_def key_def)
  note ok = valid_dir_ok [OF v D(1)]
  let ?ls = "dir_slots s ?D (dir_clusters G ?D)"
  have "set ?ls = (\<lambda>sl. (?\<sigma> sl, slot_loc ?D sl)) ` {sl. in_dir G c sl}"
    using set_dir_slots [OF vd(1) ok] unfolding D(2) by blast
  then have "list_all (\<lambda>x. only_dots (fst x)) ?ls \<longleftrightarrow> (\<forall>sl. in_dir G c sl \<longrightarrow> only_dots (?\<sigma> sl))" by (simp add: list_all_iff)
  moreover have "dir_empty_from s (dir_iter_start ?D) = Some (list_all (\<lambda>x. only_dots (fst x)) ?ls)"
    by (rule dir_empty_all [OF iter_yields_dir [OF dir_chain_clusters [OF vd(1) ok]]])
  moreover have "(\<forall>sl. \<not> owns G ds ?\<sigma> c sl) \<longleftrightarrow> (\<forall>sl. in_dir G c sl \<longrightarrow> only_dots (?\<sigma> sl))"
    unfolding owns_only_dots [OF v c] by blast
  ultimately show ?thesis using names_only_dots [OF m c] by simp
qed

lemma free_only_fat:
  assumes "store d G" "G c = Some xs"
  shows "only_changes d (fat_free_chain c d) {}"
  using store_free(2) [OF assms] by (simp add: only_changes_def)

text \<open>Slots and file data after an entry is written over a disk that differs in the FATs only.\<close>

lemma put_slots:
  assumes wf: "root_wf s" "wf_dirent e" and ch: "only_changes (fs_disk s) d1 {}" and sl: "slot_ok (loc_slot l)" "slot_ok sl'"
  shows "get_slot (dir_write_entry l e (s\<lparr>fs_disk := d1\<rparr>)) sl' = (if sl' = loc_slot l then e else get_slot s sl')"
proof -
  have "get_slot (s\<lparr>fs_disk := d1\<rparr>) sl' = get_slot s sl'"
    using only_changes_data [OF ch] sl(2) by (cases sl') simp_all
  then show ?thesis
    using get_dir_write [of l sl' e "s\<lparr>fs_disk := d1\<rparr>"] sl wf by (simp add: root_wf_def del: get_slot_simps)
qed

lemma put_node:
  assumes st: "store (fs_disk s) G" "store d1 G1" and ch: "only_changes (fs_disk s) d1 {}"
    and l: "in_dir G1 p (loc_slot l)" and f: "is_dir f \<or> G1 (first_cluster f) = G (first_cluster f) \<and> (first_cluster f = 0 \<or> first_cluster f \<noteq> p)"
  shows "node_of (fs_disk (dir_write_entry l e (s\<lparr>fs_disk := d1\<rparr>))) G1 f = node_of (fs_disk s) G f"
proof (cases "is_dir f")
  case False
  with f have f: "G1 (first_cluster f) = G (first_cluster f)" "first_cluster f = 0 \<or> first_cluster f \<noteq> p" by blast+
  have "bytes (fs_disk (dir_write_entry l e (s\<lparr>fs_disk := d1\<rparr>))) xs = bytes (fs_disk s) xs" if xs: "G (first_cluster f) = Some xs" for xs
  proof (rule bytes_cong)
    fix x assume x: "x \<in> set xs"
    have f2: "first_cluster f \<noteq> p" "G1 (first_cluster f) = Some xs" using f xs store_not_0 [OF st(1)] by auto
    have "fs_disk (dir_write_entry l e (s\<lparr>fs_disk := d1\<rparr>)) (cluster_to_lba x) = d1 (cluster_to_lba x)"
      using put_keeps_data [of "s\<lparr>fs_disk := d1\<rparr>" G1 p l "first_cluster f" xs x] st(2) l f2 x by simp
    also have "\<dots> = fs_disk s (cluster_to_lba x)" by (rule only_changes_data [OF ch storeD(3) [OF st(1) xs x]]) simp
    finally show "fs_disk (dir_write_entry l e (s\<lparr>fs_disk := d1\<rparr>)) (cluster_to_lba x) = fs_disk s (cluster_to_lba x)" .
  qed
  with f(1) False show ?thesis by (simp add: node_of_file file_bytes_def split: option.split)
qed (simp add: node_of_dir)

lemma file_not_dir:
  assumes v: "vol s G ds" and h: "holds G (get_slot s) q k sl" "q \<in> insert 0 ds"
  shows "is_dir (get_slot s sl) \<or> first_cluster (get_slot s sl) \<notin> ds"
proof -
  note vd = volD [OF v]
  have i: "in_dir G q sl" "\<not> unused (get_slot s sl)" using h(1) unfolding holds_def by blast+
  show ?thesis using old_file_chain [OF vd(1,5) h(2) i(1) _ i(2)] dot_slot_name(3) [OF vd(5)] by blast
qed

lemma remove_dir_shows:
  assumes T: "shows_tree d G ds \<sigma> T" and c: "c \<noteq> 0" and p: "p \<in> insert 0 ds" "p \<noteq> c"
    and hold: "\<And>q k' s. holds G' \<sigma>' q k' s \<longleftrightarrow> q \<noteq> c \<and> s \<noteq> sl \<and> holds G \<sigma> q k' s"
    and node: "\<And>q k' s. holds G \<sigma> q k' s \<Longrightarrow> q \<in> insert 0 ds \<Longrightarrow> s \<noteq> sl \<Longrightarrow> node_of d' G' (\<sigma>' s) = node_of d G (\<sigma> s)"
    and at: "\<And>q k'. holds G \<sigma> q k' sl \<longleftrightarrow> q = p \<and> k' = k"
    and uniq: "\<And>s. holds G \<sigma> p k s \<Longrightarrow> s = sl"
  shows "shows_tree d' G' (ds - {c}) \<sigma>' (T(p := (T p)(k := None), c := Map.empty))"
  unfolding shows_tree_def
proof (intro allI)
  fix q k' n
  let ?L = "(T(p := (T p)(k := None), c := Map.empty)) q k' = Some n"
  let ?R = "\<exists>s. holds G' \<sigma>' q k' s \<and> n = node_of d' G' (\<sigma>' s)"
  note tr = shows_treeD [OF T, of q k' n]
  show "?L \<longleftrightarrow> q \<in> insert 0 (ds - {c}) \<and> ?R"
  proof (cases "q = c \<or> q \<notin> insert 0 ds")
    case True
    then show ?thesis using c p tr by auto
  next
    case False
    then have q: "q \<in> insert 0 ds" "q \<noteq> c" by blast+
    have R: "?R \<longleftrightarrow> (\<exists>s. s \<noteq> sl \<and> holds G \<sigma> q k' s \<and> n = node_of d G (\<sigma> s))"
      unfolding hold using node q by metis
    show ?thesis
    proof (cases "q = p \<and> k' = k")
      case True
      then have "\<not> ?R" unfolding R using uniq by blast
      with True p(2) show ?thesis by simp
    next
      case False
      then have "?R \<longleftrightarrow> (\<exists>s. holds G \<sigma> q k' s \<and> n = node_of d G (\<sigma> s))" unfolding R using at by metis
      moreover have "?L \<longleftrightarrow> T q k' = Some n" using False q(2) by auto
      ultimately show ?thesis using tr q by blast
    qed
  qed
qed

lemma remove_dir_models:
  assumes m: "models s G ds T" and D: "valid_dir ds D" and h: "holds G (get_slot s) (key D) k sl" and k: "user_name k"
    and d: "is_dir (get_slot s sl)" "first_cluster (get_slot s sl) = c" and empty: "\<And>sl'. \<not> owns G ds (get_slot s) c sl'"
    and cwd: "cwd_key s \<noteq> c"
    and s': "s' = dir_write_entry (slot_loc D sl) (erased (get_slot s sl)) (s\<lparr>fs_disk := fat_free_chain c (fs_disk s)\<rparr>)"
  shows "models s' (G(c := None)) (ds - {c}) (T(key D := (T (key D))(k := None), c := Map.empty))"
proof -
  let ?old = "get_slot s sl" and ?G = "G(c := None)" and ?d1 = "fat_free_chain c (fs_disk s)"
  note v = modelsD(1) [OF m] and slot = holds_slot [OF m D h k]
  note vd = volD [OF v]
  have c: "c \<in> ds" using slot(6) d by (simp add: entry_ok_def)
  have c0: "c \<noteq> 0" using dirs_not_0 [OF vd(1,5)] c by blast
  from tree_okD(1) [OF vd(5)] c obtain xs where G: "G c = Some xs" by blast
  note st = store_free [OF vd(1) G] and ch = free_only_fat [OF vd(1) G]
  have loc: "loc_slot (slot_loc D sl) = sl" by (rule loc_slot_loc [OF vd(1) valid_dir_ok [OF v D] slot(2)])
  have sok: "slot_ok (loc_slot (slot_loc D sl))" unfolding loc by (rule in_dir_slot_ok [OF vd(1) slot(2)])
  note er = erased_props [OF slot(7)]
  have get: "get_slot s' sl' = (if sl' = sl then erased ?old else get_slot s sl')" if "in_dir G q sl'" for q sl'
    using put_slots [OF vd(2) conjunct1 [OF er] ch sok in_dir_slot_ok [OF vd(1) that]] by (simp only: s' loc)
  have tree: "tree_ok ?G (ds - {c}) (get_slot s')"
    by (rule tree_remove_dir [OF vd(1,5) c empty slot(1) d]) (use get [OF slot(2)] get er in simp_all)
  have "valid_dir (ds - {c}) (cwd_dir s')"
    using valid_cwd [OF v] cwd by (auto simp: s' valid_dir_def cwd_key_def key_def cwd_dir_def)
  moreover have "store (fs_disk s') ?G" unfolding s' by (rule store_put [OF _ sok]) (simp add: st(1))
  moreover have "base_ok s'" unfolding s'
    by (rule base_ok_put [OF base_ok_changes [OF _ ch] sok conjunct1 [OF er]]) (use v in \<open>simp add: vol_base\<close>)
  ultimately have vol: "vol s' ?G (ds - {c})" using tree by (simp add: vol_base)
  have pc: "key D \<noteq> c" using slot(1) empty by blast
  have ind: "in_dir ?G q sl' \<longleftrightarrow> in_dir G q sl' \<and> q \<noteq> c" for q sl' using c0 by (cases sl') auto
  have hold: "holds ?G (get_slot s') q k' sl' \<longleftrightarrow> q \<noteq> c \<and> sl' \<noteq> sl \<and> holds G (get_slot s) q k' sl'" for q k' sl'
  proof (cases "in_dir G q sl'")
    case True
    then show ?thesis using ind get [OF True] er by (cases "sl' = sl") (simp_all add: holds_def del: get_slot_simps)
  next
    case False
    then show ?thesis using ind unfolding holds_def by blast
  qed
  have node: "node_of (fs_disk s') ?G (get_slot s' sl') = node_of (fs_disk s) G (get_slot s sl')"
    if h: "holds G (get_slot s) q k' sl'" "q \<in> insert 0 ds" "sl' \<noteq> sl" for q k' sl'
  proof -
    have "in_dir ?G (key D) (loc_slot (slot_loc D sl))" using loc ind slot(2) pc by simp
    moreover have "is_dir (get_slot s sl') \<or> ?G (first_cluster (get_slot s sl')) = G (first_cluster (get_slot s sl')) \<and>
        (first_cluster (get_slot s sl') = 0 \<or> first_cluster (get_slot s sl') \<noteq> key D)"
      using file_not_dir [OF v h(1,2)] c valid_dir_key [OF D] by auto
    ultimately have "node_of (fs_disk s') ?G (get_slot s sl') = node_of (fs_disk s) G (get_slot s sl')"
      unfolding s' by (rule put_node [OF vd(1) st(1) ch])
    with get [of q sl'] h show ?thesis by (simp add: holds_def del: get_slot_simps)
  qed
  have at: "holds G (get_slot s) q k' sl \<longleftrightarrow> q = key D \<and> k' = k" for q k'
    using h in_dir_unique [OF vd(1) slot(2)] slot(5) unfolding holds_def by blast
  have "shows_tree (fs_disk s') ?G (ds - {c}) (get_slot s') (T(key D := (T (key D))(k := None), c := Map.empty))"
    by (rule remove_dir_shows [OF modelsD(2) [OF m] c0 valid_dir_key [OF D] pc hold node at])
      (use tree_okD(6) [OF vd(5) valid_dir_key [OF D] _ h] in blast)+
  with vol show ?thesis by (simp add: models_def)
qed

text \<open>Directories that \<open>fs_rmdir\<close> removes: empty, and not the current one.\<close>

definition removable :: "tree \<Rightarrow> u16 \<Rightarrow> u16 \<Rightarrow> bool" where
  "removable T cwd c \<longleftrightarrow> c \<noteq> cwd \<and> fst ` dom (T c) \<subseteq> {DOT_NAME, DOTDOT_NAME}"

lemma fs_rmdir_models:
  assumes m: "models s G ds T"
  shows "\<exists>r s'. fs_rmdir path s = Some (r, s') \<and> same_cwd s s' \<and> (case tree_resolve T (cwd_key s) path of
      None \<Rightarrow> r = -1 \<and> s' = s
    | Some (p, leaf) \<Rightarrow>
        (case dir_of (T p (split_name leaf)) of
           None \<Rightarrow> r = -1 \<and> s' = s
         | Some c \<Rightarrow> if leaf \<notin> {[], ''.'', ''..''} \<and> removable T (cwd_key s) c
             then r = 0 \<and> models s' (G(c := None)) (ds - {c}) (T(p := (T p)(split_name leaf := None), c := Map.empty))
             else r = -1 \<and> s' = s))"
  using m
proof (cases rule: entry_cases [where path = path])
  case (found D leaf sl)
  let ?e = "get_slot s sl" and ?c = "first_cluster (get_slot s sl)"
  note vd = volD [OF modelsD(1) [OF m]] and slot = holds_slot [OF m found(3,5) user_name_split]
  show ?thesis
  proof (cases "is_dir ?e \<and> leaf \<notin> {[], ''.'', ''..''}")
    case False
    with found show ?thesis by (auto simp: fs_rmdir_def split_beta node_of_def dir_of_def is_dir_def)
  next
    case True
    then have d: "dir_of (T (key D) (split_name leaf)) = Some ?c" using found(4) by (simp add: node_of_dir dir_of_def)
    have c: "?c \<in> ds" using slot(6) True by (simp add: entry_ok_def)
    have cwd: "(\<not> is_root (cwd_dir s) \<and> dir_cluster (cwd_dir s) = ?c) \<longleftrightarrow> ?c = cwd_key s"
      using dirs_not_0 [OF vd(1,5)] c by (auto simp: cwd_key_def key_def)
    obtain b where b: "dir_empty_from s (dir_iter_start \<lparr>is_root = False, dir_cluster = ?c\<rparr>) = Some b"
      "b \<longleftrightarrow> (\<forall>sl. \<not> owns G ds (get_slot s) ?c sl)" "b \<longleftrightarrow> fst ` dom (T ?c) \<subseteq> {DOT_NAME, DOTDOT_NAME}"
      using dir_empty_tree [OF m c] by blast
    let ?s = "dir_write_entry (slot_loc D sl) (erased ?e) (s\<lparr>fs_disk := fat_free_chain ?c (fs_disk s)\<rparr>)"
    have res: "fs_rmdir path s = Some (if ?c = cwd_key s \<or> \<not> b then (-1, s) else (0, ?s))"
      using found True b(1) unfolding fs_rmdir_def Let_def
      by (simp add: split_beta is_dir_def cwd [simplified] erased_def)
    have "models ?s (G(?c := None)) (ds - {?c}) (T(key D := (T (key D))(split_name leaf := None), ?c := Map.empty))"
      if "?c \<noteq> cwd_key s" b
      by (rule remove_dir_models [OF m found(3,5) user_name_split]) (use True that b(2) in auto)
    with res d found(2) True b(3) show ?thesis by (auto simp: removable_def)
  qed
qed (auto simp: fs_rmdir_def split_beta dir_of_def)

end
