(* ===== verification/MkDir.thy ===== *)
theory MkDir
  imports DirOps
begin

text \<open>
  \<open>fs_mkdir\<close> on a consistent volume: a cluster with the two dot entries, then an entry in the parent.
  Between the two the cluster belongs to no directory; the proofs compare with the disk on which it
  has been given back.
\<close>

section \<open>Changing clusters that nobody owns\<close>

lemma models_frame:
  assumes m: "models s G ds T" and st: "store d' G" and ch: "only_changes (fs_disk s) d' A" and A: "A \<inter> clusters G = {}"
  shows "models (s\<lparr>fs_disk := d'\<rparr>) G ds T"
proof -
  let ?s = "s\<lparr>fs_disk := d'\<rparr>"
  note v = modelsD(1) [OF m]
  note vd = volD [OF v]
  have data: "d' (cluster_to_lba x) = fs_disk s (cluster_to_lba x)" if "G c = Some xs" "x \<in> set xs" for c xs x
  proof (rule only_changes_data [OF ch storeD(3) [OF vd(1) that]])
    have "x \<in> clusters G" using that unfolding in_clusters by blast
    with A show "x \<notin> A" by blast
  qed
  have same: "get_slot ?s sl = get_slot s sl" if "in_dir G q sl" for q sl
    using that data by (cases sl) auto
  have hold: "holds G (get_slot ?s) q k sl \<longleftrightarrow> holds G (get_slot s) q k sl" for q k sl
    using same [of q sl] unfolding holds_def by metis
  have node: "node_of d' G (get_slot ?s sl) = node_of (fs_disk s) G (get_slot s sl)" if "holds G (get_slot s) q k sl" for q k sl
  proof -
    have "bytes d' xs = bytes (fs_disk s) xs" if "G c = Some xs" for c xs by (rule bytes_cong, rule data [OF that])
    then have "node_of d' G (get_slot s sl) = node_of (fs_disk s) G (get_slot s sl)"
      by (simp add: node_of_def file_bytes_def split: option.split del: get_slot_simps)
    moreover have "in_dir G q sl" using that unfolding holds_def by blast
    ultimately show ?thesis using same by (simp del: get_slot_simps)
  qed
  have own: "owns G ds (get_slot ?s) q sl \<longleftrightarrow> owns G ds (get_slot s) q sl" for q sl
    using same [of q sl] unfolding owns_def by metis
  have at: "get_slot ?s sl = get_slot s sl" if "owns G ds (get_slot s) q sl" for q sl
    using that same [of q sl] unfolding owns_def by blast
  have dots: "dots_ok G ds (get_slot ?s) b" if b: "b \<in> ds" for b
  proof -
    have eq: "get_slot ?s (Sub_slot b 0) = get_slot s (Sub_slot b 0)" "get_slot ?s (Sub_slot b 1) = get_slot s (Sub_slot b 1)"
      by (rule same [OF in_dir_dot [OF vd(1,5) b]], simp)+
    have "dots_ok G ds (get_slot s) b" by (rule tree_okD(5) [OF vd(5) b])
    then show ?thesis unfolding dots_ok_def eq own using at by metis
  qed
  have "tree_ok G ds (get_slot ?s)"
  proof (rule tree_okI)
    show "ds \<subseteq> dom G" by (rule tree_okD(1) [OF vd(5)])
    show "entry_ok G ds (get_slot ?s sl)" if "owns G ds (get_slot ?s) p sl" for p sl
      using that tree_okD(2) [OF vd(5)] at unfolding own by metis
    show "sl = sl'" if "owns G ds (get_slot ?s) p sl" "owns G ds (get_slot ?s) q sl'"
      "first_cluster (get_slot ?s sl) = first_cluster (get_slot ?s sl')" "first_cluster (get_slot ?s sl) \<noteq> 0" for p q sl sl'
      using that tree_okD(3) [OF vd(5)] at unfolding own by metis
    show "\<exists>p sl. owns G ds (get_slot ?s) p sl \<and> first_cluster (get_slot ?s sl) = c" if "c \<in> dom G" for c
      using tree_okD(4) [OF vd(5) that] at unfolding own by metis
    show "dots_ok G ds (get_slot ?s) b" if "b \<in> ds" for b by (rule dots [OF that])
    show "sl = sl'" if "p \<in> insert 0 ds" "holds G (get_slot ?s) p k sl" "holds G (get_slot ?s) p k sl'" for p k sl sl'
      using that tree_okD(6) [OF vd(5)] unfolding hold by blast
  qed
  then have "vol ?s G ds" using st base_ok_changes [OF _ ch] v by (simp add: vol_base cwd_dir_def)
  moreover have "shows_tree (fs_disk ?s) G ds (get_slot ?s) T"
    unfolding shows_tree_def hold using shows_treeD [OF modelsD(2) [OF m]] node by (simp del: get_slot_simps) metis
  ultimately show ?thesis by (simp add: models_def)
qed

section \<open>The entry in the parent\<close>

definition tree_mkdir :: "tree \<Rightarrow> u16 \<Rightarrow> fname \<Rightarrow> u16 \<Rightarrow> tree" where
  "tree_mkdir T p k c = T(p := (T p)(k \<mapsto> Dir c), c := [(DOT_NAME, EMPTY_EXT) \<mapsto> Dir c, (DOTDOT_NAME, EMPTY_EXT) \<mapsto> Dir p])"

lemma held_chain:
  assumes v: "vol s G ds" and h: "holds G (get_slot s) q k sl" "q \<in> insert 0 ds"
  shows "is_dir (get_slot s sl) \<or> first_cluster (get_slot s sl) = 0 \<or> first_cluster (get_slot s sl) \<in> dom G"
proof (cases "is_dir (get_slot s sl)")
  case False
  then have "\<not> dot_slot ds sl" using dot_slot_name(3) [OF volD(5) [OF v]] by blast
  with h have "owns G ds (get_slot s) q sl" by (simp add: owns_def holds_def)
  with owned_chain [OF volD(5) [OF v]] show ?thesis by blast
qed simp

text \<open>The tree shown by the old directories and the new one.\<close>

lemma mkdir_shows:
  assumes T: "shows_tree d G ds \<sigma> T" and c: "c \<notin> ds" "c \<noteq> 0" and p: "p \<in> insert 0 ds"
    and hold: "\<And>q k' sl'. q \<noteq> c \<Longrightarrow> holds G' \<sigma>' q k' sl' \<longleftrightarrow> (if sl' = sl then q = p \<and> k = k' else holds G \<sigma> q k' sl')"
    and free: "\<And>q k'. \<not> holds G \<sigma> q k' sl" and none: "T p k = None"
    and fresh: "fresh_dir \<sigma>' c p" "G' c = Some [c]" and at: "is_dir (\<sigma>' sl)" "first_cluster (\<sigma>' sl) = c"
    and node: "\<And>q k' sl'. holds G \<sigma> q k' sl' \<Longrightarrow> q \<in> insert 0 ds \<Longrightarrow> sl' \<noteq> sl \<Longrightarrow> node_of d' G' (\<sigma>' sl') = node_of d G (\<sigma> sl')"
  shows "shows_tree d' G' (insert c ds) \<sigma>' (tree_mkdir T p k c)"
  unfolding shows_tree_def
proof (intro allI)
  fix q k' n
  let ?L = "tree_mkdir T p k c q k' = Some n" and ?R = "\<exists>sl'. holds G' \<sigma>' q k' sl' \<and> n = node_of d' G' (\<sigma>' sl')"
  note tr = shows_treeD [OF T, of q k']
  have pc: "p \<noteq> c" using p c by auto
  consider "q = c" | "q \<noteq> c" "q \<notin> insert 0 ds" | "q \<noteq> c" "q \<in> insert 0 ds" "q = p" "k' = k"
    | "q \<noteq> c" "q \<in> insert 0 ds" "\<not> (q = p \<and> k' = k)" by blast
  then show "?L \<longleftrightarrow> q \<in> insert 0 (insert c ds) \<and> ?R"
  proof cases
    case 1
    have "node_of d' G' (\<sigma>' (Sub_slot c 0)) = Dir c" "node_of d' G' (\<sigma>' (Sub_slot c 1)) = Dir p"
      using fresh(1) by (simp_all add: fresh_dir_def node_of_dir)
    with 1 show ?thesis
      using dot_names by (auto simp: tree_mkdir_def fresh_dir_holds [where G = G', OF fresh c(2)])
  next
    case 2
    with p tr [of n] show ?thesis by (auto simp: tree_mkdir_def)
  next
    case 3
    have nh: "\<not> holds G \<sigma> q k' sl'" for sl' using none 3 shows_treeD [OF T, of p k "node_of d G (\<sigma> sl')"] by auto
    then have "holds G' \<sigma>' q k' sl' \<longleftrightarrow> sl' = sl" for sl'
      using hold [OF 3(1), of k' sl'] nh [of sl'] 3(3,4) by (cases "sl' = sl") simp_all
    then have "?R \<longleftrightarrow> n = Dir c" using at by (simp add: node_of_dir)
    with 3 show ?thesis by (auto simp: tree_mkdir_def)
  next
    case 4
    have "holds G' \<sigma>' q k' sl' \<longleftrightarrow> holds G \<sigma> q k' sl' \<and> sl' \<noteq> sl" for sl' using 4(3) free by (auto simp: hold [OF 4(1)])
    then have "?R \<longleftrightarrow> (\<exists>sl'. holds G \<sigma> q k' sl' \<and> n = node_of d G (\<sigma> sl'))" using node 4(2) free by metis
    moreover have "?L \<longleftrightarrow> T q k' = Some n" using 4 by (auto simp: tree_mkdir_def)
    ultimately show ?thesis using tr [of n] 4(2) by blast
  qed
qed

lemma add_dir_models:
  assumes m: "models (s\<lparr>fs_disk := df\<rparr>) G ds T" and st: "store (fs_disk s) (G(c \<mapsto> [c]))" and ch: "only_changes df (fs_disk s) {}"
    and c: "c \<notin> clusters G" "data_cluster c" and D: "valid_dir ds D" and sl: "in_dir G (key D) sl" "unused (get_slot s sl)"
    and k: "user_name k" "good_name k" and none: "T (key D) k = None" and dots: "fresh_dir (get_slot s) c (key D)"
    and s': "s' = dir_write_entry (slot_loc D sl) (new_dirent (fst k) (snd k) FS_ATTR_DIRECTORY c) s"
  shows "models s' (G(c \<mapsto> [c])) (insert c ds) (tree_mkdir T (key D) k c)"
proof -
  let ?f = "s\<lparr>fs_disk := df\<rparr>" and ?G = "G(c \<mapsto> [c])" and ?new = "new_dirent (fst k) (snd k) FS_ATTR_DIRECTORY c"
  note v = modelsD(1) [OF m]
  note vd = volD [OF v] and e = new_dirent_props [OF k(1)]
  have cn: "G c = None" "c \<notin> ds" using fresh_no_dir [OF vd(1,5) c(1)] by blast+
  have c0: "c \<noteq> 0" by (rule data_cluster_nz [OF c(2)])
  have pc: "key D \<noteq> c" using valid_dir_key [OF D] cn(2) c0 by auto
  have isd: "is_dir ?new" "\<not> unused ?new" using e(3,4) k(2) by simp_all
  have s_eq: "?f\<lparr>fs_disk := fs_disk s\<rparr> = s" by simp
  have chf: "only_changes (fs_disk ?f) (fs_disk s) {}" using ch by simp
  have loc: "loc_slot (slot_loc D sl) = sl" by (rule loc_slot_loc [OF vd(1) valid_dir_ok [OF v D] sl(1)])
  have sok: "slot_ok (loc_slot (slot_loc D sl))" unfolding loc by (rule in_dir_slot_ok [OF vd(1) sl(1)])
  have get: "get_slot s' sl' = (if sl' = sl then ?new else get_slot ?f sl')" if "slot_ok sl'" for sl'
    using put_slots [OF vd(2) e(1) chf sok that] by (simp only: s' loc s_eq)
  have new_at: "get_slot s' sl = ?new" using get [OF in_dir_slot_ok [OF vd(1) sl(1)]] by simp
  have other: "get_slot s' sl' = get_slot ?f sl'" if "in_dir G q sl'" "sl' \<noteq> sl" for q sl'
    using get [OF in_dir_slot_ok [OF vd(1) that(1)]] that(2) by simp
  have free: "unused (get_slot ?f sl)"
    using sl(2) only_changes_data [OF ch] in_dir_slot_ok [OF vd(1) sl(1)] by (cases sl) simp_all
  have csl: "Sub_slot c i \<noteq> sl" for i using not_in_dir_fresh [OF c(1)] sl(1) by blast
  have "dirent_at (df (cluster_to_lba c)) i = dirent_at (fs_disk s (cluster_to_lba c)) i" for i
    using only_changes_data [OF ch c(2)] by simp
  then have "get_slot s' (Sub_slot c i) = get_slot s (Sub_slot c i)" if "i < 16" for i
    using get [of "Sub_slot c i"] that c(2) csl by simp
  then have dots': "fresh_dir (get_slot s') c (key D)" using dots by (simp add: fresh_dir_def del: get_slot_simps)
  have names: "de_name ?new \<noteq> DOT_NAME" "de_name ?new \<noteq> DOTDOT_NAME" using k(1) e(7) by (simp_all add: user_name_def)
  have none': "\<not> holds G (get_slot ?f) (key D) (ename ?new) sl'" for sl' using models_none [OF m D] none e(2) by simp
  have tree: "tree_ok ?G (insert c ds) (get_slot s')"
    by (rule tree_add_dir [OF vd(1,5) c(1) c0 valid_dir_key [OF D] sl(1) free isd(2,1) e(5) names none' new_at other dots'])
  have "valid_dir (insert c ds) (cwd_dir s')" using valid_cwd [OF v] by (auto simp: s' valid_dir_def cwd_dir_def)
  moreover have "base_ok ?f" using v by (simp add: vol_base)
  then have "base_ok s" using base_ok_changes [OF _ chf] by simp
  ultimately have vol: "vol s' ?G (insert c ds)"
    using tree store_put [OF st sok] base_ok_put [OF _ sok e(1)] by (simp add: vol_base s')
  have node: "node_of (fs_disk s') ?G (get_slot s' sl') = node_of (fs_disk ?f) G (get_slot ?f sl')"
    if h: "holds G (get_slot ?f) q k' sl'" "q \<in> insert 0 ds" "sl' \<noteq> sl" for q k' sl'
  proof -
    let ?e = "get_slot ?f sl'"
    have "in_dir ?G (key D) (loc_slot (slot_loc D sl))" unfolding loc using sl(1) pc by (cases sl) auto
    moreover have "is_dir ?e \<or> ?G (first_cluster ?e) = G (first_cluster ?e) \<and> (first_cluster ?e = 0 \<or> first_cluster ?e \<noteq> key D)"
      using file_not_dir [OF v h(1,2)] valid_dir_key [OF D] held_chain [OF v h(1,2)] cn(1) c0 by auto
    ultimately have "node_of (fs_disk (dir_write_entry (slot_loc D sl) ?new (?f\<lparr>fs_disk := fs_disk s\<rparr>))) ?G ?e = node_of (fs_disk ?f) G ?e"
      by (rule put_node [OF vd(1) st chf])
    moreover have "in_dir G q sl'" using h(1) unfolding holds_def by blast
    ultimately show ?thesis using other [OF _ h(3)] unfolding s_eq s' [symmetric] by (simp del: get_slot_simps)
  qed
  have "ename ?new = k" using e(2) .
  then have hold: "holds ?G (get_slot s') q k' sl' \<longleftrightarrow> (if sl' = sl then q = key D \<and> k = k' else holds G (get_slot ?f) q k' sl')"
    if "q \<noteq> c" for q k' sl'
    using added_holds [of "fs_disk ?f" G c q "key D" sl ?new "get_slot s'" "get_slot ?f", OF vd(1) c(1) c0 that sl(1) isd(2) new_at other]
    by (auto simp del: get_slot_simps)
  have not_held: "\<not> holds G (get_slot ?f) q k' sl" for q k' using free unfolding holds_def by blast
  have Gc: "?G c = Some [c]" by simp
  have at: "is_dir (get_slot s' sl)" "first_cluster (get_slot s' sl) = c" unfolding new_at using isd(1) e(5) .
  have "shows_tree (fs_disk s') ?G (insert c ds) (get_slot s') (tree_mkdir T (key D) k c)"
    by (rule mkdir_shows [OF modelsD(2) [OF m] cn(2) c0 valid_dir_key [OF D] hold not_held none dots' Gc at node])
  with vol show ?thesis by (simp add: models_def)
qed

section \<open>The new cluster\<close>

text \<open>\<open>s2\<close> is the state in which the cluster \<open>c\<close> is allocated and holds the two dot entries.\<close>

definition mkdir_cluster :: "dir_ref \<Rightarrow> u16 \<Rightarrow> disk \<Rightarrow> fs \<Rightarrow> fs" where
  "mkdir_cluster D c dk s =
     (let s = s\<lparr>fs_disk := disk_write_sector dk (cluster_to_lba c) zero_sector\<rparr>;
          dot = new_dirent DOT_NAME EMPTY_EXT FS_ATTR_DIRECTORY c;
          dotdot = dot\<lparr>de_name := DOTDOT_NAME, first_cluster := if is_root D then 0 else dir_cluster D\<rparr>;
          here = \<lparr>is_root = False, dir_cluster = c\<rparr>
      in dir_write_entry \<lparr>loc_dir = here, root_index = 0, entry_cluster = c, entry_index = 1\<rparr> dotdot
           (dir_write_entry \<lparr>loc_dir = here, root_index = 0, entry_cluster = c, entry_index = 0\<rparr> dot s))"

lemma dot_dirents:
  fixes c p :: u16
  shows "wf_dirent (new_dirent DOT_NAME EMPTY_EXT FS_ATTR_DIRECTORY c)" "is_dir (new_dirent DOT_NAME EMPTY_EXT FS_ATTR_DIRECTORY c)"
  "wf_dirent ((new_dirent DOT_NAME EMPTY_EXT FS_ATTR_DIRECTORY c)\<lparr>de_name := DOTDOT_NAME, first_cluster := p\<rparr>)"
  by (simp_all add: new_dirent_def wf_dirent_def is_dir_def)

lemma mkdir_cluster_props:
  fixes D :: dir_ref
  assumes st: "store (fs_disk s) G" and al: "fat_alloc_cluster (fs_disk s) = (c, dk)" "c \<noteq> 0"
  defines "s2 \<equiv> mkdir_cluster D c dk s"
  shows "s2 = s\<lparr>fs_disk := fs_disk s2\<rparr>" "store (fs_disk s2) (G(c \<mapsto> [c]))" "only_changes (fs_disk s) (fs_disk s2) {c}"
    "fresh_dir (get_slot s2) c (key D)"
proof -
  note sa = store_alloc [OF st al] and de = dot_dirents [where c = c]
  have d: "fs_disk s2 lba = dk lba" if "lba \<noteq> cluster_to_lba c" for lba
    using that by (simp add: s2_def mkdir_cluster_def dir_write_entry_def Let_def disk_write_sector_def)
  show "s2 = s\<lparr>fs_disk := fs_disk s2\<rparr>" by (simp add: s2_def mkdir_cluster_def dir_write_entry_def Let_def)
  show "store (fs_disk s2) (G(c \<mapsto> [c]))"
    by (rule store_outside [OF sa(1)], rule d) (use data_lba_not_fat [OF sa(3)] in auto)
  have "dk lba = fs_disk s lba" if "\<not> fat_area lba" for lba
    unfolding sa(5) by (rule fat_write_outside [OF data_cluster_in_fat [OF sa(3)] that])
  then show "only_changes (fs_disk s) (fs_disk s2) {c}" using d sa(3) by (auto simp: only_changes_def)
  have at: "get_slot s2 (Sub_slot c i) =
      (if i = 0 then new_dirent DOT_NAME EMPTY_EXT FS_ATTR_DIRECTORY c
       else if i = 1 then (new_dirent DOT_NAME EMPTY_EXT FS_ATTR_DIRECTORY c)\<lparr>de_name := DOTDOT_NAME, first_cluster := key D\<rparr>
       else dirent_at zero_sector i)" if "i < 16" for i
    using that de
    by (auto simp: s2_def mkdir_cluster_def dir_write_entry_def Let_def disk_simps key_def dirent_at_put_same dirent_at_put_other)
  have "ename (get_slot s2 (Sub_slot c 0)) = (DOT_NAME, EMPTY_EXT) \<and> is_dir (get_slot s2 (Sub_slot c 0)) \<and>
      first_cluster (get_slot s2 (Sub_slot c 0)) = c"
    using at [of 0] de(2) by (simp add: new_dirent_def ename_def del: get_slot_simps)
  moreover have "ename (get_slot s2 (Sub_slot c 1)) = (DOTDOT_NAME, EMPTY_EXT) \<and> is_dir (get_slot s2 (Sub_slot c 1)) \<and>
      first_cluster (get_slot s2 (Sub_slot c 1)) = key D"
    using at [of 1] de(2) by (simp add: new_dirent_def ename_def is_dir_def del: get_slot_simps)
  moreover have "unused (get_slot s2 (Sub_slot c i))" if "i < 16" "2 \<le> i" for i
    using at [of i] that by (simp add: unused_zero del: get_slot_simps)
  ultimately show "fresh_dir (get_slot s2) c (key D)" by (simp add: fresh_dir_def del: get_slot_simps)
qed

text \<open>The search for a slot in the parent, with the new cluster outside the tree.\<close>

lemma mkdir_find_free:
  assumes m: "models (s\<lparr>fs_disk := fat_free_chain c (fs_disk s)\<rparr>) G ds T" and st: "store (fs_disk s) (G(c \<mapsto> [c]))"
    and c: "c \<notin> clusters G" "data_cluster c" and D: "valid_dir ds D" and dots: "fresh_dir (get_slot s) c (key D)"
  obtains (full) "dir_find_free s D = Some (None, s)"
    | (free) G' sl s' where "dir_find_free s D = Some (Some (slot_loc D sl), s')" "same_cwd s s'"
        "models (s'\<lparr>fs_disk := fat_free_chain c (fs_disk s')\<rparr>) G' ds T" "store (fs_disk s') (G'(c \<mapsto> [c]))"
        "c \<notin> clusters G'" "in_dir G' (key D) sl" "unused (get_slot s' sl)" "fresh_dir (get_slot s') c (key D)"
proof -
  let ?f = "s\<lparr>fs_disk := fat_free_chain c (fs_disk s)\<rparr>" and ?G = "G(c \<mapsto> [c])"
  note v = modelsD(1) [OF m]
  note vd = volD [OF v]
  have cn: "G c = None" "c \<notin> ds" using fresh_no_dir [OF vd(1,5) c(1)] by blast+
  have c0: "c \<noteq> 0" by (rule data_cluster_nz [OF c(2)])
  have pc: "key D \<noteq> c" using valid_dir_key [OF D] cn(2) c0 by auto
  have ok: "dir_ok ?G D" using valid_dir_ok [OF v D] by (auto simp: dir_ok_def)
  have ind: "in_dir ?G (key D) sl \<longleftrightarrow> in_dir G (key D) sl" for sl using pc by (cases sl) auto
  obtain r s' where f: "dir_find_free s D = Some (r, s')" "found_free s ?G D r s'"
    using dir_find_free_found [OF st ok] by blast
  from f(2) [unfolded found_free_def] show thesis
  proof (elim disjE exE conjE)
    fix sl assume "in_dir ?G (key D) sl" "unused (get_slot s sl)" "r = Some (slot_loc D sl)" "s' = s"
    with f(1) m st c(1) dots show thesis by (intro free [of sl s G]) (simp_all add: ind del: get_slot_simps)
  next
    assume "r = None" "s' = s"
    with f(1) show thesis by (intro full) simp
  next
    fix xs b d' assume g: "\<not> is_root D" "?G (dir_cluster D) = Some xs" "b \<notin> clusters ?G" "data_cluster b"
      "r = Some (slot_loc D (Sub_slot b 0))" "s' = s\<lparr>fs_disk := d'\<rparr>" "store d' (?G(dir_cluster D \<mapsto> xs @ [b]))"
      "d' (cluster_to_lba b) = zero_sector" "\<forall>lba. \<not> fat_area lba \<longrightarrow> lba \<noteq> cluster_to_lba b \<longrightarrow> d' lba = fs_disk s lba"
    have k: "key D = dir_cluster D" "dir_cluster D \<in> ds" using g(1) D by (simp_all add: key_def valid_dir_def)
    let ?a = "dir_cluster D"
    let ?G' = "G(?a \<mapsto> xs @ [b])"
    have "a \<noteq> c" if "G a = Some ys" for a ys using that cn(1) by auto
    then have bc: "b \<noteq> c" "b \<notin> clusters G" using g(3) unfolding in_clusters by (fastforce split: if_splits)+
    have Ga: "G ?a = Some xs" using g(2) pc k(1) by simp
    have tw: "?G(?a \<mapsto> xs @ [b]) = ?G'(c \<mapsto> [c])" "(?G'(c \<mapsto> [c]))(c := None) = ?G'"
      using pc k(1) cn(1) by (auto simp: fun_eq_iff)
    have st': "store d' (?G'(c \<mapsto> [c]))" using g(7) unfolding tw(1) .
    have fr': "\<not> fat_area lba \<Longrightarrow> fat_free_chain c d' lba = d' lba" "\<not> fat_area lba \<Longrightarrow> fat_free_chain c (fs_disk s) lba = fs_disk s lba" for lba
      using store_free(2) [OF st'] store_free(2) [OF st] by simp_all
    have sf: "store (fat_free_chain c d') ?G'" using store_free(1) [OF st', of c "[c]"] tw(2) by simp
    have z: "fat_free_chain c d' (cluster_to_lba b) = zero_sector" using g(8) fr'(1) data_lba_not_fat [OF g(4)] by simp
    have fr: "\<forall>lba. \<not> fat_area lba \<longrightarrow> lba \<noteq> cluster_to_lba b \<longrightarrow> fat_free_chain c d' lba = fs_disk ?f lba"
      using g(9) fr' by simp
    note gm = grown_models [OF m k(2) Ga bc(2) g(4) sf z fr]
    have cG: "c \<notin> clusters ?G'" using c(1) bc(1) Ga by (auto simp: in_clusters split: if_splits)
    have "get_slot s' (Sub_slot c i) = get_slot s (Sub_slot c i)" for i
      using g(6,9) data_lba_not_fat [OF c(2)] bc(1) cluster_to_lba_inj [OF data_cluster_is_link data_cluster_is_link] c(2) g(4) by simp
    then have dots': "fresh_dir (get_slot s') c (key D)" using dots by (simp add: fresh_dir_def del: get_slot_simps)
    have un: "unused (get_slot s' (Sub_slot b 0))" using g(6,8) unused_zero by simp
    show thesis
      by (rule free [of "Sub_slot b 0" s' ?G'])
        (use f(1) g(5,6) k(1) gm st' cG dots' un in \<open>simp_all del: get_slot_simps fun_upd_apply\<close>)
  qed
qed

lemma fs_mkdir_step:
  assumes "resolve_parent s path = Some (Inr (D, leaf))" "leaf \<notin> {[], ''.'', ''..''}"
    and "dir_scan s D (fst (split_name leaf)) (snd (split_name leaf)) = Some None"
    and "fat_alloc_cluster (fs_disk s) = (c, dk)" "c \<noteq> 0"
  shows "fs_mkdir path s = do {
        (loc, s) \<leftarrow> dir_find_free (mkdir_cluster D c dk s) D;
        Some (case loc of
            None \<Rightarrow> (-1, s\<lparr>fs_disk := fat_free_chain c (fs_disk s)\<rparr>)
          | Some loc \<Rightarrow> (0, dir_write_entry loc (new_dirent (fst (split_name leaf)) (snd (split_name leaf)) FS_ATTR_DIRECTORY c) s)) }"
  using assms by (simp add: fs_mkdir_def split_beta mkdir_cluster_def Let_def cong: option.case_cong)

lemma fs_mkdir_models:
  assumes m: "models s G ds T" and t: "tree_resolve T (cwd_key s) path = Some (p, leaf)"
    and l: "leaf \<notin> {[], ''.'', ''..''}" and g: "good_name (split_name leaf)"
  shows "\<exists>r s'. fs_mkdir path s = Some (r, s') \<and> same_cwd s s' \<and>
    (if T p (split_name leaf) \<noteq> None then r = -1 \<and> s' = s
     else (\<exists>G' c. r = 0 \<and> T c = Map.empty \<and> c \<notin> insert 0 ds \<and> models s' G' (insert c ds) (tree_mkdir T p (split_name leaf) c))
       \<or> (\<exists>G'. r = -1 \<and> models s' G' ds T))"
  using m
proof (cases rule: entry_cases [where path = path])
  case unresolved
  with t show ?thesis by simp
next
  case (found D leaf' sl)
  with t l show ?thesis by (auto simp: fs_mkdir_def split_beta)
next
  case (missing D leaf')
  let ?k = "split_name leaf"
  from missing t have eq: "leaf' = leaf" "key D = p" by simp_all
  note v = modelsD(1) [OF m]
  note vd = volD [OF v]
  obtain c dk where al: "fat_alloc_cluster (fs_disk s) = (c, dk)" by fastforce
  have none: "T (key D) ?k = None" using missing(4) eq by simp
  show ?thesis
  proof (cases "c = 0")
    case True
    then have "s\<lparr>fs_disk := dk\<rparr> = s" using fat_alloc_None(1) al by simp
    with True missing al eq l m none show ?thesis by (auto simp: fs_mkdir_def split_beta)
  next
    case c0: False
    define s2 where "s2 = mkdir_cluster D c dk s"
    note mc = mkdir_cluster_props [OF vd(1) al c0, of D, folded s2_def] and sa = store_alloc [OF vd(1) al c0]
    have sc: "dir_scan s D (fst ?k) (snd ?k) = Some None" "resolve_parent s path = Some (Inr (D, leaf))" using missing eq by simp_all
    note step = fs_mkdir_step [OF sc(2) l sc(1) al c0, folded s2_def]
    let ?f = "s2\<lparr>fs_disk := fat_free_chain c (fs_disk s2)\<rparr>"
    have sf: "store (fat_free_chain c (fs_disk s2)) G"
      using store_free(1) [OF mc(2), of c "[c]"] sa(4) by (simp add: fun_upd_idem)
    have "only_changes (fs_disk s) (fat_free_chain c (fs_disk s2)) {c}"
      using mc(3) store_free(2) [OF mc(2), of c "[c]"] by (simp add: only_changes_def)
    from models_frame [OF m sf this] sa(2) have "models (s\<lparr>fs_disk := fat_free_chain c (fs_disk s2)\<rparr>) G ds T" by simp
    moreover have "s\<lparr>fs_disk := fat_free_chain c (fs_disk s2)\<rparr> = ?f" by (subst mc(1)) simp
    ultimately have mf: "models ?f G ds T" by simp
    have cwd: "same_cwd s s2" by (subst mc(1)) simp
    have cds: "c \<notin> insert 0 ds" using fresh_no_dir [OF vd(1,5) sa(2)] c0 by blast
    have Tc: "T c = Map.empty"
    proof
      fix k'
      from cds show "T c k' = None" using shows_treeD [OF modelsD(2) [OF m], of c k'] by (cases "T c k'") auto
    qed
    from mf mc(2) sa(2,3) missing(3) mc(4) show ?thesis
    proof (cases rule: mkdir_find_free)
      case full
      with step mf cwd none eq show ?thesis by auto
    next
      case (free G' sl s')
      note a = add_dir_models [OF free(3,4) _ free(5) sa(3) missing(3) free(6,7) user_name_split g none free(8) refl]
      have "only_changes (fat_free_chain c (fs_disk s')) (fs_disk s') {}"
        using store_free(2) [OF free(4), of c "[c]"] by (simp add: only_changes_def)
      from a [OF this] step free(1,2) cwd none eq Tc cds show ?thesis
        by (auto simp: same_cwd_def)
    qed
  qed
qed

end
