(* ===== verification/Mount.thy ===== *)
theory Mount
  imports MkDir
begin

text \<open>
  Formatting and mounting (\<open>fs_init\<close>): a disk without the marker becomes the empty volume, a disk with
  it shows the tree it held when it was last written, whatever memory holds.
\<close>

section \<open>Formatting\<close>

definition format_disk :: "disk \<Rightarrow> disk" where
  "format_disk d = fat_write (fat_write (clear_fats (disk_write_sector d 300 boot_sector)) 0 FS_CLUSTER_BAD) 1 FS_CLUSTER_EOC"

lemma clear_fats_upto:
  assumes "n \<le> 63"
  shows "fold (\<lambda>k d. disk_write_sector (disk_write_sector d (of_nat (301 + k)) zero_sector) (of_nat (364 + k)) zero_sector) [0..<n] d lba =
    (if (\<exists>k<n. lba = of_nat (301 + k) \<or> lba = of_nat (364 + k)) then zero_sector else d lba)"
  using assms
proof (induction n)
  case (Suc n)
  then show ?case by (auto simp: disk_write_sector_def less_Suc_eq simp del: of_nat_add)
qed simp

lemma clear_fats_apply: "clear_fats d lba = (if fat_area lba then zero_sector else d lba)"
proof -
  have "(\<exists>k<63. lba = of_nat (301 + k) \<or> lba = of_nat (364 + k)) \<longleftrightarrow> fat_area lba"
  proof
    assume "fat_area lba"
    then have "unat lba < 364 \<Longrightarrow> unat lba - 301 < 63 \<and> 301 + (unat lba - 301) = unat lba"
      "\<not> unat lba < 364 \<Longrightarrow> unat lba - 364 < 63 \<and> 364 + (unat lba - 364) = unat lba"
      by (auto simp: fat_area_def)
    then show "\<exists>k<63. lba = of_nat (301 + k) \<or> lba = of_nat (364 + k)" using lba_of_nat [of lba] by metis
  qed (auto simp: fat_area_def unat_of_nat simp del: of_nat_add)
  then show ?thesis using clear_fats_upto [of 63 d lba] by (simp add: clear_fats_def del: of_nat_add upt_rec_numeral)
qed

lemma fat_read_clear: "in_fat c \<Longrightarrow> fat_read (clear_fats d) c = 0"
proof -
  assume "in_fat c"
  then have "fat_area (of_nat (301 + fat_index c))"
    using in_fat_index [of c] by (simp add: fat_area_def unat_of_nat del: of_nat_add)
  then show ?thesis by (simp add: fat_read_alt clear_fats_apply le16_def del: of_nat_add)
qed

lemma format_disk_store: "store (format_disk d) Map.empty"
proof -
  let ?d = "clear_fats (disk_write_sector d 300 boot_sector)"
  have i: "in_fat 0" "in_fat 1" by (simp_all add: in_fat_def)
  have "fat_read (format_disk d) x = 0" if "data_cluster x" for x
  proof -
    have "x \<noteq> 0" "x \<noteq> 1" "in_fat x" using that data_cluster_in_fat by (auto simp: data_cluster_def)
    then show ?thesis using i by (simp add: format_disk_def fat_read_write fat_read_clear)
  qed
  moreover have "fat_mirror ?d" by (simp add: fat_mirror_def clear_fats_apply fat_area_def unat_of_nat del: of_nat_add)
  then have "fat_mirror (format_disk d)" unfolding format_disk_def using i by (intro fat_write_mirror)
  ultimately show ?thesis by (simp add: store_def closed_def)
qed

lemma format_disk_frame: "\<not> fat_area lba \<Longrightarrow> format_disk d lba = (if lba = 300 then boot_sector else d lba)"
  by (simp add: format_disk_def fat_write_outside in_fat_def clear_fats_apply disk_write_sector_def)

lemma boot_sector_formatted: "is_formatted boot_sector"
  by code_simp

definition blank_root :: "dirent list \<Rightarrow> dirent list" where
  "blank_root = map (\<lambda>e. e\<lparr>de_name := (de_name e)[0 := FS_DIRENT_FREE], first_cluster := 0, file_size := 0\<rparr>)"

lemma fs_init_format: "\<not> is_formatted (fs_disk s 300) \<Longrightarrow> fs_init s =
    (root_save (s\<lparr>fs_disk := format_disk (fs_disk s), fs_root := blank_root (fs_root s)\<rparr>))
      \<lparr>cwd_is_root := True, cwd_cluster := 0, cwd_path := ''/''\<rparr>"
  by (simp add: fs_init_def format_disk_def blank_root_def disk_read_sector_def Let_def)

text \<open>An entry list of the size of the root directory, as the C type has it.\<close>

lemma fs_init_blank:
  assumes wf: "root_wf s" and f: "\<not> is_formatted (fs_disk s 300)"
  shows "models (fs_init s) Map.empty {} (\<lambda>p. Map.empty)"
proof -
  let ?s = "s\<lparr>fs_disk := format_disk (fs_disk s), fs_root := blank_root (fs_root s)\<rparr>"
  note init = fs_init_format [OF f]
  have len: "length (fs_root s) = 128" using wf by (simp add: root_wf_def)
  have wf': "root_wf ?s" using wf by (auto simp: root_wf_def blank_root_def wf_dirent_def)
  have un: "unused (blank_root (fs_root s) ! i)" if "i < 128" for i
  proof -
    have "wf_dirent (fs_root s ! i)" using wf that by (simp add: root_wf_def)
    with that len show ?thesis by (simp add: blank_root_def unused_def wf_dirent_def)
  qed
  have no: "\<not> holds Map.empty (get_slot (fs_init s)) p k sl" for p k sl
    using un by (cases sl) (auto simp: holds_def init)
  have no': "\<not> owns Map.empty {} (get_slot (fs_init s)) p sl" for p sl
    using un by (cases sl) (auto simp: owns_def init)
  have "store (fs_disk (root_save ?s)) Map.empty"
    by (rule store_outside [OF format_disk_store [of "fs_disk s"]]) (use root_not_fat in \<open>auto simp: root_save_disk\<close>)
  then have st: "store (fs_disk (fs_init s)) Map.empty" by (simp add: init)
  have "root_synced (root_save ?s)" by (rule root_save_synced [OF wf'])
  moreover have "is_formatted (fs_disk (root_save ?s) 300)"
    by (simp add: root_save_disk root_area_def format_disk_frame fat_area_def boot_sector_formatted)
  ultimately have "root_synced (fs_init s)" "is_formatted (fs_disk (fs_init s) 300)" "root_wf (fs_init s)"
    using wf' by (simp_all add: init root_synced_def root_load_def root_wf_def)
  moreover have "tree_ok Map.empty {} (get_slot (fs_init s))"
    by (rule tree_okI) (use no no' in \<open>simp_all del: get_slot_simps\<close>)
  ultimately have "vol (fs_init s) Map.empty {}" using st by (simp add: vol_def init)
  then show ?thesis using no by (simp add: models_def shows_tree_def del: get_slot_simps)
qed

section \<open>Mounting\<close>

lemma fs_init_mount:
  assumes m: "models s G ds T" and d: "fs_disk s' = fs_disk s"
  shows "fs_init s' = s\<lparr>cwd_is_root := True, cwd_cluster := 0, cwd_path := ''/''\<rparr>"
    "models (fs_init s') G ds T"
proof -
  note v = modelsD(1) [OF m]
  note vd = volD [OF v]
  have "fs_root (root_load s') = fs_root (root_load s)" using d by (simp add: root_load_def)
  then have "fs_root (root_load s') = fs_root s" using vd(3) by (simp add: root_synced_def)
  moreover have "fs_disk (root_load s') = fs_disk s" using d by (simp add: root_load_def)
  ultimately show eq: "fs_init s' = s\<lparr>cwd_is_root := True, cwd_cluster := 0, cwd_path := ''/''\<rparr>"
    using vd(4) d by (simp add: fs_init_def disk_read_sector_def Let_def)
  let ?s = "s\<lparr>cwd_is_root := True, cwd_cluster := 0, cwd_path := ''/''\<rparr>"
  have "get_slot ?s = get_slot s" by (simp add: get_slot_def fun_eq_iff split: slot.split)
  moreover have "root_synced ?s = root_synced s" by (simp add: root_synced_def root_load_def)
  ultimately show "models (fs_init s') G ds T"
    unfolding eq using m by (simp add: models_def vol_def root_wf_def)
qed

end
