(* ===== verification/Space.thy ===== *)
theory Space
  imports Mount
begin

text \<open>
  Free space. The counts of \<open>fs_debug_stats\<close> decide which operations of \<open>kernel/fs.c\<close> succeed: a
  write needs the clusters for its data, a new entry a slot of the root directory or a cluster.
\<close>

section \<open>Free clusters\<close>

definition free_set :: "disk \<Rightarrow> u16 set" where
  "free_set d = {x. data_cluster x \<and> fat_read d x = 0}"

definition free_clusters :: "fs \<Rightarrow> nat" where
  "free_clusters s = fst (snd (fs_debug_stats s))"

definition root_used :: "fs \<Rightarrow> nat" where
  "root_used s = fst (fs_debug_stats s)"

lemma free_clusters_card: "free_clusters s = card (free_set (fs_disk s))"
proof -
  let ?P = "\<lambda>c. fat_read (fs_disk s) (of_nat c) = 0"
  have "free_set (fs_disk s) = of_nat ` set (filter ?P [2..<15951])"
  proof -
    have "x \<in> of_nat ` set (filter ?P [2..<15951])" if "x \<in> free_set (fs_disk s)" for x
      by (rule image_eqI [of _ _ "unat x"]) (use that in \<open>auto simp: free_set_def data_cluster_def simp del: upt_rec_numeral\<close>)
    moreover have "of_nat c \<in> free_set (fs_disk s)" if "c \<in> set (filter ?P [2..<15951])" for c
      using that by (auto simp: free_set_def data_cluster_def unat_of_nat simp del: upt_rec_numeral)
    ultimately show ?thesis by blast
  qed
  moreover have "inj_on (of_nat :: nat \<Rightarrow> u16) (set (filter ?P [2..<15951]))"
    by (auto simp: inj_on_def word_unat_eq_iff unat_of_nat simp del: upt_rec_numeral)
  ultimately have "card (free_set (fs_disk s)) = length (filter ?P [2..<15951])"
    by (simp only: card_image distinct_card [OF distinct_filter [OF distinct_upt]])
  then show ?thesis by (simp add: free_clusters_def fs_debug_stats_def del: upt_rec_numeral)
qed

lemma finite_free [simp]: "finite (free_set d)"
  by (rule finite_subset [OF subset_UNIV]) simp

lemma free_set_store: "store d G \<Longrightarrow> free_set d = {x. data_cluster x} - clusters G"
  using store_no_leak used_not_free by (fastforce simp: free_set_def)

lemma free_set_outside: "(\<And>lba. fat_area lba \<Longrightarrow> d' lba = d lba) \<Longrightarrow> free_set d' = free_set d"
proof -
  assume "\<And>lba. fat_area lba \<Longrightarrow> d' lba = d lba"
  then have "fat_read d' x = fat_read d x" if "data_cluster x" for x
    by (rule fat_read_outside [OF _ data_cluster_in_fat [OF that]])
  then show ?thesis unfolding free_set_def by (intro Collect_cong conj_cong refl) simp
qed

lemma free_set_data_write: "data_cluster c \<Longrightarrow> free_set (disk_write_sector d (cluster_to_lba c) buf) = free_set d"
  by (rule free_set_outside) (use data_lba_not_fat in \<open>auto simp: disk_write_sector_def\<close>)

lemma free_set_alloc:
  assumes "fat_alloc_cluster d = (c, d')"
  shows "c = 0 \<Longrightarrow> free_set d = {}" "c \<noteq> 0 \<Longrightarrow> c \<in> free_set d \<and> data_cluster c \<and> free_set d' = free_set d - {c}"
proof -
  show "free_set d = {}" if "c = 0" using fat_alloc_None(2) assms that by (auto simp: free_set_def)
  assume "c \<noteq> 0"
  note al = fat_alloc_Some [OF assms this]
  have "fat_read d' x = (if x = c then 0xFFFF else fat_read d x)" if "data_cluster x" for x
    using fat_read_data [OF al(1) that] by (simp add: al(3))
  then show "c \<in> free_set d \<and> data_cluster c \<and> free_set d' = free_set d - {c}" using al(1,2) by (auto simp: free_set_def split: if_splits)
qed

lemma free_set_link: "data_cluster p \<Longrightarrow> p \<notin> free_set d \<Longrightarrow> v \<noteq> 0 \<Longrightarrow> free_set (fat_write d p v) = free_set d"
  using fat_read_data [of p _ d v] by (auto simp: free_set_def split: if_splits)

text \<open>The loop that writes data runs to the end when there are clusters for it.\<close>

lemma append_clusters_ok:
  assumes "length data \<le> 512 * card (free_set d)" "first \<noteq> 0 \<Longrightarrow> prev \<noteq> 0 \<Longrightarrow> data_cluster prev \<and> prev \<notin> free_set d"
  shows "fst (append_clusters d first prev data)"
  using assms
proof (induction d first prev data rule: append_clusters.induct)
  case (1 d first prev data)
  show ?case
  proof (cases "data = []")
    case True
    then show ?thesis by (simp add: append_clusters.simps)
  next
    case ne: False
    obtain c d1 where al: "fat_alloc_cluster d = (c, d1)" by fastforce
    note fs = free_set_alloc [OF al]
    have "free_set d \<noteq> {}" using "1.prems"(1) ne by auto
    with fs have c: "c \<noteq> 0" "c \<in> free_set d" "data_cluster c" "free_set d1 = free_set d - {c}" by blast+
    let ?d2 = "if first = 0 then d1 else if prev \<noteq> 0 then fat_write d1 prev c else d1"
    let ?d3 = "disk_write_sector ?d2 (cluster_to_lba c) (sector_of (take FS_BYTES_PER_SECTOR data))"
    let ?f = "if first = 0 then c else first"
    have "free_set ?d2 = free_set d1" using "1.prems"(2) c(1,4) by (simp add: free_set_link)
    then have fr: "free_set ?d3 = free_set d - {c}" by (simp add: free_set_data_write [OF c(3)] c(4))
    then have card: "card (free_set ?d3) = card (free_set d) - 1" using c(2) by simp
    moreover have "0 < card (free_set d)" using c(2) by (auto simp: card_gt_0_iff)
    ultimately have len: "length (drop FS_BYTES_PER_SECTOR data) \<le> 512 * card (free_set ?d3)" using "1.prems"(1) by simp
    have run: "append_clusters d first prev data = append_clusters ?d3 ?f c (drop FS_BYTES_PER_SECTOR data)"
      using ne al c(1) by (subst append_clusters.simps) (simp add: Let_def)
    have "fst (append_clusters ?d3 ?f c (drop FS_BYTES_PER_SECTOR data))"
      by (rule "1.IH" [OF ne al [symmetric] c(1) refl refl refl len]) (use fr c(3) in simp)
    then show ?thesis using run by simp
  qed
qed

section \<open>Writing and appending to an entry\<close>

lemma free_set_freed:
  assumes st: "store d G" and e: "entry_ok G ds e" "\<not> is_dir e"
  shows "card (free_set (freed e d)) = card (free_set d) + (unat (file_size e) + 511) div 512"
proof (cases "first_cluster e = 0")
  case True
  with e show ?thesis by (simp add: freed_def entry_ok_def)
next
  case False
  from file_size_bound [OF st e False] obtain xs where xs: "G (first_cluster e) = Some xs"
    "length xs = (unat (file_size e) + 511) div 512" by blast
  let ?G = "G(first_cluster e := None)"
  note x = storeD [OF st xs(1)]
  have hd: "first_cluster e = hd xs" using x(4) by simp
  have cl: "clusters G = set xs \<union> clusters ?G" using clusters_upd [of ?G "first_cluster e" xs] xs(1) by (simp add: fun_upd_idem)
  have disj: "set xs \<inter> clusters ?G = {}" using clusters_remove_self [of G xs d] st xs(1) hd by simp
  have "free_set (freed e d) = free_set d \<union> set xs"
    using free_set_store [OF st] free_set_store [OF freed_file(1) [OF st e]] cl disj x(3) by auto
  moreover have "free_set d \<inter> set xs = {}" using free_set_store [OF st] cl by auto
  ultimately show ?thesis using xs(2) distinct_card [OF x(7)] by (simp add: card_Un_disjoint)
qed

lemma append_ok_needs:
  assumes st: "store d G" and a: "append_clusters d 0 0 data = (True, f, rest, d')"
  shows "(length data + 511) div 512 \<le> card (free_set d)"
proof -
  from write_loop [OF st a] obtain cs where cs: "store d' (extended G cs)" "set cs \<inter> clusters G = {}"
    "\<forall>x\<in>set cs. data_cluster x" "length cs = (length data + 511) div 512" by blast
  have "distinct cs"
  proof (cases "cs = []")
    case False
    then have "extended G cs (hd cs) = Some cs" by (rule extended_hd)
    then show ?thesis by (rule storeD(7) [OF cs(1)])
  qed simp
  moreover have "set cs \<subseteq> free_set d" using cs(2,3) free_set_store [OF st] by blast
  ultimately show ?thesis using cs(4) card_mono [OF finite_free] distinct_card by metis
qed

lemma write_entry_ok:
  assumes m: "models s G ds T" and D: "valid_dir ds D" and h: "holds G (get_slot s) (key D) k sl" and k: "user_name k"
    and f: "\<not> is_dir (get_slot s sl)" and n: "length data \<le> 0xFFFFFE00"
    and w: "fs_write_entry (get_slot s sl) loc data s = (r, s')"
  shows "r = (if (length data + 511) div 512 \<le> free_clusters s + (unat (file_size (get_slot s sl)) + 511) div 512 then 0 else -1)"
proof (cases "data = []")
  case True
  with w show ?thesis by (simp add: fs_write_entry_def Let_def)
next
  case False
  let ?e = "get_slot s sl" and ?n = "of_nat (length data) :: u32"
  let ?d0 = "freed ?e (fs_disk s)"
  note st = volD(1) [OF modelsD(1) [OF m]] and slot = holds_slot [OF m D h k]
  have un: "unat ?n = length data" using n by (simp add: unat_of_nat)
  have num: "unat ((?n + of_nat FS_BYTES_PER_SECTOR - 1) div of_nat FS_BYTES_PER_SECTOR) = (length data + 511) div 512"
    using clusters_for_size [of ?n] un n by simp
  have zero: "?n \<noteq> 0" using False un by (metis length_0_conv unat_0)
  obtain ok fi rest d1 where a: "append_clusters ?d0 0 0 data = (ok, fi, rest, d1)" using prod_cases4 by blast
  have wr: "write_clusters ((length data + 511) div 512) ?d0 0 0 data = (ok, fi, d1)"
    using write_is_append [of "(length data + 511) div 512" data 0 0 ?d0] a by simp
  have "r = (if ok then 0 else -1)"
    using w zero unfolding fs_write_entry_def Let_def freed_state [of ?e s] num by (cases ok) (simp_all add: wr)
  moreover have "ok \<longleftrightarrow> (length data + 511) div 512 \<le> card (free_set ?d0)"
  proof
    assume ok
    with append_ok_needs [OF freed_file(1) [OF st slot(6) f], of data fi rest d1] a
    show "(length data + 511) div 512 \<le> card (free_set ?d0)" by simp
  next
    assume "(length data + 511) div 512 \<le> card (free_set ?d0)"
    then have "length data \<le> 512 * card (free_set ?d0)" by linarith
    from append_clusters_ok [OF this, of 0 0] a show ok by simp
  qed
  ultimately show ?thesis using free_set_freed [OF st slot(6) f] by (simp add: free_clusters_card)
qed

lemma append_entry_ok:
  assumes m: "models s G ds T" and D: "valid_dir ds D" and h: "holds G (get_slot s) (key D) k sl" and k: "user_name k"
    and f: "\<not> is_dir (get_slot s sl)" and w: "fs_append_entry (get_slot s sl) (slot_loc D sl) data s = (r, s')"
    and room: "(unat (file_size (get_slot s sl)) + length data + 511) div 512
      \<le> free_clusters s + (unat (file_size (get_slot s sl)) + 511) div 512"
  shows "r = 0"
proof (cases "data = []")
  case True
  with w show ?thesis by (simp add: fs_append_entry_def)
next
  case False
  let ?e = "get_slot s sl" and ?cur = "unat (file_size (get_slot s sl))"
  note st = volD(1) [OF modelsD(1) [OF m]] and slot = holds_slot [OF m D h k]
  obtain xs prev d0 bs where rd: "append_ready (fs_disk s) G ?e data d0 xs bs" and prev: "xs \<noteq> [] \<longrightarrow> prev = last xs"
    and run: "fs_append_entry ?e (slot_loc D sl) data s =
      (case append_clusters d0 (first_cluster ?e) prev (drop (length bs) data) of (ok, fi, rest, d1) \<Rightarrow>
        (if ok then 0 else -1, put_entry D sl (?e\<lparr>first_cluster := fi,
           file_size := file_size ?e + of_nat (length data - length rest)\<rparr>) d1 s))"
    by (rule append_start [OF m D h k f False]) (rule that; assumption)
  have r: "store d0 G" "xs \<noteq> [] \<Longrightarrow> G (hd xs) = Some xs" "start_of xs = first_cluster ?e"
    "drop (length bs) data \<noteq> [] \<Longrightarrow> ?cur + length bs = 512 * length xs" "bs = take (length bs) data"
    using rd unfolding append_ready_def by blast+
  have same: "free_set d0 = free_set (fs_disk s)" using free_set_store [OF st] free_set_store [OF r(1)] by simp
  have len: "length xs = (?cur + 511) div 512"
  proof (cases "xs = []")
    case True
    then have "first_cluster ?e = 0" using r(3) by (simp add: start_of_def)
    with slot(6) f True show ?thesis by (simp add: entry_ok_def)
  next
    case False
    with r(3) have hd: "first_cluster ?e = hd xs" by (simp add: start_of_def)
    then have "first_cluster ?e \<noteq> 0" using r(2) [OF False] store_not_0 [OF st] by auto
    from file_size_bound [OF st slot(6) f this] r(2) [OF False] hd show ?thesis by auto
  qed
  have bl: "length bs \<le> length data" using r(5) by (metis length_take min.cobounded1 nle_le)
  have "length (drop (length bs) data) \<le> 512 * card (free_set d0)"
  proof (cases "drop (length bs) data = []")
    case False
    then have "?cur + length data = 512 * length xs + length (drop (length bs) data)" using r(4) bl by simp
    then have "(length (drop (length bs) data) + 511) div 512 \<le> card (free_set d0)"
      using room len by (simp add: free_clusters_card same)
    then show ?thesis by linarith
  qed simp
  moreover have "data_cluster prev \<and> prev \<notin> free_set d0" if "first_cluster ?e \<noteq> 0"
  proof -
    have xs: "xs \<noteq> []" using that r(3) by (auto simp: start_of_def)
    then have "last xs \<in> clusters G" using r(2) last_in_set unfolding in_clusters by blast
    then show ?thesis using xs prev free_set_store [OF r(1)] storeD(3) [OF r(1) r(2)] by simp
  qed
  ultimately have "fst (append_clusters d0 (first_cluster ?e) prev (drop (length bs) data))" by (intro append_clusters_ok) blast+
  with run w show ?thesis by (auto split: prod.splits)
qed

section \<open>Room for an entry\<close>

text \<open>A slot of the root directory is free, or a cluster is, by which the directory \<open>p\<close> can grow.\<close>

definition room :: "fs \<Rightarrow> u16 \<Rightarrow> nat \<Rightarrow> bool" where
  "room s p n \<longleftrightarrow> (if p = 0 then root_used s < 128 \<and> n \<le> free_clusters s else n + 1 \<le> free_clusters s)"

lemma root_used_free: "root_used s < 128 \<Longrightarrow> \<exists>i<128. unused (fs_root s ! i)"
proof (rule ccontr)
  assume lt: "root_used s < 128" and "\<not> (\<exists>i<128. unused (fs_root s ! i))"
  then have "filter (\<lambda>i. \<not> unused (fs_root s ! i)) [0..<128] = [0..<128]" by (simp del: upt_rec_numeral)
  with lt show False by (simp add: root_used_def fs_debug_stats_def del: upt_rec_numeral)
qed

lemma find_free_none:
  assumes st: "store (fs_disk s) G" and ok: "dir_ok G D" and n: "dir_find_free s D = Some (None, s')"
  shows "if is_root D then \<forall>i<128. \<not> unused (fs_root s ! i) else free_set (fs_disk s) = {}"
proof -
  let ?ls = "dir_slots s D (dir_clusters G D)"
  let ?c = "if is_root D then 0 else dir_cluster D"
  have free: "dir_free_from s D (dir_iter_start D) ?c = Some
     (case find (\<lambda>x. unused (fst x)) ?ls of
        Some (e, l) \<Rightarrow> (Some l, if is_root D then ?c else entry_cluster l)
      | None \<Rightarrow> (None, if is_root D \<or> ?ls = [] then ?c else entry_cluster (snd (last ?ls))))"
    by (rule dir_free_from_find [OF iter_yields_dir [OF dir_chain_clusters [OF st ok]]])
  have none: "find (\<lambda>x. unused (fst x)) ?ls = None"
    using n free by (cases "find (\<lambda>x. unused (fst x)) ?ls") (auto simp: dir_find_free_def)
  show ?thesis
  proof (cases "is_root D")
    case True
    have "\<not> unused (fs_root s ! i)" if "i < 128" for i
    proof -
      have "(get_slot s (Root_slot i), slot_loc D (Root_slot i)) \<in> set ?ls"
        unfolding set_dir_slots [OF st ok] using True that by (intro exI [of _ "Root_slot i"]) (simp add: key_def)
      with none show ?thesis by (auto simp: find_None_iff)
    qed
    with True show ?thesis by simp
  next
    case False
    obtain c d1 where al: "fat_alloc_cluster (fs_disk s) = (c, d1)" by fastforce
    have "c = 0" using n free none False al by (simp add: dir_find_free_def Let_def split: if_splits)
    with False free_set_alloc(1) [OF al] show ?thesis by simp
  qed
qed

lemma find_free_room:
  assumes st: "store (fs_disk s) G" and ok: "dir_ok G D" and r: "if is_root D then root_used s < 128 else 0 < free_clusters s"
  shows "\<exists>loc s'. dir_find_free s D = Some (Some loc, s') \<and> free_clusters s \<le> free_clusters s' + (if is_root D then 0 else 1)"
proof -
  obtain l s' where f: "dir_find_free s D = Some (l, s')" "found_free s G D l s'"
    using dir_find_free_found [OF st ok] by blast
  show ?thesis
  proof (cases l)
    case None
    with find_free_none [OF st ok, of s'] f(1) r root_used_free show ?thesis
      by (auto simp: free_clusters_card split: if_splits)
  next
    case (Some loc)
    from f(2) [unfolded found_free_def] have "free_clusters s \<le> free_clusters s' + (if is_root D then 0 else 1)"
    proof (elim disjE exE conjE)
      fix xs c d' assume g: "\<not> is_root D" "G (dir_cluster D) = Some xs" "c \<notin> clusters G" "data_cluster c"
        "s' = s\<lparr>fs_disk := d'\<rparr>" "store d' (G(dir_cluster D \<mapsto> xs @ [c]))"
      let ?b = "dir_cluster D"
      let ?G = "G(?b := None)"
      have "clusters (G(?b \<mapsto> xs @ [c])) = insert c (clusters G)"
        using clusters_upd [of ?G ?b "xs @ [c]"] clusters_upd [of ?G ?b xs] g(2) by (simp add: fun_upd_idem)
      then have "free_set d' = free_set (fs_disk s) - {c}" using free_set_store [OF st] free_set_store [OF g(6)] by auto
      then have "card (free_set (fs_disk s)) \<le> Suc (card (free_set d'))" by (simp add: card_Diff_singleton_if) arith
      with g(1,5) show ?thesis by (simp add: free_clusters_card)
    qed (use Some in simp_all)
    with f(1) Some show ?thesis by blast
  qed
qed

lemma dir_write_free: "slot_ok (loc_slot l) \<Longrightarrow> free_clusters (dir_write_entry l e s) = free_clusters s"
  unfolding free_clusters_card
  by (rule arg_cong [where f = card], rule free_set_outside, rule dir_write_entry_frame) (use slot_not_fat in blast)

section \<open>Operations on paths that succeed\<close>

lemma valid_dir_room: "vol s G ds \<Longrightarrow> valid_dir ds D \<Longrightarrow> room s (key D) n \<Longrightarrow> if is_root D then root_used s < 128 else 0 < free_clusters s"
  using key_0 [OF volD(1) valid_dir_ok] by (fastforce simp: room_def)

lemma create_room:
  assumes m: "models s G ds T" and r: "resolve_parent s path = Some (Inr (D, leaf))" and D: "valid_dir ds D" and l: "leaf \<noteq> []"
    and none: "T (key D) (split_name leaf) = None" and room: "room s (key D) n"
  shows "\<exists>s'. fs_create path s = Some (0, s') \<and> n \<le> free_clusters s'"
proof -
  let ?k = "split_name leaf"
  note v = modelsD(1) [OF m]
  note vd = volD [OF v] and ok = valid_dir_ok [OF v D]
  have sc: "dir_scan s D (fst ?k) (snd ?k) = Some None"
    using lookup_tree [OF modelsD [OF m] D split_name_ok [of leaf]] none by auto
  obtain loc s' where f: "dir_find_free s D = Some (Some loc, s')" "free_clusters s \<le> free_clusters s' + (if is_root D then 0 else 1)"
    using find_free_room [OF vd(1) ok valid_dir_room [OF v D room]] by blast
  have n: "n \<le> free_clusters s'" using f(2) room key_0 [OF vd(1) ok] by (auto simp: room_def split: if_splits)
  have "slot_ok (loc_slot loc)"
    using m D
  proof (cases rule: find_free_models)
    case (free G' sl s1)
    note v1 = modelsD(1) [OF free(2)]
    have "loc_slot (slot_loc D sl) = sl" by (rule loc_slot_loc [OF volD(1) [OF v1] valid_dir_ok [OF v1 D] free(3)])
    with free(1) f(1) in_dir_slot_ok [OF volD(1) [OF v1] free(3)] show ?thesis by simp
  qed (use f(1) in simp)
  with n have "n \<le> free_clusters (dir_write_entry loc (new_dirent (fst ?k) (snd ?k) FS_ATTR_NORMAL 0) s')" by (simp add: dir_write_free)
  with r l sc f(1) show ?thesis by (simp add: fs_create_def split_beta)
qed

lemma create_room':
  assumes m: "models s G ds T" and t: "tree_resolve T (cwd_key s) path = Some (p, leaf)" and l: "leaf \<noteq> []"
    and none: "T p (split_name leaf) = None" and room: "room s p n"
  shows "\<exists>s'. fs_create path s = Some (0, s') \<and> n \<le> free_clusters s'"
  using m
proof (cases rule: entry_cases [where path = path])
  case (missing D leaf')
  with t have "leaf' = leaf" "key D = p" by simp_all
  with create_room [OF m _ missing(3) l] missing(1) none room show ?thesis by simp
qed (use t none in simp_all)

lemma open_room:
  assumes m: "models s G ds T" and t: "tree_resolve T (cwd_key s) path = Some (p, leaf)" and l: "leaf \<noteq> []"
    and room: "T p (split_name leaf) = None \<Longrightarrow> room s p n" "T p (split_name leaf) \<noteq> None \<Longrightarrow> n \<le> free_clusters s"
    and op: "fs_open_or_create path s = Some (loc, s')"
  shows "n \<le> free_clusters s' \<and> (T p (split_name leaf) = None \<longrightarrow> (\<exists>s1. fs_create path s = Some (0, s1)))"
  using m
proof (cases rule: entry_cases [where path = path])
  case unresolved
  with t show ?thesis by simp
next
  case (found D leaf' sl)
  with t have eq: "leaf' = leaf" "key D = p" by simp_all
  with found l op have "s' = s" by (simp add: fs_open_or_create_def split_beta)
  with found(4) eq room(2) show ?thesis by simp
next
  case (missing D leaf')
  with t have eq: "leaf' = leaf" "key D = p" by simp_all
  let ?k = "split_name leaf"
  have none: "T (key D) ?k = None" and r: "resolve_parent s path = Some (Inr (D, leaf))" using missing(1,4) eq by simp_all
  have "room s (key D) n" using room(1) none eq(2) by simp
  from create_room [OF m r missing(3) l none this] obtain s1 where s1: "fs_create path s = Some (0, s1)" "n \<le> free_clusters s1" by blast
  have "s' = s1" using op missing(6) r l s1(1) eq by (auto simp: fs_open_or_create_def split_beta split: bind_splits)
  with s1 show ?thesis by simp
qed

text \<open>The length of the old content of a name, 0 if it has none.\<close>

definition old_length :: "node option \<Rightarrow> nat" where
  "old_length v = (case v of Some (File old) \<Rightarrow> length old | _ \<Rightarrow> 0)"

text \<open>The file that \<open>fs_write\<close> and \<open>fs_append\<close> open, its size, and the space that is left then.\<close>

lemma opened_space:
  assumes m: "models s G ds T" and t: "tree_resolve T (cwd_key s) path = Some (p, leaf)" and l: "leaf \<noteq> []"
    and g: "good_name (split_name leaf)" and d: "dir_of (T p (split_name leaf)) = None"
    and room: "if T p (split_name leaf) = None then room s p n else n \<le> free_clusters s + c"
  obtains D sl G1 s1 T1 where "fs_open_or_create path s = Some (Some (get_slot s1 sl, slot_loc D sl), s1)" "valid_dir ds D"
    "models s1 G1 ds T1" "holds G1 (get_slot s1) (key D) (split_name leaf) sl" "\<not> is_dir (get_slot s1 sl)"
    "unat (file_size (get_slot s1 sl)) = old_length (T p (split_name leaf))"
    "if T p (split_name leaf) = None then n \<le> free_clusters s1 else s1 = s"
  using m t l g
proof (cases rule: open_or_create_models)
  case full
  from create_room' [OF m t l full(2), of n] room full(2,3) show thesis by simp
next
  case (opened D sl G1 s1 T1)
  let ?k = "split_name leaf" and ?e = "get_slot s1 sl"
  have h: "holds G1 (get_slot s1) (key D) ?k sl" using opened(2,5) by simp
  have node: "T1 p ?k = Some (node_of (fs_disk s1) G1 ?e)"
    using shows_treeD [OF modelsD(2) [OF opened(4)]] valid_dir_key [OF opened(3)] opened(2,5) by blast
  have nd: "\<not> is_dir ?e" using node d opened(7) by (auto simp: node_of_def dir_of_def split: if_splits)
  note slot = holds_slot [OF opened(4,3) h user_name_split]
  have "unat (file_size ?e) = length (file_bytes (fs_disk s1) G1 ?e)"
    using length_file_bytes [OF volD(1) [OF modelsD(1) [OF opened(4)]] slot(6) nd] by simp
  also have "\<dots> = old_length (T p ?k)" using node nd opened(7) by (auto simp: node_of_def old_length_def split: if_splits)
  finally have size: "unat (file_size ?e) = old_length (T p ?k)" .
  have "if T p ?k = None then n \<le> free_clusters s1 else s1 = s"
  proof (cases "T p ?k = None")
    case True
    with open_room [OF m t l _ _ opened(1), of n] room show ?thesis by simp
  next
    case False
    with opened(8) show ?thesis by auto
  qed
  with opened(1,3,4) h nd size show thesis by (rule that)
qed

lemma fs_write_ok:
  assumes m: "models s G ds T" and t: "tree_resolve T (cwd_key s) path = Some (p, leaf)" and l: "leaf \<noteq> []"
    and g: "good_name (split_name leaf)" and n: "length data \<le> 0xFFFFFE00" and d: "dir_of (T p (split_name leaf)) = None"
    and room: "if T p (split_name leaf) = None then room s p ((length data + 511) div 512)
      else (length data + 511) div 512 \<le> free_clusters s + (old_length (T p (split_name leaf)) + 511) div 512"
  shows "\<exists>s' G'. fs_write path data s = Some (0, s') \<and> same_cwd s s' \<and> models s' G' ds (T(p := (T p)(split_name leaf \<mapsto> File data)))"
proof -
  let ?k = "split_name leaf"
  obtain D sl G1 s1 T1 where o: "fs_open_or_create path s = Some (Some (get_slot s1 sl, slot_loc D sl), s1)" "valid_dir ds D"
    "models s1 G1 ds T1" "holds G1 (get_slot s1) (key D) ?k sl" "\<not> is_dir (get_slot s1 sl)"
    "unat (file_size (get_slot s1 sl)) = old_length (T p ?k)"
    "if T p ?k = None then (length data + 511) div 512 \<le> free_clusters s1 else s1 = s"
    by (rule opened_space [OF m t l g d room]) (rule that; assumption)
  obtain r s' where w: "fs_write_entry (get_slot s1 sl) (slot_loc D sl) data s1 = (r, s')" by fastforce
  have "r = 0"
    using write_entry_ok [OF o(3,2,4) user_name_split o(5) n w] room o(6,7) by (auto simp: old_length_def split: if_splits)
  moreover have "fs_write path data s = Some (r, s')"
    using o(1,5) w by (simp add: fs_write_def not_dir_attr del: get_slot_simps)
  ultimately show ?thesis using fs_write_models [OF m t l g n] d by auto
qed

lemma fs_write_full:
  assumes m: "models s G ds T" and t: "tree_resolve T (cwd_key s) path = Some (p, leaf)" and l: "leaf \<noteq> []"
    and g: "good_name (split_name leaf)" and n: "length data \<le> 0xFFFFFE00" and f: "T p (split_name leaf) = Some (File old)"
    and full: "\<not> (length data + 511) div 512 \<le> free_clusters s + (length old + 511) div 512"
  shows "\<exists>s' G'. fs_write path data s = Some (-1, s') \<and> same_cwd s s' \<and> models s' G' ds (T(p := (T p)(split_name leaf \<mapsto> File [])))"
proof -
  let ?k = "split_name leaf"
  have d: "dir_of (T p ?k) = None" and zero: "if T p ?k = None then room s p 0 else 0 \<le> free_clusters s + 0"
    using f by (simp_all add: dir_of_def)
  obtain D sl G1 s1 T1 where o: "fs_open_or_create path s = Some (Some (get_slot s1 sl, slot_loc D sl), s1)" "valid_dir ds D"
    "models s1 G1 ds T1" "holds G1 (get_slot s1) (key D) ?k sl" "\<not> is_dir (get_slot s1 sl)"
    "unat (file_size (get_slot s1 sl)) = old_length (T p ?k)" "if T p ?k = None then 0 \<le> free_clusters s1 else s1 = s"
    by (rule opened_space [OF m t l g d zero]) (rule that; assumption)
  obtain r s' where w: "fs_write_entry (get_slot s1 sl) (slot_loc D sl) data s1 = (r, s')" by fastforce
  have "r = -1"
    using write_entry_ok [OF o(3,2,4) user_name_split o(5) n w] full o(6,7) f by (simp add: old_length_def)
  moreover have "fs_write path data s = Some (r, s')"
    using o(1,5) w by (simp add: fs_write_def not_dir_attr del: get_slot_simps)
  ultimately show ?thesis using fs_write_models [OF m t l g n] d f by auto
qed

lemma fs_append_ok:
  assumes m: "models s G ds T" and t: "tree_resolve T (cwd_key s) path = Some (p, leaf)" and l: "leaf \<noteq> []"
    and g: "good_name (split_name leaf)" and d: "dir_of (T p (split_name leaf)) = None"
    and room: "if T p (split_name leaf) = None then room s p ((length data + 511) div 512)
      else (old_length (T p (split_name leaf)) + length data + 511) div 512
        \<le> free_clusters s + (old_length (T p (split_name leaf)) + 511) div 512"
  shows "\<exists>s' G'. fs_append path data s = Some (0, s') \<and> same_cwd s s' \<and> models s' G' ds (T(p := (T p)(split_name leaf \<mapsto>
    File ((case T p (split_name leaf) of Some (File old) \<Rightarrow> old | _ \<Rightarrow> []) @ data))))"
proof -
  let ?k = "split_name leaf"
  let ?n = "if T p ?k = None then (length data + 511) div 512 else (old_length (T p ?k) + length data + 511) div 512"
  have room': "if T p ?k = None then room s p ?n else ?n \<le> free_clusters s + (old_length (T p ?k) + 511) div 512"
    using room by (cases "T p ?k") simp_all
  obtain D sl G1 s1 T1 where o: "fs_open_or_create path s = Some (Some (get_slot s1 sl, slot_loc D sl), s1)" "valid_dir ds D"
    "models s1 G1 ds T1" "holds G1 (get_slot s1) (key D) ?k sl" "\<not> is_dir (get_slot s1 sl)"
    "unat (file_size (get_slot s1 sl)) = old_length (T p ?k)" "if T p ?k = None then ?n \<le> free_clusters s1 else s1 = s"
    by (rule opened_space [OF m t l g d room']) (rule that; assumption)
  obtain r s' where w: "fs_append_entry (get_slot s1 sl) (slot_loc D sl) data s1 = (r, s')" by fastforce
  have "r = 0"
  proof (rule append_entry_ok [OF o(3,2,4) user_name_split o(5) w])
    show "(unat (file_size (get_slot s1 sl)) + length data + 511) div 512
        \<le> free_clusters s1 + (unat (file_size (get_slot s1 sl)) + 511) div 512"
    proof (cases "T p ?k = None")
      case True
      with o(6,7) show ?thesis by (simp add: old_length_def)
    next
      case False
      with o(6,7) room show ?thesis by simp
    qed
  qed
  moreover have res: "fs_append path data s = Some (r, s')"
    using o(1,5) w by (simp add: fs_append_def not_dir_attr del: get_slot_simps)
  moreover obtain G' n where "same_cwd s s'" "models s' G' ds (T(p := (T p)(?k \<mapsto>
      File ((case T p ?k of Some (File old) \<Rightarrow> old | _ \<Rightarrow> []) @ take n data))))" "take n data = data"
    using fs_append_models [OF m t l g, of data] res \<open>r = 0\<close> d
    by (auto simp: dir_of_def split: option.splits node.splits)
  ultimately show ?thesis by auto
qed

lemma fs_mkdir_ok:
  assumes m: "models s G ds T" and t: "tree_resolve T (cwd_key s) path = Some (p, leaf)"
    and l: "leaf \<notin> {[], ''.'', ''..''}" and g: "good_name (split_name leaf)" and none: "T p (split_name leaf) = None"
    and r: "room s p 1"
  shows "\<exists>s' G' c. fs_mkdir path s = Some (0, s') \<and> same_cwd s s' \<and> T c = Map.empty \<and> c \<notin> insert 0 ds \<and>
    models s' G' (insert c ds) (tree_mkdir T p (split_name leaf) c)"
proof -
  obtain ret s' where run: "fs_mkdir path s = Some (ret, s')" "same_cwd s s'" and res: "ret = 0 \<or> ret = -1"
    "ret = 0 \<Longrightarrow> \<exists>G' c. T c = Map.empty \<and> c \<notin> insert 0 ds \<and> models s' G' (insert c ds) (tree_mkdir T p (split_name leaf) c)"
    using fs_mkdir_models [OF m t l g] none by auto
  have "ret = 0"
    using m
  proof (cases rule: entry_cases [where path = path])
    case (missing D leaf')
    with t have eq: "leaf' = leaf" "key D = p" by simp_all
    note v = modelsD(1) [OF m]
    note vd = volD [OF v] and ok = valid_dir_ok [OF v missing(3)]
    obtain c dk where al: "fat_alloc_cluster (fs_disk s) = (c, dk)" by fastforce
    have free: "0 < free_clusters s" using r by (auto simp: room_def split: if_splits)
    then have c0: "c \<noteq> 0" using free_set_alloc(1) [OF al] by (auto simp: free_clusters_card)
    define s2 where "s2 = mkdir_cluster D c dk s"
    note mc = mkdir_cluster_props [OF vd(1) al c0, of D, folded s2_def] and sa = store_alloc [OF vd(1) al c0]
    have "clusters (G(c \<mapsto> [c])) = insert c (clusters G)" using clusters_upd [of G c "[c]"] sa(4) by simp
    then have "free_set (fs_disk s2) = free_set (fs_disk s) - {c}" using free_set_store [OF vd(1)] free_set_store [OF mc(2)] by auto
    then have card: "free_clusters s \<le> Suc (free_clusters s2)" by (simp add: free_clusters_card card_Diff_singleton_if) arith
    have root: "root_used s2 = root_used s" by (subst mc(1)) (simp add: root_used_def fs_debug_stats_def del: upt_rec_numeral)
    have ok2: "dir_ok (G(c \<mapsto> [c])) D" using ok by (auto simp: dir_ok_def)
    have "if is_root D then root_used s2 < 128 else 0 < free_clusters s2"
      using r card root eq(2) key_0 [OF vd(1) ok] by (auto simp: room_def split: if_splits)
    from find_free_room [OF mc(2) ok2 this] obtain loc s3 where s3: "dir_find_free s2 D = Some (Some loc, s3)" by blast
    have sc: "dir_scan s D (fst (split_name leaf)) (snd (split_name leaf)) = Some None" "resolve_parent s path = Some (Inr (D, leaf))"
      using missing eq by simp_all
    from fs_mkdir_step [OF sc(2) l sc(1) al c0, folded s2_def] s3 run
    show ?thesis by simp
  qed (use t none in simp_all)
  with run res(2) show ?thesis by auto
qed

end
