(* ===== verification/FsSpec.thy ===== *)
theory FsSpec
  imports Space
begin

text \<open>
  The contract of the file system: what each public operation of \<open>kernel/fs.c\<close> does to the tree of
  files and directories that a consistent volume shows. The clusters, entries and sectors behind the
  tree no longer appear.
\<close>

section \<open>Names and space\<close>

definition leaf_ok :: "string \<Rightarrow> bool" where
  "leaf_ok leaf \<longleftrightarrow> leaf \<noteq> [] \<and> good_name (split_name leaf)"

definition dir_leaf_ok :: "string \<Rightarrow> bool" where
  "dir_leaf_ok leaf \<longleftrightarrow> leaf_ok leaf \<and> leaf \<noteq> ''.'' \<and> leaf \<noteq> ''..''"

definition old_bytes :: "node option \<Rightarrow> u8 list" where
  "old_bytes v = (case v of Some (File bs) \<Rightarrow> bs | _ \<Rightarrow> [])"

text \<open>Enough space for \<open>n\<close> bytes in place of the content of \<open>v\<close>, or after it.\<close>

definition write_fits :: "fs \<Rightarrow> u16 \<Rightarrow> node option \<Rightarrow> nat \<Rightarrow> bool" where
  "write_fits s p v n \<longleftrightarrow> (if v = None then room s p ((n + 511) div 512)
     else (n + 511) div 512 \<le> free_clusters s + (length (old_bytes v) + 511) div 512)"

definition append_fits :: "fs \<Rightarrow> u16 \<Rightarrow> node option \<Rightarrow> nat \<Rightarrow> bool" where
  "append_fits s p v n \<longleftrightarrow> (if v = None then room s p ((n + 511) div 512)
     else (length (old_bytes v) + n + 511) div 512 \<le> free_clusters s + (length (old_bytes v) + 511) div 512)"

lemma old_length_bytes: "old_length v = length (old_bytes v)"
  by (simp add: old_length_def old_bytes_def split: option.split node.split)

lemma not_dir_file: "dir_of v = None \<Longrightarrow> v \<noteq> None \<Longrightarrow> v = Some (File (old_bytes v))"
  by (cases v) (auto simp: dir_of_def old_bytes_def split: node.splits)

lemma represents_obtain:
  assumes "represents s T"
  obtains G ds where "models s G ds T"
  using assms by (auto simp: represents_models)

lemma representsI: "models s G ds T \<Longrightarrow> represents s T"
  by (auto simp: represents_models)

section \<open>Writing, appending, creating\<close>

lemma write_tree:
  assumes R: "represents s T" and t: "tree_resolve T (cwd_key s) path = Some (p, leaf)" and l: "leaf_ok leaf"
    and n: "length data \<le> 0xFFFFFE00"
  shows "\<exists>r s'. fs_write path data s = Some (r, s') \<and> same_cwd s s' \<and>
    (if dir_of (T p (split_name leaf)) \<noteq> None then r = -1 \<and> s' = s
     else if write_fits s p (T p (split_name leaf)) (length data)
       then r = 0 \<and> represents s' (T(p := (T p)(split_name leaf \<mapsto> File data)))
     else if T p (split_name leaf) \<noteq> None then r = -1 \<and> represents s' (T(p := (T p)(split_name leaf \<mapsto> File [])))
     else r = 0 \<and> represents s' (T(p := (T p)(split_name leaf \<mapsto> File data)))
       \<or> r = -1 \<and> represents s' (T(p := (T p)(split_name leaf \<mapsto> File []))) \<or> r = -1 \<and> s' = s)"
proof -
  let ?k = "split_name leaf"
  obtain G ds where m: "models s G ds T" by (rule represents_obtain [OF R])
  have g: "leaf \<noteq> []" "good_name ?k" using l by (simp_all add: leaf_ok_def)
  note gen = fs_write_models [OF m t g n]
  consider "dir_of (T p ?k) \<noteq> None" | "dir_of (T p ?k) = None" "write_fits s p (T p ?k) (length data)"
    | "dir_of (T p ?k) = None" "\<not> write_fits s p (T p ?k) (length data)" "T p ?k \<noteq> None"
    | "dir_of (T p ?k) = None" "\<not> write_fits s p (T p ?k) (length data)" "T p ?k = None" by blast
  then show ?thesis
  proof cases
    case 1
    with gen show ?thesis by simp
  next
    case 2
    then have "if T p ?k = None then room s p ((length data + 511) div 512)
        else (length data + 511) div 512 \<le> free_clusters s + (old_length (T p ?k) + 511) div 512"
      by (simp add: write_fits_def old_length_bytes)
    from fs_write_ok [OF m t g n 2(1) this] 2 show ?thesis by (auto intro: representsI)
  next
    case 3
    note f = not_dir_file [OF 3(1,3)]
    have "\<not> (length data + 511) div 512 \<le> free_clusters s + (length (old_bytes (T p ?k)) + 511) div 512"
      using 3(2,3) by (simp add: write_fits_def)
    from fs_write_full [OF m t g n f this] 3 show ?thesis by (auto intro: representsI)
  next
    case 4
    then show ?thesis using gen by (auto intro: representsI)
  qed
qed

lemma append_tree:
  assumes R: "represents s T" and t: "tree_resolve T (cwd_key s) path = Some (p, leaf)" and l: "leaf_ok leaf"
  shows "\<exists>r s'. fs_append path data s = Some (r, s') \<and> same_cwd s s' \<and>
    (if dir_of (T p (split_name leaf)) \<noteq> None then r = -1 \<and> s' = s
     else if append_fits s p (T p (split_name leaf)) (length data)
       then r = 0 \<and> represents s' (T(p := (T p)(split_name leaf \<mapsto> File (old_bytes (T p (split_name leaf)) @ data))))
     else r = -1 \<and> s' = s \<or> (\<exists>n. (r = 0 \<and> take n data = data \<or> r = -1) \<and>
       represents s' (T(p := (T p)(split_name leaf \<mapsto> File (old_bytes (T p (split_name leaf)) @ take n data))))))"
proof -
  let ?k = "split_name leaf"
  obtain G ds where m: "models s G ds T" by (rule represents_obtain [OF R])
  have g: "leaf \<noteq> []" "good_name ?k" using l by (simp_all add: leaf_ok_def)
  note gen = fs_append_models [OF m t g, of data]
  consider "dir_of (T p ?k) \<noteq> None" | "dir_of (T p ?k) = None" "append_fits s p (T p ?k) (length data)"
    | "dir_of (T p ?k) = None" "\<not> append_fits s p (T p ?k) (length data)" by blast
  then show ?thesis
  proof cases
    case 1
    then obtain c where "T p ?k = Some (Dir c)" by (auto simp: dir_of_def split: option.splits node.splits)
    with gen 1 show ?thesis by simp
  next
    case 2
    then have "if T p ?k = None then room s p ((length data + 511) div 512)
        else (old_length (T p ?k) + length data + 511) div 512 \<le> free_clusters s + (old_length (T p ?k) + 511) div 512"
      by (simp add: append_fits_def old_length_bytes)
    from fs_append_ok [OF m t g 2(1) this] 2 show ?thesis unfolding old_bytes_def by (auto intro: representsI)
  next
    case 3
    then consider "T p ?k = None" | old where "T p ?k = Some (File old)" using not_dir_file by blast
    then show ?thesis
    proof cases
      case 1
      with gen 3 show ?thesis by (auto simp: old_bytes_def dir_of_def intro: representsI)
    next
      case 2
      with gen 3 show ?thesis by (auto simp: old_bytes_def dir_of_def intro: representsI)
    qed
  qed
qed

lemma create_tree:
  assumes R: "represents s T" and t: "tree_resolve T (cwd_key s) path = Some (p, leaf)" and l: "leaf_ok leaf"
  shows "\<exists>r s'. fs_create path s = Some (r, s') \<and> same_cwd s s' \<and>
    (if T p (split_name leaf) \<noteq> None then r = -1 \<and> s' = s
     else if room s p 0 then r = 0 \<and> represents s' (T(p := (T p)(split_name leaf \<mapsto> File [])))
     else r = 0 \<and> represents s' (T(p := (T p)(split_name leaf \<mapsto> File []))) \<or> r = -1 \<and> s' = s)"
proof -
  let ?k = "split_name leaf"
  obtain G ds where m: "models s G ds T" by (rule represents_obtain [OF R])
  have g: "leaf \<noteq> []" "good_name ?k" using l by (simp_all add: leaf_ok_def)
  from resolve_parent_tree [OF modelsD [OF m], of path] t obtain D where
    D: "resolve_parent s path = Some (Inr (D, leaf))" "key D = p" "valid_dir ds D" by auto
  note gen = fs_create_models [OF m D(1,3) g]
  show ?thesis
  proof (cases "T p ?k = None")
    case True
    have "fs_create path s = Some (-1, s) \<Longrightarrow> \<not> room s p 0" using create_room [OF m D(1,3) g(1), of 0] True D(2) by auto
    with gen(2) True D(2) show ?thesis by (auto intro: representsI)
  next
    case False
    with gen(1) D(2) show ?thesis by simp
  qed
qed

section \<open>Reading\<close>

lemma read_tree:
  assumes "represents s T"
  shows "fs_read path max_size s = Some (case tree_find T (cwd_key s) path of
    Some (File bs) \<Rightarrow> Inr (take (unat max_size) bs) | _ \<Rightarrow> Inl FsFailed)"
  by (rule represents_obtain [OF assms], rule fs_read_models)

text \<open>A file that is replaced is found with its new content, every other name leads where it led.\<close>

lemma find_put:
  assumes f: "dir_of (T p k) = None" and r: "tree_resolve T c path = Some (q, leaf)"
  shows "tree_find (T(p := (T p)(k \<mapsto> File bs))) c path = (if (q, split_name leaf) = (p, k) then Some (File bs) else T q (split_name leaf))"
proof -
  have "dir_of ((T(p := (T p)(k \<mapsto> File bs))) d k') = dir_of (T d k')" for d k' using f by (simp add: dir_of_def)
  then have "tree_resolve (T(p := (T p)(k \<mapsto> File bs))) c path = tree_resolve T c path" by (rule tree_resolve_cong)
  with r show ?thesis by (simp add: tree_find_def)
qed

lemma read_back:
  assumes R: "represents s' (T(p := (T p)(split_name leaf \<mapsto> File bs)))" and cwd: "same_cwd s s'"
    and f: "dir_of (T p (split_name leaf)) = None" and t: "tree_resolve T (cwd_key s) path = Some (p, leaf)"
  shows "fs_read path n s' = Some (Inr (take (unat n) bs))"
  using read_tree [OF R, of path n] find_put [OF f t] same_cwd_key [OF cwd] by simp

lemma read_other:
  assumes R: "represents s T" "represents s' (T(p := (T p)(k \<mapsto> File bs)))" and cwd: "same_cwd s s'"
    and f: "dir_of (T p k) = None" and t: "tree_resolve T (cwd_key s) path = Some (q, leaf)" and ne: "(q, split_name leaf) \<noteq> (p, k)"
  shows "fs_read path n s' = fs_read path n s"
proof -
  have "tree_find T (cwd_key s) path = T q (split_name leaf)" using t by (simp add: tree_find_def)
  moreover have "tree_find (T(p := (T p)(k \<mapsto> File bs))) (cwd_key s') path = T q (split_name leaf)"
    using find_put [OF f t] ne same_cwd_key [OF cwd] by auto
  ultimately show ?thesis using read_tree [OF R(1), of path n] read_tree [OF R(2), of path n] by (simp only:)
qed

text \<open>What a write or append that returned 0 has done.\<close>

lemma write_done:
  assumes "represents s T" "tree_resolve T (cwd_key s) path = Some (p, leaf)" "leaf_ok leaf" "length data \<le> 0xFFFFFE00"
    and "fs_write path data s = Some (0, s')"
  shows "same_cwd s s'" "dir_of (T p (split_name leaf)) = None" "represents s' (T(p := (T p)(split_name leaf \<mapsto> File data)))"
  using write_tree [OF assms(1-4)] assms(5) by (auto split: if_splits)

lemma append_done:
  assumes "represents s T" "tree_resolve T (cwd_key s) path = Some (p, leaf)" "leaf_ok leaf"
    and "fs_append path data s = Some (0, s')"
  shows "same_cwd s s'" "dir_of (T p (split_name leaf)) = None"
    "represents s' (T(p := (T p)(split_name leaf \<mapsto> File (old_bytes (T p (split_name leaf)) @ data))))"
  using append_tree [OF assms(1-3), of data] assms(4) by (auto split: if_splits)

lemma resolve_put:
  assumes "dir_of (T p k) = None"
  shows "tree_resolve (T(p := (T p)(k \<mapsto> File bs))) c path = tree_resolve T c path"
  by (rule tree_resolve_cong) (use assms in \<open>simp add: dir_of_def\<close>)

lemma write_done_resolve:
  assumes "represents s T" "tree_resolve T (cwd_key s) path = Some (p, leaf)" "leaf_ok leaf" "length data \<le> 0xFFFFFE00"
    and "fs_write path data s = Some (0, s')"
  shows "tree_resolve (T(p := (T p)(split_name leaf \<mapsto> File data))) (cwd_key s') other = tree_resolve T (cwd_key s) other"
  using resolve_put [of T p "split_name leaf"] write_done(1,2) [OF assms] same_cwd_key by simp

section \<open>Paths and new directories\<close>

lemma dir_node_in:
  assumes m: "models s G ds T" and T: "T d k = Some (Dir q)"
  shows "q \<in> insert 0 ds"
proof -
  note v = modelsD(1) [OF m]
  from shows_treeD [OF modelsD(2) [OF m], of d k "Dir q"] T obtain sl where
    sl: "d \<in> insert 0 ds" "holds G (get_slot s) d k sl" "is_dir (get_slot s sl)" "first_cluster (get_slot s sl) = q"
    by (auto simp: node_of_def split: if_splits)
  show ?thesis
  proof (cases "dot_slot ds sl")
    case True
    then obtain b where b: "b \<in> ds" "sl = Sub_slot b 0 \<or> sl = Sub_slot b 1" by (cases sl) auto
    have dk: "dots_ok G ds (get_slot s) b" by (rule tree_okD(5) [OF volD(5) [OF v] b(1)])
    then obtain sl' where "owns G ds (get_slot s) (first_cluster (get_slot s (Sub_slot b 1))) sl'"
      unfolding dots_ok_def by blast
    then have "first_cluster (get_slot s (Sub_slot b 1)) \<in> insert 0 ds" unfolding owns_def by blast
    moreover have "first_cluster (get_slot s (Sub_slot b 0)) = b" using dk unfolding dots_ok_def by blast
    ultimately show ?thesis using b sl(4) by (elim disjE) (simp_all del: get_slot_simps)
  next
    case False
    then have "owns G ds (get_slot s) d sl" using sl(1,2) by (simp add: owns_def holds_def)
    with tree_okD(2) [OF volD(5) [OF v] this] sl(3,4) show ?thesis by (simp add: entry_ok_def)
  qed
qed

text \<open>A path that led somewhere leads there after a directory has been added.\<close>

lemma walk_mkdir:
  assumes m: "models s G ds T" and c: "c \<notin> insert 0 ds" and k: "user_name k" "T p k = None"
  shows "tree_walk T path d = Some e \<Longrightarrow> d \<in> insert 0 ds \<Longrightarrow> tree_walk (tree_mkdir T p k c) path d = Some e"
proof (induction "length path" arbitrary: path d rule: less_induct)
  case less
  let ?T' = "tree_mkdir T p k c"
  have same: "?T' d k' = T d k'" if "(d, k') \<noteq> (p, k)" for k'
    using that less.prems(2) c by (auto simp: tree_mkdir_def)
  show ?case
  proof (cases "path = []")
    case True
    with less.prems(1) show ?thesis by (simp add: tree_walk.simps)
  next
    case False
    obtain comp' rest where n: "next_component path = (comp', rest)" by fastforce
    note IH = less.hyps [OF next_component_shorter [OF False n]]
    consider "comp' = [] \<or> comp' = ''.''" | "comp' \<noteq> []" "comp' \<noteq> ''.''" "comp' = ''..''"
      | "comp' \<noteq> []" "comp' \<noteq> ''.''" "comp' \<noteq> ''..''" by blast
    then show ?thesis
    proof cases
      case 1
      with IH less.prems False n show ?thesis by (subst (asm) tree_walk.simps, subst tree_walk.simps) simp
    next
      case 2
      let ?up = "case dir_of (T d (DOTDOT_NAME, EMPTY_EXT)) of None \<Rightarrow> d | Some q \<Rightarrow> q"
      have "?up \<in> insert 0 ds"
        using dir_node_in [OF m, of d "(DOTDOT_NAME, EMPTY_EXT)"] less.prems(2)
        by (auto simp: dir_of_def split: option.split node.split)
      moreover have "tree_walk T rest ?up = Some e" using less.prems(1) 2 False n by (subst (asm) tree_walk.simps) simp
      moreover have "?T' d (DOTDOT_NAME, EMPTY_EXT) = T d (DOTDOT_NAME, EMPTY_EXT)"
        using same [of "(DOTDOT_NAME, EMPTY_EXT)"] k(1) by (cases k) (auto simp: user_name_def)
      ultimately show ?thesis using IH 2 False n by (subst tree_walk.simps) simp
    next
      case 3
      let ?k = "split_name comp'"
      obtain q where q: "dir_of (T d ?k) = Some q" "tree_walk T rest q = Some e"
        using less.prems(1) 3 False n by (subst (asm) tree_walk.simps) (auto split: option.splits)
      then have "T d ?k = Some (Dir q)" by (auto simp: dir_of_def split: option.splits node.splits)
      with dir_node_in [OF m] k(2) have "q \<in> insert 0 ds" "(d, ?k) \<noteq> (p, k)" by auto
      with q IH same [of ?k] 3 False n show ?thesis by (subst tree_walk.simps) simp
    qed
  qed
qed

lemma resolve_mkdir:
  assumes m: "models s G ds T" and c: "c \<notin> insert 0 ds" and k: "user_name k" "T p k = None"
    and r: "tree_resolve T (cwd_key s) path = Some x"
  shows "tree_resolve (tree_mkdir T p k c) (cwd_key s) path = Some x"
proof -
  have cwd: "cwd_key s \<in> insert 0 ds" using valid_dir_key [OF valid_cwd [OF modelsD(1) [OF m]]] by (simp add: cwd_key_def)
  have "tree_walk_path (tree_mkdir T p k c) q (cwd_key s) = Some e" if "tree_walk_path T q (cwd_key s) = Some e" for q e
    using that walk_mkdir [OF m c k _ cwd] walk_mkdir [OF m c k, of _ 0] by (auto simp: tree_walk_path_def split: list.splits if_splits)
  with r show ?thesis by (auto simp: tree_resolve_def Let_def split: if_splits option.splits)
qed

section \<open>Making and removing directories\<close>

lemma mkdir_tree:
  assumes R: "represents s T" and t: "tree_resolve T (cwd_key s) path = Some (p, leaf)" and l: "dir_leaf_ok leaf"
  shows "\<exists>r s'. fs_mkdir path s = Some (r, s') \<and> same_cwd s s' \<and>
    (if T p (split_name leaf) \<noteq> None then r = -1 \<and> s' = s
     else (r = 0 \<and> (\<exists>c. c \<noteq> 0 \<and> T c = Map.empty \<and> represents s' (tree_mkdir T p (split_name leaf) c)))
       \<or> r = -1 \<and> \<not> room s p 1 \<and> represents s' T)"
proof -
  let ?k = "split_name leaf"
  obtain G ds where m: "models s G ds T" by (rule represents_obtain [OF R])
  have g: "leaf \<notin> {[], ''.'', ''..''}" "good_name ?k" using l by (simp_all add: dir_leaf_ok_def leaf_ok_def)
  note gen = fs_mkdir_models [OF m t g]
  show ?thesis
  proof (cases "T p ?k = None")
    case True
    with gen fs_mkdir_ok [OF m t g True] show ?thesis by (cases "room s p 1") (auto dest!: representsI)
  next
    case False
    with gen show ?thesis by auto
  qed
qed

lemma mkdir_rmdir:
  assumes R: "represents s T" and t: "tree_resolve T (cwd_key s) path = Some (p, leaf)" and l: "dir_leaf_ok leaf"
    and mk: "fs_mkdir path s = Some (0, s1)"
  shows "\<exists>s2. fs_rmdir path s1 = Some (0, s2) \<and> represents s2 T \<and> same_cwd s s2"
proof -
  let ?k = "split_name leaf"
  obtain G ds where m: "models s G ds T" by (rule represents_obtain [OF R])
  have g: "leaf \<notin> {[], ''.'', ''..''}" "good_name ?k" using l by (simp_all add: dir_leaf_ok_def leaf_ok_def)
  from fs_mkdir_models [OF m t g] mk obtain G1 c where none: "T p ?k = None" and cwd: "same_cwd s s1"
    and c: "T c = Map.empty" "c \<notin> insert 0 ds" and m1: "models s1 G1 (insert c ds) (tree_mkdir T p ?k c)"
    by (auto split: if_splits)
  let ?T = "tree_mkdir T p ?k c"
  have key: "cwd_key s1 = cwd_key s" by (rule same_cwd_key [OF cwd])
  have in_ds: "cwd_key s \<in> insert 0 ds" using valid_dir_key [OF valid_cwd [OF modelsD(1) [OF m]]] by (simp add: cwd_key_def)
  have pds: "p \<in> insert 0 ds" using resolve_parent_tree [OF modelsD [OF m], of path] t valid_dir_key by auto
  have r: "tree_resolve ?T (cwd_key s1) path = Some (p, leaf)"
    unfolding key by (rule resolve_mkdir [OF m c(2) user_name_split none t])
  have pc: "p \<noteq> c" using pds c(2) by auto
  have d: "dir_of (?T p ?k) = Some c" using pc by (simp add: tree_mkdir_def dir_of_def)
  have rem: "removable ?T (cwd_key s1) c" using c(2) in_ds by (auto simp: removable_def tree_mkdir_def key split: if_splits)
  have "?T(p := (?T p)(?k := None), c := Map.empty) = T"
    using pc none c(1) by (auto simp: tree_mkdir_def fun_eq_iff)
  with fs_rmdir_models [OF m1, of path] r d g(1) rem cwd show ?thesis
    by (auto simp: same_cwd_def intro: representsI)
qed

lemma represents_chdir:
  assumes "represents s T"
  shows "\<exists>r s'. fs_chdir path s = Some (r, s') \<and> (case tree_walk_path T path (cwd_key s) of
      None \<Rightarrow> r = -1 \<and> s' = s
    | Some q \<Rightarrow> r = 0 \<and> represents s' T \<and> cwd_key s' = q)"
proof -
  obtain G ds where m: "models s G ds T" by (rule represents_obtain [OF assms])
  from fs_chdir_models [OF m, of path] show ?thesis by (auto split: option.splits intro: representsI)
qed

section \<open>Renaming\<close>

lemma key_inj: "key D = key D' \<Longrightarrow> key D \<noteq> 0 \<Longrightarrow> D = D'"
  by (cases D; cases D') (auto simp: key_def split: if_splits)

lemma rename_tree:
  assumes R: "represents s T" and t: "tree_resolve T (cwd_key s) old = Some (p, leaf)" "tree_resolve T (cwd_key s) new = Some (q, leaf')"
    and l: "leaf_ok leaf'"
  shows "\<exists>r s'. fs_rename old new s = Some (r, s') \<and> same_cwd s s' \<and>
    (case T p (split_name leaf) of
       None \<Rightarrow> r = -1 \<and> s' = s
     | Some v \<Rightarrow>
         if p \<noteq> q \<or> T q (split_name leaf') \<noteq> None then r = -1 \<and> s' = s
         else r = 0 \<and> represents s' (T(p := (T p)(split_name leaf := None, split_name leaf' \<mapsto> v)))
           \<or> r = -1 \<and> s' = s \<and> p = 0 \<and> CHR ''/'' \<in> set old \<union> set new)"
proof -
  let ?k = "split_name leaf" and ?k' = "split_name leaf'"
  obtain G ds where m: "models s G ds T" by (rule represents_obtain [OF R])
  have g: "leaf' \<noteq> []" "good_name ?k'" using l by (simp_all add: leaf_ok_def)
  obtain r s' where run: "fs_rename old new s = Some (r, s')" "same_cwd s s'" and res: "r = -1 \<and> s' = s \<or> r = 0 \<and>
      (\<exists>leaf v. tree_resolve T (cwd_key s) old = Some (q, leaf) \<and> T q (split_name leaf) = Some v \<and> T q ?k' = None \<and>
       models s' G ds (T(q := (T q)(split_name leaf := None, ?k' \<mapsto> v))))"
    using fs_rename_outcome [OF m t(2) g(2), of old] by blast
  show ?thesis
  proof (cases "T p ?k = None \<or> p \<noteq> q \<or> T q ?k' \<noteq> None")
    case True
    then have "r = -1 \<and> s' = s" using res t(1) by auto
    with True run show ?thesis by (auto split: option.split)
  next
    case False
    then obtain v where v: "T p ?k = Some v" "p = q" "T p ?k' = None" by blast
    have "r = 0" if same: "p \<noteq> 0 \<or> CHR ''/'' \<notin> set old \<union> set new"
    proof -
      obtain D where D: "resolve_parent s old = Some (Inr (D, leaf))" "key D = p" "valid_dir ds D"
        using resolve_parent_tree [OF modelsD [OF m], of old] t(1) by auto
      obtain D' where D': "resolve_parent s new = Some (Inr (D', leaf'))" "key D' = p"
        using resolve_parent_tree [OF modelsD [OF m], of new] t(2) v(2) by auto
      have "D' = D"
      proof (cases "p = 0")
        case True
        have "old \<noteq> []" "new \<noteq> []" using t by (auto simp: tree_resolve_def)
        with True same D(1) D'(1) show ?thesis by (simp add: resolve_parent_plain)
      next
        case False
        with key_inj [of D' D] D(2) D'(2) show ?thesis by simp
      qed
      from fs_rename_models [OF m D(1) D'(1) [unfolded this] D(3) g] run v D(2) show ?thesis by simp
    qed
    with res have "r = 0 \<and> (\<exists>leaf v. tree_resolve T (cwd_key s) old = Some (q, leaf) \<and> T q (split_name leaf) = Some v \<and>
        models s' G ds (T(q := (T q)(split_name leaf := None, ?k' \<mapsto> v))))
      \<or> r = -1 \<and> s' = s \<and> p = 0 \<and> CHR ''/'' \<in> set old \<union> set new" by auto
    with run v t(1) show ?thesis by (auto intro: representsI)
  qed
qed

text \<open>After \<open>..\<close> to the root the reference to the current directory keeps the cluster it came from, and a
  path from the root has another reference to the same directory.\<close>

lemma chdir_up_root:
  assumes R: "represents s T" and cwd: "\<not> cwd_is_root s" and up: "T (cwd_cluster s) (DOTDOT_NAME, EMPTY_EXT) = Some (Dir 0)"
  shows "\<exists>b. fs_chdir ''..'' s = Some (0, s\<lparr>cwd_is_root := True, cwd_path := b\<rparr>)"
proof -
  obtain G ds where m: "models s G ds T" by (rule represents_obtain [OF R])
  have D: "valid_dir ds (cwd_dir s)" by (rule valid_cwd [OF modelsD(1) [OF m]])
  have k: "key (cwd_dir s) = cwd_cluster s" "cwd_dir s = \<lparr>is_root = False, dir_cluster = cwd_cluster s\<rparr>"
    using cwd by (simp_all add: key_def cwd_dir_def)
  from lookup_tree [OF modelsD [OF m] D dot_dot_ok] up k(1) obtain sl where
    sl: "dir_scan s (cwd_dir s) DOTDOT_NAME EMPTY_EXT = Some (Some (get_slot s sl, slot_loc (cwd_dir s) sl))"
      "node_of (fs_disk s) G (get_slot s sl) = Dir 0" by auto
  then have "first_cluster (get_slot s sl) = 0" by (auto simp: node_of_def split: if_splits)
  then have "walk_up s (cwd_dir s) = Some \<lparr>is_root = True, dir_cluster = cwd_cluster s\<rparr>"
    using sl(1) k(2) by (simp add: walk_up_def del: get_slot_simps)
  moreover have "next_component ''..'' = (''..'', [])" by code_simp
  ultimately have "walk_path s ''..'' (cwd_dir s) (Some b) n = Some (Inr (\<lparr>is_root = True, dir_cluster = cwd_cluster s\<rparr>, Some (path_trim_last b)))" for b n
    by (simp add: walk_path_def walk_from.simps)
  then show ?thesis by (auto simp: fs_chdir_def)
qed

lemma rename_stale:
  assumes R: "represents s T" and cwd: "cwd_is_root s" "cwd_cluster s \<noteq> 0"
    and old: "old \<noteq> []" "CHR ''/'' \<notin> set old" and new: "new \<noteq> []" "CHR ''/'' \<notin> set new"
  shows "fs_rename old (CHR ''/'' # new) s = Some (-1, s)"
proof -
  obtain G ds where m: "models s G ds T" by (rule represents_obtain [OF R])
  have r1: "resolve_parent s old = Some (Inr (cwd_dir s, take 12 old))" by (rule resolve_parent_plain [OF old])
  have "walk_from s [] \<lparr>is_root = True, dir_cluster = 0\<rparr> None 0 = Some (Inr (\<lparr>is_root = True, dir_cluster = 0\<rparr>, None))"
    by (simp add: walk_from.simps)
  then have r2: "resolve_parent s (CHR ''/'' # new) = Some (Inr (\<lparr>is_root = True, dir_cluster = 0\<rparr>, take 12 new))"
    using new by (simp add: resolve_parent_def last_slash_from_none walk_path_def str_copy_n_take)
  from m show ?thesis
  proof (cases rule: entry_cases [where path = old])
    case (found D leaf sl)
    with r1 r2 cwd new show ?thesis by (auto simp: fs_rename_def split_beta cwd_dir_def)
  qed (auto simp: fs_rename_def split_beta)
qed

end
