(* ===== verification/Listing.thy ===== *)
theory Listing
  imports FsSpec
begin

text \<open>
  Listing the current directory (\<open>fs_list\<close> of \<open>kernel/fs.c\<close>): the output has one line for every name
  that the tree has there, besides the dot entries.
\<close>

section \<open>The slots of a directory in order\<close>

definition slot_list :: "dir_ref \<Rightarrow> u16 list \<Rightarrow> slot list" where
  "slot_list D xs = (if is_root D then map Root_slot [0..<128] else concat (map (\<lambda>c. map (Sub_slot c) [0..<16]) xs))"

lemma dir_slots_list: "dir_slots s D xs = map (\<lambda>sl. (get_slot s sl, slot_loc D sl)) (slot_list D xs)"
  by (simp add: dir_slots_def root_slots_def cluster_slots_def slot_list_def slot_loc_def map_concat comp_def
      cluster_slots_def [abs_def] del: upt_rec_numeral)

lemma distinct_slot_list: "distinct xs \<Longrightarrow> distinct (slot_list D xs)"
proof -
  assume "distinct xs"
  then have "distinct (concat (map (\<lambda>c. map (Sub_slot c) [0..<16]) xs))"
    by (induction xs) (auto simp: distinct_map inj_on_def simp del: upt_rec_numeral)
  then show ?thesis by (simp add: slot_list_def distinct_map inj_on_def del: upt_rec_numeral)
qed

lemma set_slot_list:
  assumes "store d G" "dir_ok G D"
  shows "sl \<in> set (slot_list D (dir_clusters G D)) \<longleftrightarrow> in_dir G (key D) sl"
proof (cases "is_root D")
  case True
  then show ?thesis by (cases sl) (auto simp: slot_list_def key_def simp del: upt_rec_numeral)
next
  case False
  then obtain xs where G: "G (dir_cluster D) = Some xs" using assms(2) by (auto simp: dir_ok_def)
  then have "dir_cluster D \<noteq> 0" using store_not_0 [OF assms(1)] by auto
  with False G show ?thesis by (cases sl) (force simp: slot_list_def key_def dir_clusters_def simp del: upt_rec_numeral)+
qed

lemma distinct_dir_clusters: "store d G \<Longrightarrow> dir_ok G D \<Longrightarrow> distinct (dir_clusters G D)"
  by (auto simp: dir_clusters_def dir_ok_def dest: storeD(7))

section \<open>The lines\<close>

definition entry_line :: "dirent \<Rightarrow> string" where
  "entry_line e = ''  '' @ dirent_to_display e @
     (if is_dir e then ''  <DIR>'' @ [CHR 0x0A] else ''  ('' @ hex32_string (file_size e) @ '' bytes)'' @ [CHR 0x0A])"

lemma fs_list_all: "iter_yields s it ls \<Longrightarrow> fs_list_from s it any out =
    (let es = filter (\<lambda>e. \<not> only_dots e) (map fst ls) in Some (any \<or> es \<noteq> [], out @ concat (map entry_line es)))"
proof (induction arbitrary: any out rule: iter_yields.induct)
  case (stop it it')
  then show ?case by (subst fs_list_from.simps) simp
next
  case (step it x it' ls)
  obtain e l where x: "x = (e, l)" by (cases x)
  from step x show ?case
    by (subst fs_list_from.simps) (simp add: only_dots_def Let_def entry_line_def [of e] is_dir_def)
qed

text \<open>The line for a name of the tree.\<close>

definition list_name :: "fname \<Rightarrow> string" where
  "list_name k = dirent_to_display (new_dirent (fst k) (snd k) 0 0)"

definition list_line :: "tree \<Rightarrow> u16 \<Rightarrow> fname \<Rightarrow> string" where
  "list_line T p k = ''  '' @ list_name k @
     (case T p k of
        Some (File bs) \<Rightarrow> ''  ('' @ hex32_string (of_nat (length bs)) @ '' bytes)'' @ [CHR 0x0A]
      | _ \<Rightarrow> ''  <DIR>'' @ [CHR 0x0A])"

lemma entry_line_tree:
  assumes "store d G" "entry_ok G ds e" "T p (ename e) = Some (node_of d G e)"
  shows "entry_line e = list_line T p (ename e)"
proof -
  have "dirent_to_display e = list_name (ename e)" by (simp add: list_name_def dirent_to_display_def new_dirent_def ename_def)
  moreover have "length (file_bytes d G e) = unat (file_size e)" if "\<not> is_dir e" by (rule length_file_bytes [OF assms(1,2) that])
  ultimately show ?thesis using assms(3) by (simp add: entry_line_def list_line_def node_of_def)
qed

text \<open>The names of a directory, besides the dot entries.\<close>

definition listed :: "tree \<Rightarrow> u16 \<Rightarrow> fname set" where
  "listed T p = {k \<in> dom (T p). fst k \<noteq> DOT_NAME \<and> fst k \<noteq> DOTDOT_NAME}"

text \<open>The slots that are listed, in the order of the directory.\<close>

definition listed_slots :: "fs \<Rightarrow> chains \<Rightarrow> slot list" where
  "listed_slots s G = filter (\<lambda>sl. \<not> only_dots (get_slot s sl)) (slot_list (cwd_dir s) (dir_clusters G (cwd_dir s)))"

lemma listed_slot:
  assumes m: "models s G ds T" and sl: "sl \<in> set (listed_slots s G)"
  shows "holds G (get_slot s) (cwd_key s) (ename (get_slot s sl)) sl" "ename (get_slot s sl) \<in> listed T (cwd_key s)"
    "entry_line (get_slot s sl) = list_line T (cwd_key s) (ename (get_slot s sl))"
proof -
  let ?e = "get_slot s sl"
  note v = modelsD(1) [OF m]
  note vd = volD [OF v]
  have k: "cwd_key s \<in> insert 0 ds" using valid_dir_key [OF valid_cwd [OF v]] by (simp add: cwd_key_def)
  have i: "in_dir G (cwd_key s) sl" "\<not> only_dots ?e"
    using sl set_slot_list [OF vd(1) valid_dir_ok [OF v valid_cwd [OF v]]] by (auto simp: listed_slots_def cwd_key_def)
  then show h: "holds G (get_slot s) (cwd_key s) (ename ?e) sl" by (simp add: holds_def only_dots_def)
  have n: "fst (ename ?e) \<noteq> DOT_NAME" "fst (ename ?e) \<noteq> DOTDOT_NAME"
    using i(2) by (auto simp: only_dots_def ename_def fields_eq_def)
  have ok: "entry_ok G ds ?e" by (rule tree_okD(2) [OF vd(5) holds_owns [OF vd(5) h k n]])
  have T: "T (cwd_key s) (ename ?e) = Some (node_of (fs_disk s) G ?e)"
    using modelsD(2) [OF m] h k unfolding shows_tree_def by blast
  then show "ename ?e \<in> listed T (cwd_key s)" using n by (auto simp: listed_def)
  show "entry_line ?e = list_line T (cwd_key s) (ename ?e)"
    using entry_line_tree [OF vd(1) ok, of T "cwd_key s"] T by simp
qed

lemma listed_slot_of:
  assumes m: "models s G ds T" and n: "n \<in> listed T (cwd_key s)"
  shows "\<exists>sl \<in> set (listed_slots s G). ename (get_slot s sl) = n"
proof -
  note v = modelsD(1) [OF m]
  note vd = volD [OF v]
  have n: "n \<in> dom (T (cwd_key s))" "fst n \<noteq> DOT_NAME" "fst n \<noteq> DOTDOT_NAME" using n by (simp_all add: listed_def)
  then obtain x where h: "holds G (get_slot s) (cwd_key s) n x" using modelsD(2) [OF m] unfolding shows_tree_def by blast
  then have x: "in_dir G (cwd_key s) x" "\<not> unused (get_slot s x)" "ename (get_slot s x) = n" by (simp_all add: holds_def)
  have "wf_dirent (get_slot s x)" by (rule wf_get_slot [OF vd(2) in_dir_slot_ok [OF vd(1) x(1)]])
  with x n(2,3) have "\<not> only_dots (get_slot s x)" by (auto simp: only_dots_def ename_def fields_eq_full wf_dirent_def)
  with x set_slot_list [OF vd(1) valid_dir_ok [OF v valid_cwd [OF v]], of x] show ?thesis
    by (auto simp: listed_slots_def cwd_key_def)
qed

lemma distinct_listed:
  assumes m: "models s G ds T"
  shows "distinct (map (\<lambda>sl. ename (get_slot s sl)) (listed_slots s G))"
proof -
  note v = modelsD(1) [OF m]
  note vd = volD [OF v]
  have k: "cwd_key s \<in> insert 0 ds" using valid_dir_key [OF valid_cwd [OF v]] by (simp add: cwd_key_def)
  have "x = y" if "x \<in> set (listed_slots s G)" "y \<in> set (listed_slots s G)" "ename (get_slot s x) = ename (get_slot s y)" for x y
    using tree_okD(6) [OF vd(5) k listed_slot(1) [OF m that(1)]] listed_slot(1) [OF m that(2)] that(3) by simp
  then have "inj_on (\<lambda>sl. ename (get_slot s sl)) (set (listed_slots s G))" by (rule inj_onI)
  moreover have "distinct (listed_slots s G)"
    unfolding listed_slots_def
    by (intro distinct_filter distinct_slot_list distinct_dir_clusters [OF vd(1) valid_dir_ok [OF v valid_cwd [OF v]]])
  ultimately show ?thesis by (simp add: distinct_map)
qed

lemma fs_list_models:
  assumes m: "models s G ds T"
  shows "\<exists>ks. distinct ks \<and> set ks = listed T (cwd_key s) \<and>
    fs_list s = Some (if ks = [] then ''  (empty)'' @ [CHR 0x0A] else concat (map (list_line T (cwd_key s)) ks))"
proof -
  let ?sls = "listed_slots s G"
  let ?ks = "map (\<lambda>sl. ename (get_slot s sl)) ?sls"
  note v = modelsD(1) [OF m]
  have es: "filter (\<lambda>e. \<not> only_dots e) (map fst (dir_slots s (cwd_dir s) (dir_clusters G (cwd_dir s)))) = map (get_slot s) ?sls"
    by (simp add: dir_slots_list filter_map comp_def listed_slots_def)
  have "fs_list_from s (dir_iter_start (cwd_dir s)) False [] = Some (?sls \<noteq> [], concat (map entry_line (map (get_slot s) ?sls)))"
    using fs_list_all [OF iter_yields_dir [OF dir_chain_clusters [OF volD(1) [OF v] valid_dir_ok [OF v valid_cwd [OF v]]]], of False "[]"]
    unfolding es by (simp add: Let_def)
  moreover have "map entry_line (map (get_slot s) ?sls) = map (list_line T (cwd_key s)) ?ks"
    using listed_slot(3) [OF m] by simp
  moreover have "set ?ks = listed T (cwd_key s)"
  proof (rule set_eqI)
    show "n \<in> set ?ks \<longleftrightarrow> n \<in> listed T (cwd_key s)" for n
      unfolding set_map using listed_slot(2) [OF m] listed_slot_of [OF m, of n] by blast
  qed
  ultimately show ?thesis using distinct_listed [OF m] by (intro exI [of _ ?ks]) (simp add: fs_list_def del: map_map)
qed

end
