(* ===== verification/FsProps.thy ===== *)
theory FsProps
  imports FsRuns Listing
begin

text \<open>
  The properties of the file system, over the tree that a volume represents, and concrete volumes on
  which they apply: a freshly formatted one, and those after a first file or directory is made.
\<close>

section \<open>Concrete volumes\<close>

text \<open>The static variables at power on, with the disk \<open>d\<close>.\<close>

definition fs_power_on :: "disk \<Rightarrow> fs" where
  "fs_power_on d = \<lparr>fs_disk = d, fs_root = replicate FS_ROOT_ENTRIES (dirent_at zero_sector 0), cwd_is_root = True,
     cwd_cluster = 0, cwd_path = ''/''\<rparr>"

definition blank :: fs where
  "blank = fs_init (fs_power_on (\<lambda>lba. zero_sector))"

abbreviation no_files :: tree where
  "no_files \<equiv> \<lambda>p. Map.empty"

lemma blank_unformatted: "\<not> is_formatted (fs_disk (fs_power_on (\<lambda>lba. zero_sector)) 300)"
proof -
  have "\<not> is_formatted zero_sector" by code_simp
  then show ?thesis by (simp add: fs_power_on_def)
qed

lemma fs_power_on_wf: "root_wf (fs_power_on d)"
  by (simp add: fs_power_on_def root_wf_def wf_dirent_def dirent_at_def)

lemma blank_models: "models blank Map.empty {} no_files"
  unfolding blank_def by (rule fs_init_blank [OF fs_power_on_wf blank_unformatted])

lemma blank_represents: "represents blank no_files"
  using blank_models by (rule representsI)

lemma blank_cwd: "cwd_key blank = 0" "cwd_is_root blank" "cwd_cluster blank = 0"
  by (simp_all add: blank_def fs_init_def Let_def cwd_key_def cwd_dir_def key_def)

lemma all_free:
  assumes "models s Map.empty ds T"
  shows "free_clusters s = 15949"
proof -
  have "free_set (fs_disk s) = {x. data_cluster x}"
    using free_set_store [OF volD(1) [OF modelsD(1) [OF assms]]] by (simp add: clusters_def)
  also have "\<dots> = of_nat ` {2..<15951}"
  proof -
    have "x \<in> of_nat ` {2..<15951}" if "data_cluster x" for x
      by (rule image_eqI [of _ _ "unat x"]) (use that in \<open>auto simp: data_cluster_def\<close>)
    then show ?thesis by (auto simp: data_cluster_def unat_of_nat)
  qed
  finally have "card (free_set (fs_disk s)) = card ((of_nat :: nat \<Rightarrow> u16) ` {2..<15951})" by simp
  also have "\<dots> = 15949"
  proof -
    have "inj_on (of_nat :: nat \<Rightarrow> u16) {2..<15951}" by (auto simp: inj_on_def word_unat_eq_iff unat_of_nat)
    then show ?thesis by (simp add: card_image)
  qed
  finally show ?thesis by (simp add: free_clusters_card)
qed

lemma blank_free: "free_clusters blank = 15949"
  by (rule all_free [OF blank_models])

lemma blank_root_used: "root_used blank = 0"
proof -
  have "fs_root blank = blank_root (fs_root (fs_power_on (\<lambda>lba. zero_sector)))"
    by (simp add: blank_def fs_init_format [OF blank_unformatted])
  then have "unused (fs_root blank ! i)" if "i < 128" for i
    using that by (simp add: blank_root_def fs_power_on_def unused_def dirent_at_def del: replicate.simps)
  then have "filter (\<lambda>i. \<not> unused (fs_root blank ! i)) [0..<128] = []" by (simp add: filter_empty_conv del: upt_rec_numeral)
  then show ?thesis by (simp add: root_used_def fs_debug_stats_def del: upt_rec_numeral)
qed

lemma blank_room: "n \<le> 15949 \<Longrightarrow> room blank 0 n"
  by (simp add: room_def blank_free blank_root_used)

lemma names_ok: "leaf_ok ''A.TXT''" "leaf_ok ''B.TXT''" "dir_leaf_ok ''D''"
  by code_simp+

lemma plain_resolve: "CHR ''/'' \<notin> set path \<Longrightarrow> path \<noteq> [] \<Longrightarrow> tree_resolve T c path = Some (c, take 12 path)"
  by (simp add: tree_resolve_def last_slash_from_none)

abbreviation demo_tree :: tree where
  "demo_tree \<equiv> no_files(0 := [split_name ''A.TXT'' \<mapsto> File [65, 66, 67]])"

definition demo :: fs where
  "demo = snd (the (fs_write ''A.TXT'' [65, 66, 67] blank))"

lemma demo_write: "fs_write ''A.TXT'' [65, 66, 67] blank = Some (0, demo)" "represents demo demo_tree" "same_cwd blank demo"
proof -
  have "tree_resolve no_files (cwd_key blank) ''A.TXT'' = Some (0, ''A.TXT'')" by (simp add: plain_resolve blank_cwd)
  from write_tree [OF blank_represents this names_ok(1), of "[65, 66, 67]"] blank_room [of 1]
  obtain s where s: "fs_write ''A.TXT'' [65, 66, 67] blank = Some (0, s)" "represents s demo_tree" "same_cwd blank s"
    by (auto simp: dir_of_def write_fits_def)
  then have "demo = s" by (simp add: demo_def)
  with s show "fs_write ''A.TXT'' [65, 66, 67] blank = Some (0, demo)" "represents demo demo_tree" "same_cwd blank demo" by simp_all
qed

lemma demo_resolve: "CHR ''/'' \<notin> set path \<Longrightarrow> path \<noteq> [] \<Longrightarrow> tree_resolve T (cwd_key demo) path = Some (0, take 12 path)"
  using same_cwd_key [OF demo_write(3)] by (simp add: plain_resolve blank_cwd)

definition demo_dir :: fs where
  "demo_dir = snd (the (fs_mkdir ''D'' blank))"

lemma demo_mkdir:
  obtains c where "fs_mkdir ''D'' blank = Some (0, demo_dir)" "represents demo_dir (tree_mkdir no_files 0 (split_name ''D'') c)"
    "same_cwd blank demo_dir" "c \<noteq> 0"
proof -
  have t: "tree_resolve no_files (cwd_key blank) ''D'' = Some (0, ''D'')" by (simp add: plain_resolve blank_cwd)
  have "good_name (split_name ''D'')" using names_ok(3) by (simp add: dir_leaf_ok_def leaf_ok_def)
  from fs_mkdir_ok [OF blank_models t _ this _ blank_room] obtain s c where
    s: "fs_mkdir ''D'' blank = Some (0, s)" "represents s (tree_mkdir no_files 0 (split_name ''D'') c)" "same_cwd blank s" "c \<noteq> 0"
    by (auto intro: representsI)
  then have "demo_dir = s" by (simp add: demo_dir_def)
  with s show thesis by (intro that) simp_all
qed

section \<open>Files\<close>

text \<open>C3. On a consistent volume \<open>fs_write\<close> always returns. When the data fits (the clusters of the old
  content count as free, and a new name needs a slot in its directory) it returns 0 and the tree has
  the file with exactly these bytes under the name, all else as before; when the path names a directory
  it fails without effect; an existing file that the data does not fit in is left empty; and a new file
  without room is either not made or left empty.\<close>
theorem fs_write_refines:
  assumes "represents s T" "tree_resolve T (cwd_key s) path = Some (p, leaf)" "leaf_ok leaf" "length data \<le> 0xFFFFFE00"
  shows "\<exists>r s'. fs_write path data s = Some (r, s') \<and> same_cwd s s' \<and>
    (if dir_of (T p (split_name leaf)) \<noteq> None then r = -1 \<and> s' = s
     else if write_fits s p (T p (split_name leaf)) (length data)
       then r = 0 \<and> represents s' (T(p := (T p)(split_name leaf \<mapsto> File data)))
     else if T p (split_name leaf) \<noteq> None then r = -1 \<and> represents s' (T(p := (T p)(split_name leaf \<mapsto> File [])))
     else r = 0 \<and> represents s' (T(p := (T p)(split_name leaf \<mapsto> File data)))
       \<or> r = -1 \<and> represents s' (T(p := (T p)(split_name leaf \<mapsto> File []))) \<or> r = -1 \<and> s' = s)"
  by (rule write_tree [OF assms])

lemma fs_write_refines_witness:
  "\<exists>s'. fs_write ''A.TXT'' [1, 2] demo = Some (0, s') \<and> represents s' (no_files(0 := [split_name ''A.TXT'' \<mapsto> File [1, 2]]))"
proof -
  have t: "tree_resolve demo_tree (cwd_key demo) ''A.TXT'' = Some (0, ''A.TXT'')" by (simp add: demo_resolve)
  from fs_write_refines [OF demo_write(2) t names_ok(1), of "[1, 2]"] show ?thesis
    by (auto simp: dir_of_def write_fits_def old_bytes_def)
qed

text \<open>C5. After a write that returned 0, reading the file with a limit of \<open>n\<close> bytes gives the data, cut to
  \<open>n\<close> bytes, whatever its length and wherever its clusters lie; and every path that leads to another
  name reads as before the write.\<close>
theorem fs_write_read_roundtrip:
  assumes "represents s T" "tree_resolve T (cwd_key s) path = Some (p, leaf)" "leaf_ok leaf" "length data \<le> 0xFFFFFE00"
    and "fs_write path data s = Some (0, s')"
    and "tree_resolve T (cwd_key s) other = Some (q, leaf')" "(q, split_name leaf') \<noteq> (p, split_name leaf)"
  shows "fs_read path n s' = Some (Inr (take (unat n) data)) \<and> fs_read other n s' = fs_read other n s"
proof -
  note w = write_done [OF assms(1-5)]
  show ?thesis
    using read_back [OF w(3,1,2) assms(2)] read_other [OF assms(1) w(3,1,2) assms(6,7)] by blast
qed

lemma fs_write_read_roundtrip_witness:
  "\<exists>s'. fs_write ''B.TXT'' [7, 8, 9] blank = Some (0, s') \<and> fs_read ''B.TXT'' 2 s' = Some (Inr [7, 8]) \<and>
     fs_read ''A.TXT'' 2 s' = fs_read ''A.TXT'' 2 blank"
proof -
  have t: "tree_resolve no_files (cwd_key blank) ''B.TXT'' = Some (0, ''B.TXT'')"
    "tree_resolve no_files (cwd_key blank) ''A.TXT'' = Some (0, ''A.TXT'')" by (simp_all add: plain_resolve blank_cwd)
  have n: "length [7, 8, 9 :: u8] \<le> 0xFFFFFE00" by simp
  obtain s' where w: "fs_write ''B.TXT'' [7, 8, 9] blank = Some (0, s')"
    using write_tree [OF blank_represents t(1) names_ok(2) n] blank_room [of 1] by (auto simp: dir_of_def write_fits_def)
  have "(0 :: u16, split_name ''A.TXT'') \<noteq> (0, split_name ''B.TXT'')" by code_simp
  from fs_write_read_roundtrip [OF blank_represents t(1) names_ok(2) n w t(2) this, of 2] w show ?thesis by auto
qed

text \<open>C10. On a consistent volume \<open>fs_append\<close> always returns. When the file with the data added fits in the
  clusters that are free it returns 0 and the file has the new bytes after the old ones, a missing file
  counting as empty; a path that names a directory is refused; and without the space the file keeps its
  old bytes, followed by as many of the new ones as were written.\<close>
theorem fs_append_refines:
  assumes "represents s T" "tree_resolve T (cwd_key s) path = Some (p, leaf)" "leaf_ok leaf"
  shows "\<exists>r s'. fs_append path data s = Some (r, s') \<and> same_cwd s s' \<and>
    (if dir_of (T p (split_name leaf)) \<noteq> None then r = -1 \<and> s' = s
     else if append_fits s p (T p (split_name leaf)) (length data)
       then r = 0 \<and> represents s' (T(p := (T p)(split_name leaf \<mapsto> File (old_bytes (T p (split_name leaf)) @ data))))
     else r = -1 \<and> s' = s \<or> (\<exists>n. (r = 0 \<and> take n data = data \<or> r = -1) \<and>
       represents s' (T(p := (T p)(split_name leaf \<mapsto> File (old_bytes (T p (split_name leaf)) @ take n data))))))"
  by (rule append_tree [OF assms])

lemma fs_append_refines_witness:
  "\<exists>s'. fs_append ''A.TXT'' [68, 69] demo = Some (0, s') \<and>
     represents s' (no_files(0 := [split_name ''A.TXT'' \<mapsto> File [65, 66, 67, 68, 69]]))"
proof -
  have t: "tree_resolve demo_tree (cwd_key demo) ''A.TXT'' = Some (0, ''A.TXT'')" by (simp add: demo_resolve)
  from fs_append_refines [OF demo_write(2) t names_ok(1), of "[68, 69]"] show ?thesis
    by (auto simp: dir_of_def append_fits_def old_bytes_def)
qed

text \<open>C21. Writing a text in two pieces, the second by \<open>fs_append\<close>, makes the same tree as writing it at
  once, whichever clusters each run allocates: the partly filled last sector, the search for the
  end of the chain and the size are all consistent with what \<open>fs_write\<close> lays out.\<close>
theorem fs_write_append_equivalent:
  assumes "represents s T" "tree_resolve T (cwd_key s) path = Some (p, leaf)" "leaf_ok leaf" "length (a @ b) \<le> 0xFFFFFE00"
    and "fs_write path a s = Some (0, s1)" "fs_append path b s1 = Some (0, s2)" "fs_write path (a @ b) s = Some (0, s3)"
  shows "\<exists>T'. represents s2 T' \<and> represents s3 T' \<and> fs_read path n s2 = fs_read path n s3"
proof -
  have n: "length a \<le> 0xFFFFFE00" using assms(4) by simp
  note w = write_done [OF assms(1-3) n assms(5)] and w3 = write_done [OF assms(1-4,7)]
  have t1: "tree_resolve (T(p := (T p)(split_name leaf \<mapsto> File a))) (cwd_key s1) path = Some (p, leaf)"
    using write_done_resolve [OF assms(1-3) n assms(5)] assms(2) by simp
  note ap = append_done [OF w(3) t1 assms(3,6)]
  have R2: "represents s2 (T(p := (T p)(split_name leaf \<mapsto> File (a @ b))))" using ap(3) by (simp add: old_bytes_def)
  have cwd: "same_cwd s s2" using w(1) ap(1) by (simp add: same_cwd_def)
  show ?thesis
    using R2 w3(3) read_back [OF R2 cwd w3(2) assms(2)] read_back [OF w3(3,1,2) assms(2)] by auto
qed

lemma fs_write_append_equivalent_witness:
  "\<exists>s1 s2 s3 T'. fs_write ''A.TXT'' [1] demo = Some (0, s1) \<and> fs_append ''A.TXT'' [2] s1 = Some (0, s2) \<and>
     fs_write ''A.TXT'' [1, 2] demo = Some (0, s3) \<and> represents s2 T' \<and> represents s3 T' \<and>
     fs_read ''A.TXT'' 9 s2 = fs_read ''A.TXT'' 9 s3"
proof -
  have t: "tree_resolve demo_tree (cwd_key demo) ''A.TXT'' = Some (0, ''A.TXT'')" by (simp add: demo_resolve)
  have n: "length [1 :: u8] \<le> 0xFFFFFE00" "length [1, 2 :: u8] \<le> 0xFFFFFE00" "length ([1 :: u8] @ [2]) \<le> 0xFFFFFE00" by simp_all
  obtain s1 where s1: "fs_write ''A.TXT'' [1] demo = Some (0, s1)"
    using write_tree [OF demo_write(2) t names_ok(1) n(1)] by (auto simp: dir_of_def write_fits_def old_bytes_def)
  obtain s3 where s3: "fs_write ''A.TXT'' [1, 2] demo = Some (0, s3)"
    using write_tree [OF demo_write(2) t names_ok(1) n(2)] by (auto simp: dir_of_def write_fits_def old_bytes_def)
  note w = write_done [OF demo_write(2) t names_ok(1) n(1) s1]
  have t1: "tree_resolve (demo_tree(0 := (demo_tree 0)(split_name ''A.TXT'' \<mapsto> File [1]))) (cwd_key s1) ''A.TXT'' = Some (0, ''A.TXT'')"
    using write_done_resolve [OF demo_write(2) t names_ok(1) n(1) s1] t by (simp only:)
  obtain s2 where s2: "fs_append ''A.TXT'' [2] s1 = Some (0, s2)"
    using append_tree [OF w(3) t1 names_ok(1), of "[2]"] by (auto simp: dir_of_def append_fits_def old_bytes_def)
  from fs_write_append_equivalent [OF demo_write(2) t names_ok(1) n(3) s1 s2, of s3 9] s3 s1 s2 show ?thesis by auto
qed

text \<open>C19. \<open>fs_read\<close> and \<open>fs_stat\<close> answer what the tree says for every path: a file gives its bytes cut to the
  caller's limit and its exact length, a directory cannot be read, and a path that leads nowhere fails.\<close>
theorem fs_read_stat_exact:
  assumes "represents s T"
  shows "case tree_find T (cwd_key s) path of
      None \<Rightarrow> fs_read path max_size s = Some (Inl FsFailed) \<and> fs_stat path s = Some (Inl FsFailed)
    | Some (File bs) \<Rightarrow> fs_read path max_size s = Some (Inr (take (unat max_size) bs)) \<and> fs_stat path s = Some (Inr (of_nat (length bs)))
    | Some (Dir c) \<Rightarrow> fs_read path max_size s = Some (Inl FsFailed)"
proof -
  obtain G ds where m: "models s G ds T" by (rule represents_obtain [OF assms])
  from read_tree [OF assms, of path max_size] fs_stat_models [OF m, of path] show ?thesis
    by (simp split: option.split node.split)
qed

lemma fs_read_stat_exact_witness:
  "fs_read ''A.TXT'' 2 demo = Some (Inr [65, 66]) \<and> fs_stat ''A.TXT'' demo = Some (Inr 3) \<and>
   fs_stat ''B.TXT'' demo = Some (Inl FsFailed)"
proof -
  have f: "tree_find demo_tree (cwd_key demo) ''A.TXT'' = Some (File [65, 66, 67])" by (simp add: tree_find_def demo_resolve)
  have "split_name ''B.TXT'' \<noteq> split_name ''A.TXT''" by code_simp
  then have "tree_find demo_tree (cwd_key demo) ''B.TXT'' = None" by (simp add: tree_find_def demo_resolve)
  with f fs_read_stat_exact [OF demo_write(2), of "''A.TXT''" 2] fs_read_stat_exact [OF demo_write(2), of "''B.TXT''"]
  show ?thesis by simp
qed

text \<open>C20. \<open>fs_list\<close> prints exactly one line for every name that the tree has in the current directory, besides the
  dot entries: the name with its size, or marked as a directory; and \<open>(empty)\<close> when there is none. Its loop ends.\<close>
theorem fs_list_exact:
  assumes "represents s T"
  shows "\<exists>ks. distinct ks \<and> set ks = listed T (cwd_key s) \<and>
    fs_list s = Some (if ks = [] then ''  (empty)'' @ [CHR 0x0A] else concat (map (list_line T (cwd_key s)) ks))"
proof -
  obtain G ds where "models s G ds T" by (rule represents_obtain [OF assms])
  then show ?thesis by (rule fs_list_models)
qed

lemma fs_list_exact_witness: "fs_list demo = Some (''  A.TXT  (0x00000003 bytes)'' @ [CHR 0x0A])"
proof -
  let ?k = "split_name ''A.TXT''"
  have "fst ?k \<noteq> DOT_NAME" "fst ?k \<noteq> DOTDOT_NAME" by code_simp+
  then have l: "listed demo_tree 0 = {?k}" by (auto simp: listed_def split: if_splits)
  have k: "cwd_key demo = 0" using same_cwd_key [OF demo_write(3)] by (simp add: blank_cwd)
  obtain ks where ks: "distinct ks" "set ks = {?k}"
    "fs_list demo = Some (if ks = [] then ''  (empty)'' @ [CHR 0x0A] else concat (map (list_line demo_tree 0) ks))"
    using fs_list_exact [OF demo_write(2)] l k by auto
  have "ks = [?k]" using ks(1,2) by (cases ks; cases "tl ks") auto
  moreover have "list_name ?k = ''A.TXT''" by code_simp
  moreover have "hex32_string 3 = ''0x00000003''" by code_simp
  ultimately show ?thesis using ks(3) by (simp add: list_line_def)
qed

text \<open>C14. \<open>fs_delete\<close> removes exactly the named file from the tree: it returns 0 for a file, and for a
  directory or a path that leads nowhere it returns -1 and changes nothing.\<close>
theorem fs_delete_refines:
  assumes "represents s T"
  shows "\<exists>r s'. fs_delete path s = Some (r, s') \<and> (case tree_resolve T (cwd_key s) path of
      None \<Rightarrow> r = -1 \<and> s' = s
    | Some (p, leaf) \<Rightarrow> (case T p (split_name leaf) of
        Some (File bs) \<Rightarrow> r = 0 \<and> same_cwd s s' \<and> represents s' (T(p := (T p)(split_name leaf := None)))
      | _ \<Rightarrow> r = -1 \<and> s' = s))"
proof -
  obtain G ds where m: "models s G ds T" by (rule represents_obtain [OF assms])
  from fs_delete_models [OF m refl, of path] show ?thesis
    by (fastforce simp: represents_models split: option.splits node.splits)
qed

lemma fs_delete_refines_witness: "\<exists>s'. fs_delete ''A.TXT'' demo = Some (0, s') \<and> represents s' no_files"
  using fs_delete_refines [OF demo_write(2), of "''A.TXT''"] by (auto simp: demo_resolve fun_upd_idem)

text \<open>C11. \<open>fs_mkdir\<close> returns for every path whose last component is a name. It refuses an existing name. If
  not, it gives the name a directory with exactly the two dot entries, the second of them leading back to
  the parent, or fails without a trace, its cluster given back, and that only when the parent has no room.\<close>
theorem fs_mkdir_refines:
  assumes "represents s T" "tree_resolve T (cwd_key s) path = Some (p, leaf)" "dir_leaf_ok leaf"
  shows "\<exists>r s'. fs_mkdir path s = Some (r, s') \<and> same_cwd s s' \<and>
    (if T p (split_name leaf) \<noteq> None then r = -1 \<and> s' = s
     else (r = 0 \<and> (\<exists>c. c \<noteq> 0 \<and> T c = Map.empty \<and> represents s' (tree_mkdir T p (split_name leaf) c)))
       \<or> r = -1 \<and> \<not> room s p 1 \<and> represents s' T)"
  by (rule mkdir_tree [OF assms])

lemma fs_mkdir_refines_witness:
  "\<exists>s' c. fs_mkdir ''D'' blank = Some (0, s') \<and> represents s' (tree_mkdir no_files 0 (split_name ''D'') c)"
proof -
  have t: "tree_resolve no_files (cwd_key blank) ''D'' = Some (0, ''D'')" by (simp add: plain_resolve blank_cwd)
  from fs_mkdir_refines [OF blank_represents t names_ok(3)] show ?thesis using blank_room [of 1] by auto
qed

text \<open>C22. A directory that \<open>fs_mkdir\<close> has made is removed by \<open>fs_rmdir\<close> on the same path, and the tree is
  then what it was before.\<close>
theorem fs_mkdir_rmdir_roundtrip:
  assumes "represents s T" "tree_resolve T (cwd_key s) path = Some (p, leaf)" "dir_leaf_ok leaf" "fs_mkdir path s = Some (0, s1)"
  shows "\<exists>s2. fs_rmdir path s1 = Some (0, s2) \<and> represents s2 T \<and> same_cwd s s2"
  by (rule mkdir_rmdir [OF assms])

lemma fs_mkdir_rmdir_roundtrip_witness: "\<exists>s2. fs_rmdir ''D'' demo_dir = Some (0, s2) \<and> represents s2 no_files"
proof -
  have t: "tree_resolve no_files (cwd_key blank) ''D'' = Some (0, ''D'')" by (simp add: plain_resolve blank_cwd)
  obtain c where "fs_mkdir ''D'' blank = Some (0, demo_dir)" by (rule demo_mkdir)
  from fs_mkdir_rmdir_roundtrip [OF blank_represents t names_ok(3) this] show ?thesis by blast
qed

text \<open>C12. \<open>fs_rmdir\<close> removes a directory exactly when its path names one, it holds nothing but the dot entries
  and it is not the current one; the tree loses the name and the directory's table. Everything else it
  refuses without effect.\<close>
theorem fs_rmdir_refines:
  assumes "represents s T"
  shows "\<exists>r s'. fs_rmdir path s = Some (r, s') \<and> same_cwd s s' \<and> (case tree_resolve T (cwd_key s) path of
      None \<Rightarrow> r = -1 \<and> s' = s
    | Some (p, leaf) \<Rightarrow>
        (case dir_of (T p (split_name leaf)) of
           None \<Rightarrow> r = -1 \<and> s' = s
         | Some c \<Rightarrow> if leaf \<notin> {[], ''.'', ''..''} \<and> removable T (cwd_key s) c
             then r = 0 \<and> represents s' (T(p := (T p)(split_name leaf := None), c := Map.empty))
             else r = -1 \<and> s' = s))"
proof -
  obtain G ds where m: "models s G ds T" by (rule represents_obtain [OF assms])
  from fs_rmdir_models [OF m, of path] obtain r s' where res: "fs_rmdir path s = Some (r, s')" "same_cwd s s'"
    and c: "case tree_resolve T (cwd_key s) path of
      None \<Rightarrow> r = -1 \<and> s' = s
    | Some (p, leaf) \<Rightarrow> (case dir_of (T p (split_name leaf)) of
           None \<Rightarrow> r = -1 \<and> s' = s
         | Some c \<Rightarrow> if leaf \<notin> {[], ''.'', ''..''} \<and> removable T (cwd_key s) c
             then r = 0 \<and> models s' (G(c := None)) (ds - {c}) (T(p := (T p)(split_name leaf := None), c := Map.empty))
             else r = -1 \<and> s' = s)" by blast
  show ?thesis by (intro exI [of _ r] exI [of _ s']) (use res c in \<open>auto split: option.splits intro: representsI\<close>)
qed

lemma fs_rmdir_refines_witness: "\<exists>s'. fs_rmdir ''A.TXT'' demo = Some (-1, s') \<and> represents s' demo_tree"
  using fs_rmdir_refines [OF demo_write(2), of "''A.TXT''"] demo_write(2) by (simp add: demo_resolve dir_of_def)

text \<open>C18. \<open>fs_chdir\<close> walks the path through the tree, from the root or from the current directory, over \<open>.\<close>,
  \<open>..\<close> and named directories: it moves to the directory that the path leads to, or fails without effect
  when it leads to none. No file or directory changes.\<close>
theorem fs_chdir_refines:
  assumes "represents s T"
  shows "\<exists>r s'. fs_chdir path s = Some (r, s') \<and> (case tree_walk_path T path (cwd_key s) of
      None \<Rightarrow> r = -1 \<and> s' = s
    | Some q \<Rightarrow> r = 0 \<and> represents s' T \<and> cwd_key s' = q)"
  by (rule represents_chdir [OF assms])

lemma fs_chdir_refines_witness:
  "\<exists>c s'. c \<noteq> 0 \<and> fs_chdir ''D/../D'' demo_dir = Some (0, s') \<and> cwd_key s' = c"
proof -
  obtain c where d: "represents demo_dir (tree_mkdir no_files 0 (split_name ''D'') c)" "same_cwd blank demo_dir" "c \<noteq> 0"
    by (rule demo_mkdir)
  let ?T = "tree_mkdir no_files 0 (split_name ''D'') c"
  have T: "?T 0 (split_name ''D'') = Some (Dir c)" "?T c (DOTDOT_NAME, EMPTY_EXT) = Some (Dir 0)"
    using d(3) by (simp_all add: tree_mkdir_def)
  have "next_component ''D/../D'' = (''D'', ''../D'')" "next_component ''../D'' = (''..'', ''D'')" "next_component ''D'' = (''D'', [])"
    by code_simp+
  then have "tree_walk_path ?T ''D/../D'' 0 = Some c"
    using T by (simp add: tree_walk_path_def tree_walk.simps dir_of_def)
  moreover have "cwd_key demo_dir = 0" using same_cwd_key [OF d(2)] blank_cwd by simp
  ultimately show ?thesis using fs_chdir_refines [OF d(1), of "''D/../D''"] d(3) by auto
qed

text \<open>C13. \<open>fs_rename\<close> moves an entry to a new name in the same directory, whatever it is an entry of, and
  keeps its content; it refuses a missing old name, a new name that is taken, and another directory, and
  then changes nothing. In the root directory it may also refuse a proper rename, but only when one of the
  paths has a slash.\<close>
theorem fs_rename_refines:
  assumes "represents s T" "tree_resolve T (cwd_key s) old = Some (p, leaf)" "tree_resolve T (cwd_key s) new = Some (q, leaf')"
    and "leaf_ok leaf'"
  shows "\<exists>r s'. fs_rename old new s = Some (r, s') \<and> same_cwd s s' \<and>
    (case T p (split_name leaf) of
       None \<Rightarrow> r = -1 \<and> s' = s
     | Some v \<Rightarrow>
         if p \<noteq> q \<or> T q (split_name leaf') \<noteq> None then r = -1 \<and> s' = s
         else r = 0 \<and> represents s' (T(p := (T p)(split_name leaf := None, split_name leaf' \<mapsto> v)))
           \<or> r = -1 \<and> s' = s \<and> p = 0 \<and> CHR ''/'' \<in> set old \<union> set new)"
  by (rule rename_tree [OF assms])

lemma fs_rename_refines_witness:
  "\<exists>s'. fs_rename ''A.TXT'' ''B.TXT'' demo = Some (0, s') \<and>
     represents s' (no_files(0 := [split_name ''B.TXT'' \<mapsto> File [65, 66, 67]]))"
proof -
  have t: "tree_resolve demo_tree (cwd_key demo) ''A.TXT'' = Some (0, ''A.TXT'')"
    "tree_resolve demo_tree (cwd_key demo) ''B.TXT'' = Some (0, ''B.TXT'')" by (simp_all add: demo_resolve)
  have "split_name ''B.TXT'' \<noteq> split_name ''A.TXT''" by code_simp
  then show ?thesis using fs_rename_refines [OF demo_write(2) t names_ok(2)] by auto
qed

text \<open>C33. The refusal is real: after \<open>cd ..\<close> from a directory of the root into the root, a rename within the
  root whose new name is given from the root always fails, because the reference to the current directory
  still has the cluster of the directory that was left.\<close>
theorem fs_rename_fails_after_cd_up:
  assumes "represents s T" "\<not> cwd_is_root s" "T (cwd_cluster s) (DOTDOT_NAME, EMPTY_EXT) = Some (Dir 0)"
    and "old \<noteq> []" "CHR ''/'' \<notin> set old" "new \<noteq> []" "CHR ''/'' \<notin> set new"
  shows "\<exists>s'. fs_chdir ''..'' s = Some (0, s') \<and> cwd_is_root s' \<and> represents s' T \<and>
    fs_rename old (CHR ''/'' # new) s' = Some (-1, s')"
proof -
  obtain G ds where m: "models s G ds T" by (rule represents_obtain [OF assms(1)])
  obtain b where ch: "fs_chdir ''..'' s = Some (0, s\<lparr>cwd_is_root := True, cwd_path := b\<rparr>)"
    using chdir_up_root [OF assms(1-3)] by blast
  have R: "represents (s\<lparr>cwd_is_root := True, cwd_path := b\<rparr>) T"
    using fs_chdir_models [OF m, of "''..''"] ch by (auto split: option.splits intro: representsI)
  have "cwd_cluster s \<noteq> 0" using volD(6) [OF modelsD(1) [OF m]] assms(2) dirs_not_0 [OF volD(1,5) [OF modelsD(1) [OF m]]] by auto
  from rename_stale [OF R _ _ assms(4-7)] this R ch show ?thesis by auto
qed

lemma fs_rename_fails_after_cd_up_witness:
  "\<exists>s s' T. fs_chdir ''D'' demo_dir = Some (0, s) \<and> fs_chdir ''..'' s = Some (0, s') \<and> represents s' T \<and>
     T 0 (split_name ''D'') \<noteq> None \<and> T 0 (split_name ''E'') = None \<and> fs_rename ''D'' ''/E'' s' = Some (-1, s')"
proof -
  obtain c where d: "represents demo_dir (tree_mkdir no_files 0 (split_name ''D'') c)" "same_cwd blank demo_dir" "c \<noteq> 0"
    by (rule demo_mkdir)
  let ?T = "tree_mkdir no_files 0 (split_name ''D'') c"
  have ne: "split_name ''D'' \<noteq> split_name ''E''" by code_simp
  have T: "?T 0 (split_name ''D'') = Some (Dir c)" "?T c (DOTDOT_NAME, EMPTY_EXT) = Some (Dir 0)" "?T 0 (split_name ''E'') = None"
    using d(3) ne by (auto simp: tree_mkdir_def)
  have "next_component ''D'' = (''D'', [])" by code_simp
  then have w: "tree_walk_path ?T ''D'' 0 = Some c" using T by (simp add: tree_walk_path_def tree_walk.simps dir_of_def)
  have "cwd_key demo_dir = 0" using same_cwd_key [OF d(2)] blank_cwd by simp
  with w represents_chdir [OF d(1), of "''D''"] obtain s where s: "fs_chdir ''D'' demo_dir = Some (0, s)" "represents s ?T" "cwd_key s = c" by auto
  then have cwd: "\<not> cwd_is_root s" "cwd_cluster s = c" using d(3) by (auto simp: cwd_key_def key_def cwd_dir_def split: if_splits)
  from fs_rename_fails_after_cd_up [OF s(2) cwd(1), of "''D''" "''E''"] cwd(2) T s(1) show ?thesis by auto
qed

section \<open>Formatting, mounting, and whole sessions\<close>

text \<open>On a disk without the marker \<open>fs_init\<close> makes an empty file system with the root as current
  directory and all 15949 clusters free, whatever the disk and the memory held before.\<close>
theorem fs_init_formats:
  assumes "root_wf s" "\<not> is_formatted (fs_disk s (of_nat FS_BOOT_LBA))"
  shows "represents (fs_init s) no_files \<and> cwd_key (fs_init s) = 0 \<and> cwd_path (fs_init s) = ''/'' \<and> free_clusters (fs_init s) = 15949"
proof -
  have m: "models (fs_init s) Map.empty {} no_files" by (rule fs_init_blank [OF assms(1)]) (use assms(2) in simp)
  from representsI [OF m] all_free [OF m] show ?thesis by (simp add: fs_init_def Let_def cwd_key_def cwd_dir_def key_def)
qed

lemma fs_init_formats_witness: "represents blank no_files \<and> free_clusters blank = 15949"
proof -
  have "\<not> is_formatted (fs_disk (fs_power_on (\<lambda>lba. zero_sector)) (of_nat FS_BOOT_LBA))" using blank_unformatted by simp
  from fs_init_formats [OF fs_power_on_wf this] show ?thesis by (simp add: blank_def)
qed

text \<open>C8. Nothing of the file system lives in memory only: after a restart with the same disk \<open>fs_init\<close> restores
  the state exactly, but for the current directory, which is the root again; so it shows the same tree.\<close>
theorem fs_init_remounts:
  assumes "represents s T" "fs_disk s' = fs_disk s"
  shows "fs_init s' = s\<lparr>cwd_is_root := True, cwd_cluster := 0, cwd_path := ''/''\<rparr> \<and> represents (fs_init s') T"
proof -
  obtain G ds where m: "models s G ds T" by (rule represents_obtain [OF assms(1)])
  from fs_init_mount [OF m assms(2)] show ?thesis by (auto intro: representsI)
qed

lemma fs_init_remounts_witness:
  "represents (fs_init (fs_power_on (fs_disk demo))) demo_tree \<and> fs_root (fs_init (fs_power_on (fs_disk demo))) = fs_root demo"
proof -
  have "fs_disk (fs_power_on (fs_disk demo)) = fs_disk demo" by (simp add: fs_power_on_def)
  note r = fs_init_remounts [OF demo_write(2) this]
  have "fs_root (fs_init (fs_power_on (fs_disk demo))) = fs_root demo" unfolding conjunct1 [OF r] by simp
  with conjunct2 [OF r] show ?thesis by blast
qed

text \<open>A machine's life: sessions of operations, between which memory is lost and the disk stays.\<close>

definition session :: "fs_op list \<Rightarrow> fs \<Rightarrow> fs option" where
  "session ops s = map_option (\<lambda>s'. fs_init (fs_power_on (fs_disk s'))) (fs_run ops s)"

definition sessions :: "fs_op list list \<Rightarrow> fs \<Rightarrow> fs option" where
  "sessions = run_steps session"

interpretation life: reactive session "\<lambda>s. \<exists>T. represents s T" "list_all op_ok"
proof unfold_locales
  fix s ops assume "\<exists>T. represents s T" "list_all op_ok ops"
  then obtain s1 T1 where s1: "fs_run ops s = Some s1" "represents s1 T1" using fs_run_kept by blast
  obtain G ds where "models s1 G ds T1" by (rule represents_obtain [OF s1(2)])
  then have "represents (fs_init (fs_power_on (fs_disk s1))) T1"
    by (rule representsI [OF fs_init_mount(2)]) (simp add: fs_power_on_def)
  with s1(1) show "\<exists>s'. session ops s = Some s' \<and> (\<exists>T. represents s' T)" by (auto simp: session_def)
qed

text \<open>C2. From the first boot on an unformatted disk on, every sequence of creating, writing, appending,
  deleting, renaming, making and removing directories and changing the directory, on any paths, with
  restarts in between, completes, and the volume stays consistent: it represents a tree. So no cluster is
  ever in two chains or lost, both FAT copies agree, sizes fit the chains, the cached root directory is
  the one on disk, names are unique, and every directory's \<open>.\<close> and \<open>..\<close> are right, whatever fails on the
  way for lack of space.\<close>
theorem fs_volume_kept:
  assumes "root_wf s" "\<not> is_formatted (fs_disk s (of_nat FS_BOOT_LBA))" "list_all (list_all op_ok) runs"
  shows "\<exists>s' T. sessions runs (fs_init s) = Some s' \<and> represents s' T"
proof -
  have m: "models (fs_init s) Map.empty {} no_files" by (rule fs_init_blank [OF assms(1)]) (use assms(2) in simp)
  then have "\<exists>T. represents (fs_init s) T" by (blast intro: representsI)
  from life.run_kept [OF this assms(3)] show ?thesis by (auto simp: sessions_def)
qed

lemma fs_volume_kept_witness:
  "\<exists>s' T. sessions [[Mkdir ''D'', Write ''D/A.TXT'' [1], Chdir ''D''], [Rename ''A.TXT'' ''B.TXT'', Rmdir ''D'']] blank = Some s' \<and> represents s' T"
proof -
  have "path_leaf ''D'' = ''D''" "path_leaf ''D/A.TXT'' = ''A.TXT''" "path_leaf ''B.TXT'' = ''B.TXT''" by code_simp+
  then have ok: "list_all (list_all op_ok) [[Mkdir ''D'', Write ''D/A.TXT'' [1], Chdir ''D''], [Rename ''A.TXT'' ''B.TXT'', Rmdir ''D'']]"
    using names_ok by (simp add: storable_def leaf_ok_def dir_leaf_ok_def)
  have "\<not> is_formatted (fs_disk (fs_power_on (\<lambda>lba. zero_sector)) (of_nat FS_BOOT_LBA))" using blank_unformatted by simp
  from fs_volume_kept [OF fs_power_on_wf this ok] show ?thesis by (simp add: blank_def)
qed

section \<open>Damaged volumes\<close>

text \<open>The clusters \<open>C\<close> lead to each other and hold no entry of that name.\<close>

definition closed_loop :: "fs \<Rightarrow> u16 set \<Rightarrow> u8 list \<Rightarrow> u8 list \<Rightarrow> bool" where
  "closed_loop s C n e \<longleftrightarrow> (\<forall>c\<in>C. is_link c \<and> fat_read (fs_disk s) c \<in> C \<and>
     (\<forall>i<16. \<not> slot_matches n e (dirent_at (fs_disk s (cluster_to_lba c)) i, undefined)))"

text \<open>An iterator inside the loop.\<close>

definition in_loop :: "u16 set \<Rightarrow> dir_iter \<Rightarrow> bool" where
  "in_loop C it \<longleftrightarrow> \<not> is_root (it_dir it) \<and> \<not> it_done it \<and> it_cluster it \<in> C \<and> in_cluster_index it < 16"

lemma loop_next:
  assumes "closed_loop s C n e" "in_loop C it"
  shows "\<exists>d l it'. dir_iter_next s it = (Some (d, l), it') \<and> \<not> slot_matches n e (d, undefined) \<and> in_loop C it'"
proof -
  let ?d = "dirent_at (fs_disk s (cluster_to_lba (it_cluster it))) (in_cluster_index it)"
  have c: "is_link (it_cluster it)" "fat_read (fs_disk s) (it_cluster it) \<in> C" "\<not> slot_matches n e (?d, undefined)"
    using assms unfolding closed_loop_def in_loop_def by blast+
  show ?thesis
    using assms(2) c by (intro exI [of _ ?d]) (simp add: dir_iter_next_def in_loop_def disk_read_sector_def Let_def)
qed

lemma scan_loop: "dir_scan_from s it n e = Some r \<Longrightarrow> closed_loop s C n e \<longrightarrow> \<not> in_loop C it"
proof (erule dir_scan_from.raw_induct [rotated], intro impI notI)
  fix f s it n e r
  assume IH: "\<And>s it n e r. f s it n e = Some r \<Longrightarrow> closed_loop s C n e \<longrightarrow> \<not> in_loop C it"
    and b: "(case dir_iter_next s it of (None, it') \<Rightarrow> Some None
      | (Some (d, l), it') \<Rightarrow> if unused d then f s it' n e
          else if fields_eq (de_name d) n FS_NAME_FIELD_LEN \<and> fields_eq (de_ext d) e FS_EXT_FIELD_LEN then Some (Some (d, l))
          else f s it' n e) = Some r"
    and l: "closed_loop s C n e" "in_loop C it"
  obtain d l it' where it: "dir_iter_next s it = (Some (d, l), it')" "\<not> slot_matches n e (d, undefined)" "in_loop C it'"
    using loop_next [OF l] by blast
  then have "f s it' n e = Some r" using b by (auto split: if_splits)
  with IH l(1) it(3) show False by blast
qed

text \<open>C32. A lookup in a subdirectory whose chain of clusters ends returns, with the first matching entry if
  there is one; in a directory whose links run in a cycle, as only a damaged disk has them, the lookup of a
  name that the cycle does not hold never returns, for no code bounds the walk.\<close>
theorem dir_scan_termination:
  assumes "\<not> is_root D"
  shows "(chain (fat_read (fs_disk s)) (dir_cluster D) xs \<longrightarrow>
      dir_scan s D n e = Some (find (slot_matches n e) (concat (map (cluster_slots (fs_disk s) D) xs))))
    \<and> (closed_loop s C n e \<and> dir_cluster D \<in> C \<longrightarrow> dir_scan s D n e = None)"
proof (intro conjI impI)
  assume "chain (fat_read (fs_disk s)) (dir_cluster D) xs"
  then have "dir_chain s D xs" using assms by (simp add: dir_chain_def)
  then show "dir_scan s D n e = Some (find (slot_matches n e) (concat (map (cluster_slots (fs_disk s) D) xs)))"
    using dir_scan_find [of s D xs n e] assms by (simp add: dir_slots_def)
next
  assume c: "closed_loop s C n e \<and> dir_cluster D \<in> C"
  then have "in_loop C (dir_iter_start D)" using assms by (simp add: in_loop_def dir_iter_start_def)
  with c scan_loop [of s "dir_iter_start D" n e] show "dir_scan s D n e = None"
    unfolding dir_scan_def by (cases "dir_scan_from s (dir_iter_start D) n e") auto
qed

lemma dir_scan_termination_witness:
  "dir_scan (fs_power_on (fat_write (\<lambda>lba. zero_sector) 2 2)) \<lparr>is_root = False, dir_cluster = 2\<rparr> DOT_NAME EMPTY_EXT = None"
proof -
  let ?s = "fs_power_on (fat_write (\<lambda>lba. zero_sector) 2 2)" and ?D = "\<lparr>is_root = False, dir_cluster = 2\<rparr>"
  have dc: "data_cluster 2" by (simp add: data_cluster_def)
  have "fs_disk ?s (cluster_to_lba 2) = zero_sector"
    using fat_write_outside [OF data_cluster_in_fat [OF dc] data_lba_not_fat [OF dc]] by (simp add: fs_power_on_def zero_sector_def)
  moreover have "fat_read (fs_disk ?s) 2 = 2" by (simp add: fs_power_on_def fat_read_write_same)
  ultimately have "closed_loop ?s {2} DOT_NAME EMPTY_EXT"
    using data_cluster_is_link [OF dc] unused_zero by (simp add: closed_loop_def)
  with dir_scan_termination [of ?D ?s "[]" DOT_NAME EMPTY_EXT "{2}"] show ?thesis by simp
qed

end
