(* ===== verification/ShellFs.thy ===== *)
theory ShellFs
  imports FsProps ShellProps
begin

text \<open>
  The shell's file commands on a consistent volume: what a user types and sees.
\<close>

section \<open>Writing a file and printing it\<close>

lemma first_word_name:
  assumes "CHR '' '' \<notin> set name" "length name \<le> 63"
  shows "first_word (name @ CHR '' '' # rest) = (name, CHR '' '' # rest)"
proof -
  have "takeWhile (\<lambda>c. c \<noteq> CHR '' '') (name @ CHR '' '' # rest) = name"
    using assms(1) by (subst takeWhile_append2) auto
  with assms(2) show ?thesis by (simp add: first_word_def FS_NAME_LEN_def)
qed

lemma skip_name: "CHR '' '' \<notin> set name \<Longrightarrow> name \<noteq> [] \<Longrightarrow> skip_space (CHR '' '' # name @ r) = name @ r"
  by (simp add: skip_space_def)

lemma cmd_write_text:
  assumes "CHR '' '' \<notin> set name" "length name \<le> 63" "name \<noteq> []"
  shows "cmd_write (CHR '' '' # name @ CHR '' '' # content) s = do {
     (result, s) \<leftarrow> fs_write name (map byte_of content) s;
     Some (if result < 0 then ''write failed (file table full?)'' @ NL
           else ''Write '' @ uint_string (of_nat (length content)) @ '' bytes to '' @ name @ NL, s) }"
  using assms first_word_name [OF assms(1,2)] by (simp add: cmd_write_def skip_space_def)

lemma run_write: "run_command (''write '' @ args) sy =
    on_fs (sy\<lparr>s_shell := history_add (''write '' @ args) (s_shell sy)\<rparr>) (cmd_write (CHR '' '' # args) (s_fs sy))"
  by (simp add: run_command_def is_cmd_def Let_def)

lemma run_cat: "cmd_cat (CHR '' '' # args) (s_fs sy) = Some out \<Longrightarrow> map_sum id fst (run_command (''cat '' @ args) sy) = Inr [Print out]"
  by (simp add: run_command_def is_cmd_def Let_def says_def)

lemma cat_text:
  assumes R: "represents s (T(p := (T p)(split_name leaf \<mapsto> File (map byte_of content))))" and f: "dir_of (T p (split_name leaf)) = None"
    and t: "tree_resolve T (cwd_key s) name = Some (p, leaf)" and c: "length content \<le> 4095" "CHR 0x00 \<notin> set content"
    and n: "name \<noteq> []"
  shows "cmd_cat (CHR '' '' # name) s = Some (content @ NL)"
proof -
  have "fs_read name (4096 - 1) s = Some (Inr (map byte_of content))"
    using read_back [OF R same_cwd_refl f t] c(1) by simp
  moreover have "skip_space (CHR '' '' # name) = name" by (simp add: skip_space_def)
  moreover have "map char_of_byte (map byte_of content) = content" by (simp add: comp_def)
  ultimately show ?thesis using n cstr_id [OF c(2)] by (simp add: cmd_cat_def)
qed

text \<open>C6. What the user types after \<open>write NAME\<close> is what \<open>cat NAME\<close> prints, for every text of at most 4095
  characters that fits on the disk and every name without a space; in the same session, and also after a
  restart, from nothing but the disk. This goes through the command parser, the path and 8.3 name
  handling, the allocation of clusters, the directory, the remount, and the byte and character
  conversions.\<close>
theorem shell_write_cat:
  assumes "represents (s_fs sy) T" "cwd_key (s_fs sy) = 0" "tree_resolve T 0 name = Some (p, leaf)" "leaf_ok leaf"
    and "CHR '' '' \<notin> set name" "length name \<le> 63" "length content \<le> 4095" "CHR 0x00 \<notin> set content"
    and "dir_of (T p (split_name leaf)) = None" "write_fits (s_fs sy) p (T p (split_name leaf)) (length content)"
  shows "\<exists>sy'. run_command (''write '' @ name @ '' '' @ content) sy =
      Inr ([Print (''Write '' @ uint_string (of_nat (length content)) @ '' bytes to '' @ name @ NL)], sy') \<and>
    map_sum id fst (run_command (''cat '' @ name) sy') = Inr [Print (content @ NL)] \<and>
    map_sum id fst (run_command (''cat '' @ name) (sy'\<lparr>s_fs := fs_init (fs_power_on (fs_disk (s_fs sy')))\<rparr>)) = Inr [Print (content @ NL)]"
proof -
  let ?s = "s_fs sy" and ?data = "map byte_of content"
  let ?T = "T(p := (T p)(split_name leaf \<mapsto> File ?data))"
  have t: "tree_resolve T (cwd_key ?s) name = Some (p, leaf)" and n: "name \<noteq> []" using assms(2,3) by (auto simp: tree_resolve_def)
  have len: "length ?data \<le> 0xFFFFFE00" using assms(7) by simp
  obtain s' where w: "fs_write name ?data ?s = Some (0, s')" "same_cwd ?s s'" "represents s' ?T"
    using write_tree [OF assms(1) t assms(4) len] assms(9,10) by auto
  let ?sy = "sy\<lparr>s_shell := history_add (''write '' @ name @ '' '' @ content) (s_shell sy), s_fs := s'\<rparr>"
  have typed: "run_command (''write '' @ name @ '' '' @ content) sy =
      Inr ([Print (''Write '' @ uint_string (of_nat (length content)) @ '' bytes to '' @ name @ NL)], ?sy)"
    unfolding run_write using w(1) cmd_write_text [OF assms(5,6) n] by (simp add: on_fs_def)
  obtain G ds where m: "models s' G ds ?T" by (rule represents_obtain [OF w(3)])
  have "represents (fs_init (fs_power_on (fs_disk s'))) ?T"
    by (rule representsI, rule fs_init_mount(2) [OF m]) (simp add: fs_power_on_def)
  moreover have "cwd_key (fs_init (fs_power_on (fs_disk s'))) = 0" by (simp add: fs_init_def Let_def cwd_key_def cwd_dir_def key_def)
  moreover have "cwd_key s' = 0" using same_cwd_key [OF w(2)] assms(2) by simp
  moreover have "cmd_cat (CHR '' '' # name) s1 = Some (content @ NL)" if "represents s1 ?T" "cwd_key s1 = 0" for s1
    by (rule cat_text [OF that(1) assms(9) _ assms(7,8) n]) (simp add: that(2) assms(3))
  ultimately show ?thesis using w(3) by (intro exI [of _ ?sy] conjI typed run_cat) simp_all
qed

lemma shell_write_cat_witness:
  "\<exists>sy'. run_command ''write A.TXT hello world'' \<lparr>s_fs = blank, s_timer = timer_initial, s_tasks = undefined, s_mmap = [],
      s_counter_task = 0, s_shell = shell_initial\<rparr> = Inr ([Print (''Write 11 bytes to A.TXT'' @ NL)], sy') \<and>
    map_sum id fst (run_command ''cat A.TXT'' sy') = Inr [Print (''hello world'' @ NL)]"
proof -
  let ?sy = "\<lparr>s_fs = blank, s_timer = timer_initial, s_tasks = undefined, s_mmap = [], s_counter_task = 0, s_shell = shell_initial\<rparr>"
  have R: "represents (s_fs ?sy) no_files" "cwd_key (s_fs ?sy) = 0" using blank_represents blank_cwd by simp_all
  have t: "tree_resolve no_files 0 ''A.TXT'' = Some (0, ''A.TXT'')" by (simp add: plain_resolve)
  have f: "write_fits (s_fs ?sy) 0 (no_files 0 (split_name ''A.TXT'')) (length ''hello world'')"
    using blank_room [of 1] by (simp add: write_fits_def)
  have "uint_string (of_nat (length ''hello world'')) = ''11''" by code_simp
  with shell_write_cat [OF R t names_ok(1) _ _ _ _ _ f] show ?thesis by (simp add: dir_of_def) blast
qed

end
