(* ===== verification/System.thy ===== *)
theory System
  imports Keyboard Kernel ShellFs
begin

text \<open>
  The running system: the keyboard interrupt, the timer interrupt and the shell task that polls the
  keyboard buffer, as events on one state. Whatever is typed, in whatever order the events come, every
  command returns and the invariants of the heap, the tasks and the volume are kept, except for the command \<open>reboot\<close>,
  which ends the run, and for the hundred millionth \<open>spawn\<close>. The commands run to their end between two events.
\<close>

section \<open>What can be typed\<close>

definition typable :: "string \<Rightarrow> bool" where
  "typable s \<longleftrightarrow> (\<forall>c \<in> set s. c \<noteq> CHR 0x00 \<and> (of_char c :: nat) < 128)"

lemma typable_simps [simp]: "typable []" "typable (c # s) \<longleftrightarrow> c \<noteq> CHR 0x00 \<and> (of_char c :: nat) < 128 \<and> typable s"
  "typable (s @ t) \<longleftrightarrow> typable s \<and> typable t"
  by (auto simp: typable_def)

lemma typable_part: "typable s \<Longrightarrow> set t \<subseteq> set s \<Longrightarrow> typable t"
  by (auto simp: typable_def)

lemma typable_take [intro]: "typable s \<Longrightarrow> typable (take n s)"
  and typable_drop [intro]: "typable s \<Longrightarrow> typable (drop n s)"
  and typable_butlast [intro]: "typable s \<Longrightarrow> typable (butlast s)"
  and typable_skip [intro]: "typable s \<Longrightarrow> typable (skip_space s)"
  and typable_cstr [intro]: "typable s \<Longrightarrow> typable (cstr s)"
  by (auto elim!: typable_part simp: skip_space_def cstr_def dest: in_set_takeD in_set_dropD in_set_butlastD set_takeWhileD
      intro: list.set_sel(2))

lemma typable_word:
  assumes "typable s" "first_word s = (w, r)"
  shows "typable w" "typable r" "length r \<le> length s"
  using assms typable_take [OF typable_part [OF assms(1), of "takeWhile (\<lambda>c. c \<noteq> CHR '' '') s"]]
  by (auto simp: first_word_def Let_def dest: set_takeWhileD)

text \<open>A name made of such characters never starts with a byte that marks an entry as unused.\<close>

lemma to_upper_ascii: "c \<noteq> CHR 0x00 \<Longrightarrow> (of_char c :: nat) < 128 \<Longrightarrow> (of_char (to_upper c) :: nat) < 128 \<and> to_upper c \<noteq> CHR 0x00"
  by (auto simp: to_upper_def of_char_of simp flip: of_char_eq_iff [where 'a = nat])

lemma typable_storable:
  assumes "typable path"
  shows "storable path"
proof -
  let ?leaf = "path_leaf path"
  have t: "typable ?leaf" using assms by (auto simp: path_leaf_def Let_def)
  let ?base = "takeWhile (\<lambda>c. c \<noteq> CHR ''.'') ?leaf"
  have "fst (split_name ?leaf) ! 0 = (if ?base = [] then 0x20 else byte_of (to_upper (hd ?base)))"
    by (cases ?base) (simp_all add: split_name_def Let_def padded_def space_def nth_append)
  moreover have "b \<noteq> 0 \<and> b \<noteq> 0xE5" if "?base \<noteq> []" "b = byte_of (to_upper (hd ?base))" for b
  proof -
    have "hd ?base \<in> set ?leaf" using that(1) hd_in_set set_takeWhileD by fastforce
    then have "hd ?base \<noteq> CHR 0x00 \<and> (of_char (hd ?base) :: nat) < 128" using t by (simp add: typable_def)
    from to_upper_ascii [OF conjunct1 [OF this] conjunct2 [OF this]] have "unat b < 128" "byte_of (to_upper (hd ?base)) \<noteq> byte_of (CHR 0x00)"
      by (simp_all add: that(2) unat_byte_of)
    moreover have "byte_of CHR 0x00 = 0" by (simp add: byte_of_def)
    ultimately show ?thesis using that(2) by auto
  qed
  ultimately show ?thesis by (auto simp: storable_def good_name_def)
qed

section \<open>Every command returns\<close>

text \<open>The file commands, on a consistent volume.\<close>

definition keeps_volume :: "(string \<times> fs) option \<Rightarrow> bool" where
  "keeps_volume r \<longleftrightarrow> (\<exists>out f T. r = Some (out, f) \<and> represents f T)"

lemma file_commands:
  assumes R: "represents f T" and t: "typable args" and n: "length args \<le> 257"
  shows "keeps_volume (cmd_write args f)" "keeps_volume (cmd_append args f)" "keeps_volume (cmd_delete args f)"
    "keeps_volume (cmd_mv args f)" "keeps_volume (cmd_mkdir args f)" "keeps_volume (cmd_rmdir args f)"
    "keeps_volume (cmd_cd args f)"
proof -
  note sk = typable_storable [OF typable_skip [OF t]]
  obtain w r where w: "first_word (skip_space args) = (w, r)" by fastforce
  note tw = typable_word [OF typable_skip [OF t] w]
  have len: "length (skip_space xs) \<le> length xs" for xs by (simp add: skip_space_def)
  have n': "length (map byte_of (skip_space r)) \<le> 0xFFFFFE00" using len [of r] tw(3) len [of args] n by simp
  show "keeps_volume (cmd_write args f)"
    using write_kept [OF R typable_storable [OF tw(1)] n'] R
    by (auto simp: cmd_write_def w keeps_volume_def Let_def)
  show "keeps_volume (cmd_append args f)"
    using append_kept [OF R typable_storable [OF tw(1)], of "map byte_of (skip_space r)"] R
    by (auto simp: cmd_append_def w keeps_volume_def Let_def)
  show "keeps_volume (cmd_mv args f)"
    using rename_kept [OF R typable_storable [OF typable_skip [OF tw(2)]], of w] R
    by (auto simp: cmd_mv_def w keeps_volume_def Let_def)
  show "keeps_volume (cmd_delete args f)"
    using delete_kept [OF R, of "skip_space args"] R by (auto simp: cmd_delete_def keeps_volume_def Let_def)
  show "keeps_volume (cmd_mkdir args f)"
    using mkdir_kept [OF R sk] R by (auto simp: cmd_mkdir_def keeps_volume_def Let_def)
  show "keeps_volume (cmd_rmdir args f)"
    using rmdir_kept [OF R, of "skip_space args"] R by (auto simp: cmd_rmdir_def keeps_volume_def Let_def)
  show "keeps_volume (cmd_cd args f)"
    using chdir_kept [OF R, of "skip_space args"] R by (auto simp: cmd_cd_def keeps_volume_def Let_def)
qed

lemma stat_returns: "represents f T \<Longrightarrow> \<exists>r. fs_stat path f = Some r"
proof -
  assume "represents f T"
  then obtain G ds where m: "models f G ds T" by (rule represents_obtain)
  show ?thesis using m by (cases rule: entry_cases [where path = path]) (auto simp: fs_stat_def split_beta)
qed

lemma query_commands:
  assumes R: "represents f T"
  shows "\<exists>out. cmd_cat args f = Some out" "\<exists>out. cmd_stat args f = Some out" "\<exists>out. cmd_ls f = Some out"
proof -
  show "\<exists>out. cmd_cat args f = Some out" by (simp add: cmd_cat_def Let_def read_tree [OF R])
  show "\<exists>out. cmd_stat args f = Some out" using stat_returns [OF R, of "skip_space args"] by (auto simp: cmd_stat_def Let_def)
  obtain G ds where "models f G ds T" by (rule represents_obtain [OF R])
  from fs_list_models [OF this] show "\<exists>out. cmd_ls f = Some out" by (auto simp: cmd_ls_def)
qed

text \<open>The task and heap commands.\<close>

lemma meminfo_returns:
  assumes "task_inv lo hi s"
  shows "\<exists>out. cmd_meminfo (theap s) = Some out"
proof -
  obtain bs where "heap_rep lo hi (theap s) bs" using assms by (auto simp: task_inv_def heap_owns_def)
  then show ?thesis by (auto simp: cmd_meminfo_def kmalloc_stats_def heap_rep_def stats_from_eq)
qed

lemma kill_command:
  assumes "task_inv lo hi s"
  shows "\<exists>out s'. cmd_kill args s = Some (out, s') \<and> task_inv lo hi s'"
  using kill_inv [OF assms, of "parse_id (takeWhile is_digit (skip_space args))"] assms by (auto simp: cmd_kill_def Let_def)

section \<open>Every line returns\<close>

text \<open>The invariant of the state that the shell works on; the heap lies in \<open>[lo, hi)\<close>.\<close>

definition sys_ok :: "nat \<Rightarrow> nat \<Rightarrow> sys \<Rightarrow> bool" where
  "sys_ok lo hi s \<longleftrightarrow> (\<exists>T. represents (s_fs s) T) \<and> task_inv lo hi (s_tasks s)
     \<and> length (history (s_shell s)) = HISTORY_SIZE \<and> history_count (s_shell s) \<le> HISTORY_SIZE
     \<and> 0 \<le> sint (spawn_count (s_shell s)) \<and> sint (spawn_count (s_shell s)) \<le> 99999999"

definition returns_ok :: "nat \<Rightarrow> nat \<Rightarrow> stop + (console_op list \<times> sys) \<Rightarrow> bool" where
  "returns_ok lo hi r \<longleftrightarrow> (\<exists>out s. r = Inr (out, s) \<and> sys_ok lo hi s)"

lemma returns_if: "returns_ok lo hi a \<Longrightarrow> returns_ok lo hi b \<Longrightarrow> returns_ok lo hi (if c then a else b)"
  by simp

lemma returns_here: "sys_ok lo hi s \<Longrightarrow> returns_ok lo hi (Inr (out, s))"
  by (simp add: returns_ok_def)

lemma returns_says: "sys_ok lo hi s \<Longrightarrow> \<exists>out. r = Some out \<Longrightarrow> returns_ok lo hi (says s r)"
  by (auto simp: returns_ok_def says_def)

lemma returns_on_fs: "sys_ok lo hi s \<Longrightarrow> keeps_volume r \<Longrightarrow> returns_ok lo hi (on_fs s r)"
  by (auto simp: returns_ok_def on_fs_def keeps_volume_def sys_ok_def)

lemma returns_kill:
  assumes "sys_ok lo hi s"
  shows "returns_ok lo hi (map_sum id (\<lambda>(out, ts). ([Print out], s\<lparr>s_tasks := ts\<rparr>)) (returning (cmd_kill args (s_tasks s))))"
proof -
  have "task_inv lo hi (s_tasks s)" using assms by (simp add: sys_ok_def)
  from kill_command [OF this, of args] assms show ?thesis by (auto simp: returns_ok_def sys_ok_def)
qed

lemma returns_spawn:
  assumes ok: "sys_ok lo hi s" and n: "sint (spawn_count (s_shell s)) \<noteq> 99999999"
  shows "returns_ok lo hi (map_sum id (\<lambda>(out, s). ([Print out], s)) (cmd_spawn s))"
proof -
  have c: "sint (spawn_count (s_shell s) + 1) = sint (spawn_count (s_shell s)) + 1" by (rule sint_inc) (use ok in \<open>simp add: sys_ok_def\<close>)
  then obtain nm where nm: "spawn_name (sint (spawn_count (s_shell s) + 1)) = Some nm"
    using spawn_name_bound [of "sint (spawn_count (s_shell s) + 1)"] ok n
    by (cases "spawn_name (sint (spawn_count (s_shell s) + 1))") (simp_all add: sys_ok_def)
  have "task_inv lo hi (s_tasks s)" using ok by (simp add: sys_ok_def)
  from create_inv [OF this, of "s_counter_task s" nm] ok n c show ?thesis
    by (auto simp: returns_ok_def sys_ok_def cmd_spawn_def Let_def nm [unfolded c])
qed

lemma history_add_ok: "sys_ok lo hi s \<Longrightarrow> sys_ok lo hi (s\<lparr>s_shell := history_add line (s_shell s)\<rparr>)"
proof -
  have "length (fold (\<lambda>i h. h[i := str_copy_n (h ! (i + 1)) LINE_BUF_SIZE]) is h) = length h" for "is" h
    by (induction "is" arbitrary: h) auto
  then show "sys_ok lo hi s \<Longrightarrow> sys_ok lo hi (s\<lparr>s_shell := history_add line (s_shell s)\<rparr>)"
    by (simp add: sys_ok_def history_add_def Let_def)
qed

lemma history_add_spawn_count [simp]: "spawn_count (history_add line sh) = spawn_count sh"
  by (simp add: history_add_def Let_def)

text \<open>The two lines that do not come back, and all others.\<close>

definition last_line :: "string \<Rightarrow> sys \<Rightarrow> stop \<Rightarrow> bool" where
  "last_line line s st \<longleftrightarrow> line = ''reboot'' \<and> st = Reboots \<or>
     line = ''spawn'' \<and> sint (spawn_count (s_shell s)) = 99999999 \<and> st = Overruns"

lemma run_last_line:
  assumes "last_line line s st"
  shows "run_command line s = Inl st"
  using assms unfolding last_line_def
proof (elim disjE conjE)
  assume "line = ''reboot''" "st = Reboots"
  then show ?thesis by (simp add: run_command_def is_cmd_def Let_def)
next
  assume l: "line = ''spawn''" "st = Overruns" and n: "sint (spawn_count (s_shell s)) = 99999999"
  have "cmd_spawn (s\<lparr>s_shell := history_add ''spawn'' (s_shell s)\<rparr>) = Inl Overruns" by (rule spawn_overruns) (simp add: n)
  with l show ?thesis by (simp add: run_command_def is_cmd_def Let_def)
qed

lemma run_command_returns:
  assumes ok: "sys_ok lo hi s" and t: "typable line" "length line \<le> 257" and last: "\<forall>st. \<not> last_line line s st"
  shows "returns_ok lo hi (run_command line s)"
proof -
  let ?s = "s\<lparr>s_shell := history_add line (s_shell s)\<rparr>"
  have ok': "sys_ok lo hi ?s" by (rule history_add_ok [OF ok])
  obtain T where R: "represents (s_fs ?s) T" using ok by (auto simp: sys_ok_def)
  have files: "keeps_volume (cmd_write (drop n line) (s_fs ?s))" "keeps_volume (cmd_append (drop n line) (s_fs ?s))"
    "keeps_volume (cmd_delete (drop n line) (s_fs ?s))" "keeps_volume (cmd_mv (drop n line) (s_fs ?s))"
    "keeps_volume (cmd_mkdir (drop n line) (s_fs ?s))" "keeps_volume (cmd_rmdir (drop n line) (s_fs ?s))"
    "keeps_volume (cmd_cd (drop n line) (s_fs ?s))" for n
    using file_commands [OF R typable_drop [OF t(1)]] t(2) by simp_all
  have "task_inv lo hi (s_tasks ?s)" using ok' by (simp add: sys_ok_def)
  from meminfo_returns [OF this] have mem: "\<exists>out. cmd_meminfo (theap (s_tasks ?s)) = Some out"
    "\<exists>out. cmd_info ?s = Some out" "\<exists>out. debug ?s = Some out" by (auto simp: cmd_info_def debug_def)
  have some: "\<exists>out. Some x = Some out" for x :: string by simp
  have reboot: "str_eq line ''reboot'' = False" using last by (auto simp: last_line_def)
  have spawn: "returns_ok lo hi (if str_eq line ''spawn'' then map_sum id (\<lambda>(out, s). ([Print out], s)) (cmd_spawn ?s) else r)"
    if "returns_ok lo hi r" for r
  proof (cases "line = ''spawn''")
    case True
    then have "sint (spawn_count (s_shell ?s)) \<noteq> 99999999" using last by (simp add: last_line_def)
    from returns_spawn [OF ok' this] True show ?thesis by simp
  qed (simp add: that)
  show ?thesis
    unfolding run_command_def Let_def reboot if_False
    by (intro spawn returns_if returns_here [OF ok] returns_here [OF ok'] returns_says [OF ok'] returns_on_fs [OF ok'] some mem files
        query_commands [OF R] returns_kill [OF ok'])
qed

lemma shell_key_returns:
  assumes ok: "sys_ok lo hi s" and t: "typable line" "length line \<le> 257" and c: "typable [c]"
    and last: "c = CHR 0x0A \<Longrightarrow> \<forall>st. \<not> last_line line s st"
  shows "\<exists>out line' s'. shell_key c (line, s) = Inr (out, line', s') \<and> sys_ok lo hi s' \<and> typable line' \<and> length line' \<le> 257"
proof (cases "c = CHR 0x0A")
  case True
  have "cstr line = line" by (rule cstr_id) (use t(1) in \<open>auto simp: typable_def\<close>)
  with run_command_returns [OF ok t last [OF True]] True show ?thesis by (auto simp: returns_ok_def shell_key_def)
next
  case False
  with ok t c show ?thesis by (auto simp: shell_key_def LINE_BUF_SIZE_def)
qed

section \<open>The system\<close>

text \<open>The keyboard driver, the shell's line buffer, and everything that the commands work on. An event is a byte
  from the keyboard with its interrupt, a round of the shell's loop (which sleeps when no key is pending), or a
  timer interrupt that finds the given stack pointer.\<close>

record system =
  y_keyboard :: keyboard
  y_line :: string
  y_sys :: sys

datatype event = Scancode u8 | Shell_round | Timer_interrupt u32

fun system_step :: "event \<Rightarrow> system \<Rightarrow> stop + (console_op list \<times> system)" where
  "system_step (Scancode b) y = Inr ([], y\<lparr>y_keyboard := fst (keyboard_handler b (y_keyboard y))\<rparr>)"
| "system_step Shell_round y =
     (case keyboard_getchar (y_keyboard y) of
        None \<Rightarrow> Inr ([], y)
      | Some (c, k) \<Rightarrow>
          map_sum id (\<lambda>(out, line, s). (out, y\<lparr>y_keyboard := k, y_line := line, y_sys := s\<rparr>)) (shell_key c (y_line y, y_sys y)))"
| "system_step (Timer_interrupt esp) y =
     map_sum id (\<lambda>(t, out, switched, ts). ([], y\<lparr>y_sys := (y_sys y)\<lparr>s_timer := t, s_tasks := ts\<rparr>\<rparr>))
       (returning (timer_handler esp (s_timer (y_sys y)) (s_tasks (y_sys y))))"

text \<open>A run collects what is printed; it ends with the first event whose handling does not end.\<close>

fun system_run :: "event list \<Rightarrow> system \<Rightarrow> stop + (console_op list \<times> system)" where
  "system_run [] y = Inr ([], y)"
| "system_run (e # es) y =
     (case system_step e y of Inl st \<Rightarrow> Inl st | Inr (out, y) \<Rightarrow>
        map_sum id (\<lambda>(out', y). (out @ out', y)) (system_run es y))"

lemma system_run_append: "system_run (es @ fs) y =
    (case system_run es y of Inl st \<Rightarrow> Inl st | Inr (o1, z) \<Rightarrow> map_sum id (\<lambda>(out, w). (o1 @ out, w)) (system_run fs z))"
proof (induction es arbitrary: y)
  case Nil
  then show ?case using map_sum_nil [of "system_run fs y"] by simp
next
  case (Cons e es)
  show ?case
  proof (cases "system_step e y")
    case (Inr p)
    obtain out z where p: "p = (out, z)" by (cases p)
    show ?thesis using Cons.IH [of z] by (cases "system_run es z") (auto simp: Inr p map_sum_twice case_prod_unfold)
  qed simp
qed

definition system_ok :: "nat \<Rightarrow> nat \<Rightarrow> system \<Rightarrow> bool" where
  "system_ok lo hi y \<longleftrightarrow> keyboard_wf (y_keyboard y) \<and> typable (pending (y_keyboard y))
     \<and> typable (y_line y) \<and> length (y_line y) \<le> 257 \<and> sys_ok lo hi (y_sys y)"

lemma keyboard_maps_typable: "c \<in> set keyboard_map \<union> set keyboard_map_shift \<Longrightarrow> (of_char c :: nat) < 128"
proof -
  have "list_all (\<lambda>c. (of_char c :: nat) < 128) (keyboard_map @ keyboard_map_shift)" by code_simp
  then show "c \<in> set keyboard_map \<union> set keyboard_map_shift \<Longrightarrow> (of_char c :: nat) < 128" by (auto simp: list_all_iff)
qed

lemma keyboard_handler_ok:
  assumes k: "keyboard_wf k" "typable (pending k)"
  shows "keyboard_wf (fst (keyboard_handler b k)) \<and> typable (pending (fst (keyboard_handler b k)))" (is "?P (fst (keyboard_handler b k))")
proof -
  have flags: "?P k" "?P (k\<lparr>shift_pressed := x\<rparr>)" "?P (k\<lparr>capslock_on := x\<rparr>)" for x
    using k by (simp_all add: keyboard_wf_def pending_def pending_count_def)
  let ?m = "keyboard_map ! unat b" and ?s = "keyboard_map_shift ! unat b"
  define c where "c = (if capslock_on k \<and> is_letter ?m then (if shift_pressed k then ?m else ?s)
    else (if shift_pressed k then ?s else ?m))"
  have push: "?P (keyboard_push c k)" if "c \<noteq> CHR 0x00" "b < 128"
  proof -
    have "unat b < 128" using that(2) by (simp add: word_less_nat_alt)
    then have "c \<in> set keyboard_map \<union> set keyboard_map_shift" by (auto simp: length_keyboard_map c_def)
    with keyboard_maps_typable that(1) k show ?thesis by (simp add: kbd.push_invar kbd.push_contents)
  qed
  have "fst (keyboard_handler b k) =
    (if b = SC_LSHIFT_DOWN \<or> b = SC_RSHIFT_DOWN then k\<lparr>shift_pressed := True\<rparr>
     else if b = SC_LSHIFT_UP \<or> b = SC_RSHIFT_UP then k\<lparr>shift_pressed := False\<rparr>
     else if b = SC_CAPSLOCK then k\<lparr>capslock_on := \<not> capslock_on k\<rparr>
     else if b AND 0x80 \<noteq> 0 then k
     else if b < 128 then if c \<noteq> CHR 0x00 then keyboard_push c k else k
     else k)"
    unfolding keyboard_handler_def Let_def c_def by (simp only: if_distrib [of fst] fst_conv)
  then show ?thesis using flags push by (simp only: split: if_split) blast
qed

text \<open>The round of the shell that does not end: Enter after one of the two lines.\<close>

definition last_round :: "event \<Rightarrow> system \<Rightarrow> stop \<Rightarrow> bool" where
  "last_round e y st \<longleftrightarrow> e = Shell_round \<and> (\<exists>k. keyboard_getchar (y_keyboard y) = Some (CHR 0x0A, k)) \<and> last_line (y_line y) (y_sys y) st"

lemma system_step_ok:
  assumes "system_ok lo hi y"
  shows "(\<exists>out y'. system_step e y = Inr (out, y') \<and> system_ok lo hi y') \<or> (\<exists>st. system_step e y = Inl st \<and> last_round e y st)"
proof (cases e)
  case (Scancode b)
  with keyboard_handler_ok [of "y_keyboard y" b] assms show ?thesis by (auto simp: system_ok_def)
next
  case Shell_round
  show ?thesis
  proof (cases "keyboard_getchar (y_keyboard y)")
    case None
    with Shell_round assms show ?thesis by simp
  next
    case (Some p)
    obtain c k where p: "p = (c, k)" by (cases p)
    have k: "pending (y_keyboard y) = c # pending k" "keyboard_wf k"
      using getchar_Some [of "y_keyboard y" c k] Some p assms by (simp_all add: system_ok_def)
    then have ok: "sys_ok lo hi (y_sys y)" "typable (y_line y)" "length (y_line y) \<le> 257" "typable [c]" "typable (pending k)"
      using assms by (simp_all add: system_ok_def)
    show ?thesis
    proof (cases "c = CHR 0x0A \<and> (\<exists>st. last_line (y_line y) (y_sys y) st)")
      case True
      then obtain st where st: "last_line (y_line y) (y_sys y) st" by blast
      have "cstr (y_line y) = y_line y" by (rule cstr_id) (use ok(2) in \<open>auto simp: typable_def\<close>)
      with run_last_line [OF st] True have "shell_key c (y_line y, y_sys y) = Inl st" by (simp add: shell_key_def)
      with True Some p st Shell_round show ?thesis by (auto simp: last_round_def)
    next
      case False
      with shell_key_returns [OF ok(1-4)] Shell_round Some p k(2) ok(5) show ?thesis by (force simp: system_ok_def)
    qed
  qed
next
  case (Timer_interrupt esp)
  have "task_inv lo hi (s_tasks (y_sys y))" using assms by (simp add: system_ok_def sys_ok_def)
  from timer_handler_total [OF this, of esp "s_timer (y_sys y)"] assms Timer_interrupt show ?thesis
    by (auto simp: system_ok_def sys_ok_def)
qed

text \<open>A run comes to its end or stops in such a round, in a state that is still in order.\<close>

lemma system_run_ok:
  "system_ok lo hi y \<Longrightarrow> (\<exists>out y'. system_run es y = Inr (out, y') \<and> system_ok lo hi y') \<or>
    (\<exists>es1 e es2 out y' st. es = es1 @ e # es2 \<and> system_run es1 y = Inr (out, y') \<and> system_ok lo hi y' \<and> last_round e y' st
       \<and> system_run es y = Inl st)"
proof (induction es rule: rev_induct)
  case (snoc e es)
  from snoc.IH [OF snoc.prems] show ?case
  proof (elim disjE exE conjE)
    fix out y' assume y': "system_run es y = Inr (out, y')" "system_ok lo hi y'"
    from system_step_ok [OF y'(2), of e] show ?thesis
    proof (elim disjE exE conjE)
      fix out2 z assume "system_step e y' = Inr (out2, z)" "system_ok lo hi z"
      with y'(1) show ?thesis by (simp add: system_run_append)
    next
      fix st assume "system_step e y' = Inl st" "last_round e y' st"
      with y' show ?thesis by (intro disjI2 exI [of _ es] exI [of _ e] exI [of _ "[]"] exI [of _ out] exI [of _ y'] exI [of _ st])
          (simp add: system_run_append)
    qed
  next
    fix es1 e1 es2 out y' st
    assume *: "es = es1 @ e1 # es2" "system_run es1 y = Inr (out, y')" "system_ok lo hi y'" "last_round e1 y' st" "system_run es y = Inl st"
    then have "es @ [e] = es1 @ e1 # (es2 @ [e])" "system_run (es @ [e]) y = Inl st" by (simp_all only: system_run_append sum.case) simp
    with *(2-4) show ?thesis by blast
  qed
qed simp

section \<open>From boot on\<close>

lemma boot_sys_ok:
  assumes a: "0 < a_bss_end a" "a_bss_end a \<le> 0x80000" "controller_law P waiting"
    and fs: "represents (fs_init (s_fs (m_sys m))) T" and sh: "s_shell (m_sys m) = shell_initial"
  obtains line m' d' where "boot P a m d = Some (line, m', d')"
    "sys_ok (unat (a_bss_end a)) (unat (find_heap_end (a_bss_end a) (s_mmap (m_sys m)))) (m_sys m')"
proof -
  let ?inv = "task_inv (unat (a_bss_end a)) (unat (find_heap_end (a_bss_end a) (s_mmap (m_sys m))))"
  obtain line m' d' p q s1 s2 h xs where b: "boot P a m d = Some (line, m', d')"
    "task_create_named (a_kernel a) ''kernel'' (boot_tasking (a_bss_end a) (s_mmap (m_sys m)) (s_tasks (m_sys m))) = Some (0, s1)"
    "task_create_named (a_shell_task a) ''shell'' s1 = Some (1, s2)" "kmalloc 258 (theap s2) = Some (line, h)"
    "m_sys m' = (m_sys m)\<lparr>s_fs := fs_init (s_fs (m_sys m)), s_tasks := s2\<lparr>theap := h\<rparr>\<rparr>"
    by (rule boot_steps [OF a])
  have "?inv (boot_tasking (a_bss_end a) (s_mmap (m_sys m)) (s_tasks (m_sys m)))" by (rule boot_tasking_inv [OF a(1,2)])
  from create_inv [OF this, of "a_kernel a" "''kernel''"] b(2) have "?inv s1" by simp
  from create_inv [OF this, of "a_shell_task a" "''shell''"] b(3) have "?inv s2" by simp
  from reserve_inv [OF this, of 258] b(4) have "?inv (s2\<lparr>theap := h\<rparr>)" by simp
  with fs sh have "sys_ok (unat (a_bss_end a)) (unat (find_heap_end (a_bss_end a) (s_mmap (m_sys m)))) (m_sys m')"
    by (auto simp: b(5) sys_ok_def shell_initial_def)
  then show thesis by (rule that [OF b(1)])
qed

definition system_start :: "machine \<Rightarrow> system" where
  "system_start m = \<lparr>y_keyboard = keyboard_initial, y_line = [], y_sys = m_sys m\<rparr>"

lemma system_start_ok:
  "sys_ok lo hi (m_sys m) \<Longrightarrow> system_ok lo hi (system_start m)"
  "pending (y_keyboard (system_start m)) = []"
proof -
  show "pending (y_keyboard (system_start m)) = []"
    by (simp add: system_start_def pending_def pending_count_def keyboard_initial_def KEYBOARD_BUFFER_SIZE_def)
  then show "sys_ok lo hi (m_sys m) \<Longrightarrow> system_ok lo hi (system_start m)"
    by (simp add: system_ok_def system_start_def keyboard_wf_initial)
qed

text \<open>What holds of the system between two events.\<close>

definition system_sound :: "nat \<Rightarrow> nat \<Rightarrow> system \<Rightarrow> bool" where
  "system_sound lo hi y \<longleftrightarrow> (\<exists>T. represents (s_fs (y_sys y)) T) \<and> length (y_line y) < LINE_BUF_SIZE \<and>
     (let ts = s_tasks (y_sys y) in
        task_wf ts \<and>
        (\<exists>L. heap_owns lo hi (theap ts) L \<and> (\<forall>i. task_used ts i \<longrightarrow> stack_of ts i \<noteq> 0 \<longrightarrow> (\<exists>m \<ge> 16384. (stack_of ts i, m) \<in> L))) \<and>
        (\<forall>i j. task_used ts i \<and> task_used ts j \<and> i \<noteq> j \<and> stack_of ts i \<noteq> 0 \<and> stack_of ts j \<noteq> 0 \<longrightarrow>
           unat (stack_of ts i) + 16384 < unat (stack_of ts j) \<or> unat (stack_of ts j) + 16384 < unat (stack_of ts i)))"

lemma system_ok_sound: "system_ok lo hi y \<Longrightarrow> system_sound lo hi y"
proof -
  assume ok: "system_ok lo hi y"
  let ?ts = "s_tasks (y_sys y)"
  have y: "\<exists>T. represents (s_fs (y_sys y)) T" "length (y_line y) < LINE_BUF_SIZE" "task_inv lo hi ?ts"
    using ok by (auto simp: system_ok_def sys_ok_def LINE_BUF_SIZE_def)
  obtain L where L: "heap_owns lo hi (theap ?ts) L" "stacks_owned ?ts L" and wf: "task_wf ?ts" using y(3) by (auto simp: task_inv_def)
  show ?thesis
    unfolding system_sound_def Let_def using y(1,2) wf L(1) stacks_owned_live [OF L(2)] stacks_apart [OF y(3)] by blast
qed

text \<open>C1. On every machine whose kernel image ends by \<open>0x80000\<close>, with an unformatted disk or one that the system has used
  before, the boot sequence completes. Then, whatever bytes the keyboard sends, however the keyboard interrupts, the
  shell's reading and the timer interrupts are interleaved, every handler and every command returns, with two
  exceptions, both in a round of the shell that reads Enter: after the line \<open>reboot\<close>, which never returns, and after the
  line \<open>spawn\<close> when it has been given 99999999 times before, which overruns the array of its digits. After every event, and also
  when the run ends with one of these two, the volume is consistent, the task table well formed, the heap a list of
  blocks that tile its range, in which the stack of every live task is a region of its own (unless its creation
  found the heap exhausted and it has the stack base NULL), and the line buffer not overrun.\<close>
theorem system_never_hangs:
  assumes "0 < a_bss_end a" "a_bss_end a \<le> 0x80000" "controller_law P waiting" "root_wf (s_fs (m_sys m))"
    and "\<not> is_formatted (fs_disk (s_fs (m_sys m)) (of_nat FS_BOOT_LBA)) \<or> (\<exists>s T. represents s T \<and> fs_disk (s_fs (m_sys m)) = fs_disk s)"
    and "s_shell (m_sys m) = shell_initial"
  shows "\<exists>line m' d'. boot P a m d = Some (line, m', d') \<and>
    (let lo = unat (a_bss_end a); hi = unat (find_heap_end (a_bss_end a) (s_mmap (m_sys m)))
     in \<forall>es. (\<exists>out y. system_run es (system_start m') = Inr (out, y) \<and> system_sound lo hi y) \<or>
       (\<exists>es1 es2 out y. es = es1 @ Shell_round # es2 \<and> system_run es1 (system_start m') = Inr (out, y) \<and> system_sound lo hi y \<and>
          (\<exists>k. keyboard_getchar (y_keyboard y) = Some (CHR 0x0A, k)) \<and>
          (y_line y = ''reboot'' \<and> system_run es (system_start m') = Inl Reboots \<or>
           y_line y = ''spawn'' \<and> sint (spawn_count (s_shell (y_sys y))) = 99999999 \<and> system_run es (system_start m') = Inl Overruns)))"
proof -
  let ?lo = "unat (a_bss_end a)" and ?hi = "unat (find_heap_end (a_bss_end a) (s_mmap (m_sys m)))"
  have "\<exists>T. represents (fs_init (s_fs (m_sys m))) T"
    using assms(5)
  proof (elim disjE exE conjE)
    assume "\<not> is_formatted (fs_disk (s_fs (m_sys m)) (of_nat FS_BOOT_LBA))"
    then have "models (fs_init (s_fs (m_sys m))) Map.empty {} no_files" by (intro fs_init_blank [OF assms(4)]) simp
    then show ?thesis by (blast intro: representsI)
  next
    fix s T assume R: "represents s T" "fs_disk (s_fs (m_sys m)) = fs_disk s"
    obtain G ds where "models s G ds T" by (rule represents_obtain [OF R(1)])
    from fs_init_mount(2) [OF this R(2)] show ?thesis by (blast intro: representsI)
  qed
  then obtain T where T: "represents (fs_init (s_fs (m_sys m))) T" ..
  obtain line m' d' where b: "boot P a m d = Some (line, m', d')" "sys_ok ?lo ?hi (m_sys m')"
    by (rule boot_sys_ok [OF assms(1-3) T assms(6)])
  note run = system_run_ok [OF system_start_ok(1) [OF b(2)]]
  show ?thesis
    unfolding Let_def
  proof (intro exI [of _ line] exI [of _ m'] exI [of _ d'] conjI allI b(1))
    fix es
    show "(\<exists>out y. system_run es (system_start m') = Inr (out, y) \<and> system_sound ?lo ?hi y) \<or>
       (\<exists>es1 es2 out y. es = es1 @ Shell_round # es2 \<and> system_run es1 (system_start m') = Inr (out, y) \<and> system_sound ?lo ?hi y \<and>
          (\<exists>k. keyboard_getchar (y_keyboard y) = Some (CHR 0x0A, k)) \<and>
          (y_line y = ''reboot'' \<and> system_run es (system_start m') = Inl Reboots \<or>
           y_line y = ''spawn'' \<and> sint (spawn_count (s_shell (y_sys y))) = 99999999 \<and> system_run es (system_start m') = Inl Overruns))"
      using run [of es]
    proof (elim disjE exE conjE)
      fix out y assume "system_run es (system_start m') = Inr (out, y)" "system_ok ?lo ?hi y"
      with system_ok_sound show ?thesis by blast
    next
      fix es1 e es2 out y st
      assume "es = es1 @ e # es2" "system_run es1 (system_start m') = Inr (out, y)" "system_ok ?lo ?hi y" "last_round e y st"
        "system_run es (system_start m') = Inl st"
      with system_ok_sound show ?thesis unfolding last_round_def last_line_def by blast
    qed
  qed
qed

text \<open>The machine at power on, with an empty disk and two bytes in the keyboard controller: no run hangs.\<close>

lemma system_never_hangs_witness:
  "\<exists>line m' d'. boot queue_ports \<lparr>a_bss_end = 0x12000, a_idt = 0x11000, a_keyboard_stub = 0x1100, a_timer_stub = 0x1200,
      a_kernel = 0x1300, a_shell_task = 0x1400\<rparr> (power_on\<lparr>m_sys := (m_sys power_on)\<lparr>s_fs := fs_power_on (\<lambda>lba. zero_sector)\<rparr>\<rparr>) [0xFA, 0x1E]
        = Some (line, m', d') \<and>
    (\<exists>out y. system_run [] (system_start m') = Inr (out, y) \<and> (\<exists>T. represents (s_fs (y_sys y)) T)) \<and>
    (\<forall>es. system_run es (system_start m') \<noteq> Inl Hangs)"
proof -
  let ?a = "\<lparr>a_bss_end = 0x12000, a_idt = 0x11000, a_keyboard_stub = 0x1100, a_timer_stub = 0x1200, a_kernel = 0x1300,
      a_shell_task = 0x1400\<rparr>"
  let ?m = "power_on\<lparr>m_sys := (m_sys power_on)\<lparr>s_fs := fs_power_on (\<lambda>lba. zero_sector)\<rparr>\<rparr>"
  have "0 < a_bss_end ?a" "a_bss_end ?a \<le> 0x80000" by simp_all
  moreover have "root_wf (s_fs (m_sys ?m))" using fs_power_on_wf by simp
  moreover have "\<not> is_formatted (fs_disk (s_fs (m_sys ?m)) (of_nat FS_BOOT_LBA)) \<or> (\<exists>s T. represents s T \<and> fs_disk (s_fs (m_sys ?m)) = fs_disk s)"
    using blank_unformatted by simp
  moreover have "s_shell (m_sys ?m) = shell_initial" by (simp add: power_on_def)
  ultimately obtain line m' d' lo hi where b: "boot queue_ports ?a ?m [0xFA, 0x1E] = Some (line, m', d')"
    and run: "\<forall>es. (\<exists>out y. system_run es (system_start m') = Inr (out, y) \<and> system_sound lo hi y) \<or>
      system_run es (system_start m') = Inl Reboots \<or> system_run es (system_start m') = Inl Overruns"
    using system_never_hangs [of ?a queue_ports length ?m "[0xFA, 0x1E]"] queue_ports_law unfolding Let_def by blast
  have "system_run es (system_start m') \<noteq> Inl Hangs" for es using spec [OF run, of es] by auto
  moreover have "\<exists>out y. system_run [] (system_start m') = Inr (out, y) \<and> (\<exists>T. represents (s_fs (y_sys y)) T)"
    using spec [OF run, of "[]"] by (simp add: system_sound_def)
  ultimately show ?thesis using b by blast
qed

end
