(* ===== verification/Session.thy ===== *)
theory Session
  imports System
begin

text \<open>
  From the keyboard to the command: what a sequence of key presses types, and that the interrupt handler, the ring
  buffer and the shell's loop together deliver exactly that, whenever the interrupts come.
\<close>

section \<open>What is typed\<close>

text \<open>The state of the modifier keys (shift, caps lock) and how a byte from the keyboard changes it.\<close>

type_synonym modifiers = "bool \<times> bool"

definition modify :: "u8 \<Rightarrow> modifiers \<Rightarrow> modifiers" where
  "modify b m =
     (if b = SC_LSHIFT_DOWN \<or> b = SC_RSHIFT_DOWN then (True, snd m)
      else if b = SC_LSHIFT_UP \<or> b = SC_RSHIFT_UP then (False, snd m)
      else if b = SC_CAPSLOCK then (fst m, \<not> snd m) else m)"

text \<open>The character of a key: letters are upper case when exactly one of shift and caps lock is on, the other keys look
  at shift alone; key releases and keys without a character type nothing.\<close>

definition key_chars :: "u8 \<Rightarrow> modifiers \<Rightarrow> string" where
  "key_chars b m =
     (let plain = keyboard_map ! unat b; shifted = keyboard_map_shift ! unat b;
          c = (if (if is_letter plain then fst m \<noteq> snd m else fst m) then shifted else plain)
      in if b < 128 \<and> c \<noteq> CHR 0x00 then [c] else [])"

fun typed :: "modifiers \<Rightarrow> u8 list \<Rightarrow> string" where
  "typed m [] = []"
| "typed m (b # bs) = key_chars b m @ typed (modify b m) bs"

definition modifiers_of :: "keyboard \<Rightarrow> modifiers" where
  "modifiers_of k = (shift_pressed k, capslock_on k)"

lemma modifiers_push [simp]: "modifiers_of (keyboard_push c k) = modifiers_of k"
  by (simp add: modifiers_of_def keyboard_push_def Let_def)

lemma modifier_no_chars:
  assumes "b = SC_LSHIFT_DOWN \<or> b = SC_RSHIFT_DOWN \<or> b = SC_LSHIFT_UP \<or> b = SC_RSHIFT_UP \<or> b = SC_CAPSLOCK"
  shows "key_chars b m = []"
  using assms by (elim disjE) (simp_all add: key_chars_def scancode_defs keyboard_map_def keyboard_map_shift_def Let_def)

lemma release_no_chars: "b AND 0x80 \<noteq> 0 \<Longrightarrow> key_chars b m = []"
  using release_bit_clear [of b] by (auto simp: key_chars_def Let_def)

lemma handler_keys:
  "fst (keyboard_handler b k) = (case key_chars b (modifiers_of k) of [] \<Rightarrow> k | c # _ \<Rightarrow> keyboard_push c k)
     \<lparr>shift_pressed := fst (modify b (modifiers_of k)), capslock_on := snd (modify b (modifiers_of k))\<rparr>"
proof -
  consider "b = SC_LSHIFT_DOWN \<or> b = SC_RSHIFT_DOWN \<or> b = SC_LSHIFT_UP \<or> b = SC_RSHIFT_UP \<or> b = SC_CAPSLOCK"
    | "\<not> (b = SC_LSHIFT_DOWN \<or> b = SC_RSHIFT_DOWN \<or> b = SC_LSHIFT_UP \<or> b = SC_RSHIFT_UP \<or> b = SC_CAPSLOCK)" "b AND 0x80 \<noteq> 0"
    | "\<not> (b = SC_LSHIFT_DOWN \<or> b = SC_RSHIFT_DOWN \<or> b = SC_LSHIFT_UP \<or> b = SC_RSHIFT_UP \<or> b = SC_CAPSLOCK)" "b AND 0x80 = 0"
    by blast
  then show ?thesis
  proof cases
    case 1
    then show ?thesis
      by (elim disjE) (simp_all add: modifier_no_chars keyboard_handler_def modify_def modifiers_of_def scancode_defs)
  next
    case 2
    then show ?thesis by (simp add: release_no_chars keyboard_handler_def modify_def modifiers_of_def)
  next
    case 3
    have flags: "w\<lparr>shift_pressed := shift_pressed k, capslock_on := capslock_on k\<rparr> = w" if "modifiers_of w = modifiers_of k" for w :: keyboard
      using that by (simp add: modifiers_of_def)
    have m: "modify b (modifiers_of k) = (shift_pressed k, capslock_on k)" using 3 by (simp add: modify_def modifiers_of_def)
    have "fst (keyboard_handler b k) = (case key_chars b (modifiers_of k) of [] \<Rightarrow> k | c # _ \<Rightarrow> keyboard_push c k)"
      using 3 by (simp add: keyboard_handler_def key_chars_def modifiers_of_def Let_def)
    then show ?thesis unfolding m by (simp add: flags split: list.split)
  qed
qed

text \<open>A byte from the keyboard appends what it types, unless 127 characters wait.\<close>

lemma handler_stores:
  assumes wf: "keyboard_wf k"
  shows "keyboard_wf (fst (keyboard_handler b k))"
    "pending (fst (keyboard_handler b k)) = pending k @ (if length (pending k) < 127 then key_chars b (modifiers_of k) else [])"
    "modifiers_of (fst (keyboard_handler b k)) = modify b (modifiers_of k)"
proof -
  have frame: "keyboard_wf (k\<lparr>shift_pressed := x, capslock_on := y\<rparr>) = keyboard_wf k"
    "pending (k\<lparr>shift_pressed := x, capslock_on := y\<rparr>) = pending k" for k x y
    by (simp_all add: keyboard_wf_def pending_def pending_count_def)
  show "keyboard_wf (fst (keyboard_handler b k))" unfolding handler_keys frame using wf by (simp add: keyboard_push_wf split: list.split)
  have "key_chars b (modifiers_of k) = [] \<or> (\<exists>c. key_chars b (modifiers_of k) = [c])" by (simp add: key_chars_def Let_def)
  then show "pending (fst (keyboard_handler b k)) = pending k @ (if length (pending k) < 127 then key_chars b (modifiers_of k) else [])"
    unfolding handler_keys frame using pending_push [OF wf] by auto
  show "modifiers_of (fst (keyboard_handler b k)) = modify b (modifiers_of k)" unfolding handler_keys by (simp add: modifiers_of_def)
qed

lemma handler_types:
  assumes "keyboard_wf k" "length (pending k) + length (key_chars b (modifiers_of k)) \<le> 127"
  shows "pending (fst (keyboard_handler b k)) = pending k @ key_chars b (modifiers_of k)"
proof (cases "key_chars b (modifiers_of k)")
  case (Cons c cs)
  then have "length (pending k) < 127" using assms(2) by simp
  then show ?thesis by (simp only: handler_stores(2) [OF assms(1)] if_True)
qed (simp add: handler_stores(2) [OF assms(1)])

section \<open>Sessions\<close>

text \<open>The bytes in a sequence of events, and whether the shell keeps up with the typing: with \<open>n\<close> characters waiting,
  never more than the 127 that the buffer holds.\<close>

fun scancodes :: "event list \<Rightarrow> u8 list" where
  "scancodes [] = []"
| "scancodes (Scancode b # es) = b # scancodes es"
| "scancodes (_ # es) = scancodes es"

fun keeps_up :: "nat \<Rightarrow> modifiers \<Rightarrow> event list \<Rightarrow> bool" where
  "keeps_up n m [] \<longleftrightarrow> True"
| "keeps_up n m (Scancode b # es) \<longleftrightarrow> n + length (key_chars b m) \<le> 127 \<and> keeps_up (n + length (key_chars b m)) (modify b m) es"
| "keeps_up n m (Shell_round # es) \<longleftrightarrow> keeps_up (n - 1) m es"
| "keeps_up n m (Timer_interrupt esp # es) \<longleftrightarrow> False"

lemma keeps_up_rounds: "keeps_up n m (es @ replicate k Shell_round) \<longleftrightarrow> keeps_up n m es"
proof (induction n m es rule: keeps_up.induct)
  case (1 n m)
  show ?case by (induction k arbitrary: n) simp_all
qed simp_all

lemma scancodes_rounds: "scancodes (es @ replicate k Shell_round) = scancodes es"
proof (induction es rule: scancodes.induct)
  case 1
  show ?case by (induction k) simp_all
qed simp_all

text \<open>What was waiting and what is typed is what the shell reads and what is left waiting; and the shell does what it
  does with the characters alone. A round that does not come back does so with the characters alone, too.\<close>

definition reads :: "system \<Rightarrow> string \<Rightarrow> stop + (console_op list \<times> system) \<Rightarrow> bool" where
  "reads y typing r \<longleftrightarrow>
     (case r of
        Inl st \<Rightarrow> \<exists>cs rest. typing = cs @ rest \<and> shell_keys cs (y_line y, y_sys y) = Inl st
      | Inr (out, y') \<Rightarrow> keyboard_wf (y_keyboard y') \<and> (\<exists>cs. typing = cs @ pending (y_keyboard y')
          \<and> shell_keys cs (y_line y, y_sys y) = Inr (out, y_line y', y_sys y')))"

lemma reads_key:
  assumes k: "shell_key c (y_line y, y_sys y) = Inr (o1, l, s)" and r: "reads (y\<lparr>y_keyboard := kb, y_line := l, y_sys := s\<rparr>) typing r"
  shows "reads y (c # typing) (map_sum id (\<lambda>(out, z). (o1 @ out, z)) r)"
proof (cases r)
  case (Inl st)
  with r obtain cs rest where cs: "typing = cs @ rest" "shell_keys cs (l, s) = Inl st" by (auto simp: reads_def)
  show ?thesis unfolding reads_def Inl by (simp, rule exI [of _ "c # cs"]) (simp add: cs k)
next
  case (Inr p)
  obtain out y' where p: "p = (out, y')" by (cases p)
  with r Inr obtain cs where cs: "keyboard_wf (y_keyboard y')" "typing = cs @ pending (y_keyboard y')"
    "shell_keys cs (l, s) = Inr (out, y_line y', y_sys y')" by (auto simp: reads_def)
  show ?thesis unfolding reads_def Inr p by (simp add: cs(1), rule exI [of _ "c # cs"]) (simp add: cs k)
qed

lemma session_reads:
  assumes "keyboard_wf (y_keyboard y)" "keeps_up (length (pending (y_keyboard y))) (modifiers_of (y_keyboard y)) es"
  shows "reads y (pending (y_keyboard y) @ typed (modifiers_of (y_keyboard y)) (scancodes es)) (system_run es y)"
  using assms
proof (induction es arbitrary: y)
  case Nil
  then show ?case by (simp add: reads_def)
next
  case (Cons e es)
  note wf = Cons.prems(1)
  show ?case
  proof (cases e)
    case (Scancode b)
    let ?k = "fst (keyboard_handler b (y_keyboard y))" and ?y = "y\<lparr>y_keyboard := fst (keyboard_handler b (y_keyboard y))\<rparr>"
    have room: "length (pending (y_keyboard y)) + length (key_chars b (modifiers_of (y_keyboard y))) \<le> 127" using Cons.prems(2) Scancode by simp
    note k = handler_stores(1) [OF wf, of b] handler_types [OF wf room] handler_stores(3) [OF wf, of b]
    have "system_run (e # es) y = system_run es ?y" using map_sum_nil [of "system_run es ?y"] by (simp add: Scancode)
    moreover have "y_line ?y = y_line y" "y_sys ?y = y_sys y" by simp_all
    then have "reads ?y = reads y" by (intro ext) (simp only: reads_def)
    ultimately show ?thesis using Cons.IH [of ?y] Cons.prems(2) k Scancode by simp
  next
    case Shell_round
    show ?thesis
    proof (cases "keyboard_getchar (y_keyboard y)")
      case None
      then have p: "pending (y_keyboard y) = []" using getchar_None [OF wf] by blast
      have "system_run (e # es) y = system_run es y" using map_sum_nil [of "system_run es y"] by (simp add: Shell_round None)
      with Cons.IH [of y] Cons.prems Shell_round p show ?thesis by simp
    next
      case (Some r)
      obtain c k where r: "r = (c, k)" by (cases r)
      have k: "pending (y_keyboard y) = c # pending k" "keyboard_wf k" using getchar_Some [OF wf] Some r by blast+
      have m: "modifiers_of k = modifiers_of (y_keyboard y)"
        using Some r by (auto simp: keyboard_getchar_def modifiers_of_def split: if_splits)
      show ?thesis
      proof (cases "shell_key c (y_line y, y_sys y)")
        case (Inl st)
        then have "system_run (e # es) y = Inl st" "shell_keys [c] (y_line y, y_sys y) = Inl st" using Shell_round Some r by simp_all
        then show ?thesis using k(1) by (simp only: reads_def sum.case) (metis append_Cons append_Nil)
      next
        case (Inr q)
        obtain o1 l s where q: "q = (o1, l, s)" by (cases q)
        let ?y = "y\<lparr>y_keyboard := k, y_line := l, y_sys := s\<rparr>"
        have sc: "scancodes (e # es) = scancodes es" by (simp add: Shell_round)
        have run: "system_run (e # es) y = map_sum id (\<lambda>(out, z). (o1 @ out, z)) (system_run es ?y)"
          using Shell_round Some r Inr q by simp
        have "reads ?y (pending k @ typed (modifiers_of k) (scancodes es)) (system_run es ?y)"
          using Cons.IH [of ?y] Cons.prems(2) Shell_round k m by simp
        from reads_key [OF Inr [unfolded q] this] show ?thesis unfolding run k(1) sc m by simp
      qed
    qed
  next
    case (Timer_interrupt esp)
    with Cons.prems(2) show ?thesis by simp
  qed
qed

text \<open>Rounds of the shell's loop empty the buffer.\<close>

lemma rounds_drain:
  assumes "keyboard_wf (y_keyboard y)" "system_run (replicate n Shell_round) y = Inr (out, y')" "length (pending (y_keyboard y)) \<le> n"
  shows "pending (y_keyboard y') = []"
  using assms
proof (induction n arbitrary: y out)
  case 0
  then show ?case by (simp add: pending_def)
next
  case (Suc n)
  show ?case
  proof (cases "keyboard_getchar (y_keyboard y)")
    case None
    have "system_run (replicate (Suc n) Shell_round) y = system_run (replicate n Shell_round) y"
      using map_sum_nil [of "system_run (replicate n Shell_round) y"] by (simp add: None)
    with Suc.prems(2) have run: "system_run (replicate n Shell_round) y = Inr (out, y')" by simp
    have "pending (y_keyboard y) = []" using getchar_None [OF Suc.prems(1)] None by blast
    then have "length (pending (y_keyboard y)) \<le> n" by (simp only: list.size)
    from Suc.IH [OF Suc.prems(1) run this] show ?thesis .
  next
    case (Some r)
    obtain c k where r: "r = (c, k)" by (cases r)
    have k: "pending (y_keyboard y) = c # pending k" "keyboard_wf k" using getchar_Some [OF Suc.prems(1)] Some r by blast+
    obtain o1 l s where sk: "shell_key c (y_line y, y_sys y) = Inr (o1, l, s)"
      using Suc.prems(2) Some r by (cases "shell_key c (y_line y, y_sys y)") auto
    let ?y = "y\<lparr>y_keyboard := k, y_line := l, y_sys := s\<rparr>"
    obtain o2 where "system_run (replicate n Shell_round) ?y = Inr (o2, y')"
      using Suc.prems(2) Some r sk by (cases "system_run (replicate n Shell_round) ?y") auto
    with Suc.IH [of ?y o2] Suc.prems(3) k show ?thesis by simp
  qed
qed

text \<open>C29. What the user types is what the shell gets: however the keyboard interrupts and the rounds of the shell's loop
  are interleaved, as long as no more than 127 characters wait, the session prints and does exactly what the shell does
  when it is handed the typed characters one after the other - with shift and caps lock applied, nothing lost,
  nothing doubled, nothing reordered - and once the typing stops, enough rounds leave nothing waiting. It stops for good
  (on \<open>reboot\<close>) exactly when the shell does so on these characters, and it never hangs.\<close>

theorem typed_session:
  assumes "system_ok lo hi y" "pending (y_keyboard y) = []" "keeps_up 0 (modifiers_of (y_keyboard y)) es"
    and "length (typed (modifiers_of (y_keyboard y)) (scancodes es)) \<le> n"
  shows "case system_run (es @ replicate n Shell_round) y of
      Inl st \<Rightarrow> st \<noteq> Hangs \<and> shell_keys (typed (modifiers_of (y_keyboard y)) (scancodes es)) (y_line y, y_sys y) = Inl st
    | Inr (out, y') \<Rightarrow> pending (y_keyboard y') = [] \<and>
        shell_keys (typed (modifiers_of (y_keyboard y)) (scancodes es)) (y_line y, y_sys y) = Inr (out, y_line y', y_sys y')"
proof -
  let ?typed = "typed (modifiers_of (y_keyboard y)) (scancodes es)" and ?run = "system_run (es @ replicate n Shell_round) y"
  have wf: "keyboard_wf (y_keyboard y)" using assms(1) by (simp add: system_ok_def)
  have up: "keeps_up (length (pending (y_keyboard y))) (modifiers_of (y_keyboard y)) es" using assms(2,3) by simp
  then have up': "keeps_up (length (pending (y_keyboard y))) (modifiers_of (y_keyboard y)) (es @ replicate n Shell_round)"
    by (simp only: keeps_up_rounds)
  from session_reads [OF wf up'] have R: "reads y ?typed ?run" by (simp add: assms(2) scancodes_rounds)
  show ?thesis
  proof (cases ?run)
    case (Inl st)
    then obtain e z where "last_round e z st" using system_run_ok [OF assms(1), of "es @ replicate n Shell_round"] by auto
    then have "st \<noteq> Hangs" by (auto simp: last_round_def last_line_def)
    moreover from R Inl obtain cs rest where "?typed = cs @ rest" "shell_keys cs (y_line y, y_sys y) = Inl st" by (auto simp: reads_def)
    then have "shell_keys ?typed (y_line y, y_sys y) = Inl st" by (simp add: shell_keys_append)
    ultimately show ?thesis using Inl by simp
  next
    case (Inr p)
    obtain out y' where p: "p = (out, y')" by (cases p)
    obtain o1 z where z: "system_run es y = Inr (o1, z)" using Inr by (cases "system_run es y") (auto simp: system_run_append)
    then obtain o2 where z2: "system_run (replicate n Shell_round) z = Inr (o2, y')"
      using Inr p by (cases "system_run (replicate n Shell_round) z") (auto simp: system_run_append)
    from session_reads [OF wf up] z obtain cs where "keyboard_wf (y_keyboard z)" "?typed = cs @ pending (y_keyboard z)"
      by (auto simp: reads_def assms(2))
    then have empty: "pending (y_keyboard y') = []" using rounds_drain [OF _ z2] assms(4) by simp
    with R Inr p show ?thesis by (simp add: reads_def)
  qed
qed

text \<open>After power on: shift and \<open>h\<close>, then \<open>i\<close>, with the shell running in between.\<close>

lemma typed_session_witness:
  "\<exists>line m' d' out y. boot queue_ports \<lparr>a_bss_end = 0x12000, a_idt = 0x11000, a_keyboard_stub = 0x1100, a_timer_stub = 0x1200,
      a_kernel = 0x1300, a_shell_task = 0x1400\<rparr> (power_on\<lparr>m_sys := (m_sys power_on)\<lparr>s_fs := fs_power_on (\<lambda>lba. zero_sector)\<rparr>\<rparr>) []
        = Some (line, m', d') \<and>
    system_run ([Scancode 0x2A, Scancode 0x23, Shell_round, Scancode 0xA3, Scancode 0xAA, Scancode 0x17] @ replicate 2 Shell_round)
      (system_start m') = Inr (out, y) \<and> shell_keys ''Hi'' ([], m_sys m') = Inr (out, y_line y, y_sys y)"
proof -
  let ?a = "\<lparr>a_bss_end = 0x12000, a_idt = 0x11000, a_keyboard_stub = 0x1100, a_timer_stub = 0x1200, a_kernel = 0x1300,
      a_shell_task = 0x1400\<rparr>"
  let ?m = "power_on\<lparr>m_sys := (m_sys power_on)\<lparr>s_fs := fs_power_on (\<lambda>lba. zero_sector)\<rparr>\<rparr>"
  let ?es = "[Scancode 0x2A, Scancode 0x23, Shell_round, Scancode 0xA3, Scancode 0xAA, Scancode 0x17]"
  have a: "0 < a_bss_end ?a" "a_bss_end ?a \<le> 0x80000" by simp_all
  have fs: "represents (fs_init (s_fs (m_sys ?m))) no_files" using blank_represents by (simp add: blank_def)
  have sh: "s_shell (m_sys ?m) = shell_initial" by (simp add: power_on_def)
  obtain line m' d' where b: "boot queue_ports ?a ?m [] = Some (line, m', d')"
    "sys_ok (unat (a_bss_end ?a)) (unat (find_heap_end (a_bss_end ?a) (s_mmap (m_sys ?m)))) (m_sys m')"
    by (rule boot_sys_ok [OF a queue_ports_law fs sh])
  have m: "modifiers_of (y_keyboard (system_start m')) = (False, False)"
    by (simp add: system_start_def modifiers_of_def keyboard_initial_def)
  have k: "keeps_up 0 (False, False) ?es" "typed (False, False) (scancodes ?es) = ''Hi''" by code_simp+
  have start: "y_line (system_start m') = []" "y_sys (system_start m') = m_sys m'" by (simp_all add: system_start_def)
  have hi: "shell_keys ''Hi'' ([], m_sys m') = Inr (map (\<lambda>c. Print [c]) ''Hi'', ''Hi'', m_sys m')"
    using shell_keys_plain [of "''Hi''" "[]" "m_sys m'"] by (simp add: plain_key_def)
  from typed_session [OF system_start_ok(1) [OF b(2)] system_start_ok(2), of ?es 2, unfolded m, OF k(1), unfolded k(2) start]
  obtain out y where "system_run (?es @ replicate 2 Shell_round) (system_start m') = Inr (out, y)"
    "shell_keys ''Hi'' ([], m_sys m') = Inr (out, y_line y, y_sys y)"
    unfolding hi by (cases "system_run (?es @ replicate 2 Shell_round) (system_start m')") auto
  with b(1) show ?thesis by blast
qed

end
