(* ===== verification/Preempt.thy ===== *)
theory Preempt
  imports Session
begin

text \<open>
  Interrupts in the middle of \<open>keyboard_getchar\<close> (\<open>kernel/keyboard.c\<close>). The shell's task, the only one that
  reads keys, can be interrupted between any two statements, while the handlers, behind interrupt gates, are atomic.
  The statements are a step relation, and what the other theories say of the function as a whole is
  shown to survive every interleaving. Other tasks that a timer interrupt switches to do not touch the ring.
\<close>

section \<open>Reading a character\<close>

text \<open>Where \<open>keyboard_getchar\<close> is: before the test of its loop, before \<open>hlt\<close>, halted, before the load of the character,
  and, with the character in \<open>c\<close>, before \<open>buffer_read\<close> is advanced.\<close>

datatype reader = At_test | At_halt | Asleep | At_load | At_advance char

text \<open>Every interrupt ends the sleep.\<close>

fun wake :: "reader \<Rightarrow> reader" where
  "wake Asleep = At_test"
| "wake p = p"

text \<open>What a step shows: a byte from the keyboard with the characters that its handler stores, the timer, a statement of
  the function, and its last one with the result. After it the next call begins.\<close>

datatype read_label = Key u8 string | Tick | Move | Got char

inductive read_step :: "keyboard \<times> reader \<Rightarrow> read_label \<Rightarrow> keyboard \<times> reader \<Rightarrow> bool" where
  empty: "read_step (k, At_test) Move (k, At_halt)" if "buffer_read k = buffer_write k"
| more: "read_step (k, At_test) Move (k, At_load)" if "buffer_read k \<noteq> buffer_write k"
| halt: "read_step (k, At_halt) Move (k, Asleep)"
| load: "read_step (k, At_load) Move (k, At_advance (keyboard_buffer k ! buffer_read k))"
| advance: "read_step (k, At_advance c) (Got c)
    (k\<lparr>buffer_read := (buffer_read k + 1) mod KEYBOARD_BUFFER_SIZE\<rparr>, At_test)"
| key: "read_step (k, p) (Key b cs) (fst (keyboard_handler b k), wake p)"
    if "cs = (if length (pending k) < 127 then key_chars b (modifiers_of k) else [])"
| tick: "read_step (k, p) Tick (k, wake p)"

inductive read_run :: "keyboard \<times> reader \<Rightarrow> read_label list \<Rightarrow> keyboard \<times> reader \<Rightarrow> bool" where
  nil: "read_run x [] x"
| cons: "read_run x (l # ls) z" if "read_step x l y" "read_run y ls z"

inductive_cases read_stepE: "read_step (k, p) l y"
inductive_simps read_run_simps [simp]: "read_run x [] z" "read_run x (l # ls) z"

fun stored :: "read_label list \<Rightarrow> string" where
  "stored [] = []"
| "stored (Key b cs # ls) = cs @ stored ls"
| "stored (_ # ls) = stored ls"

fun got :: "read_label list \<Rightarrow> string" where
  "got [] = []"
| "got (Got c # ls) = c # got ls"
| "got (_ # ls) = got ls"

text \<open>Without an interrupt the statements are the function.\<close>

lemma getchar_moves: "keyboard_getchar k = Some (c, k') \<longleftrightarrow> read_run (k, At_test) [Move, Move, Got c] (k', At_test)"
  by (auto simp: keyboard_getchar_def read_step.simps)

text \<open>What holds between the statements.\<close>

definition reading :: "keyboard \<times> reader \<Rightarrow> bool" where
  "reading x \<longleftrightarrow> keyboard_wf (fst x) \<and>
     (case snd x of At_load \<Rightarrow> pending (fst x) \<noteq> [] | At_advance c \<Rightarrow> \<exists>rest. pending (fst x) = c # rest | _ \<Rightarrow> True)"

lemma reading_nonempty: "keyboard_wf k \<Longrightarrow> buffer_read k \<noteq> buffer_write k \<longleftrightarrow> pending k \<noteq> []"
  using getchar_None [of k] by (cases "buffer_read k = buffer_write k") (auto simp: keyboard_getchar_def)

lemma read_step_queue:
  assumes "read_step x l y" "reading x"
  shows "reading y \<and> pending (fst x) @ stored [l] = got [l] @ pending (fst y)"
  using assms
proof cases
  case (load k)
  then have k: "keyboard_wf k" "pending k \<noteq> []" using assms(2) by (simp_all add: reading_def)
  have "buffer_read k \<noteq> buffer_write k" using reading_nonempty [OF k(1)] k(2) by simp
  then have g: "keyboard_getchar k = Some (keyboard_buffer k ! buffer_read k, k\<lparr>buffer_read := (buffer_read k + 1) mod KEYBOARD_BUFFER_SIZE\<rparr>)"
    by (simp add: keyboard_getchar_def)
  from getchar_Some [OF k(1) g] k(1) load show ?thesis by (auto simp: reading_def)
next
  case (advance k c)
  then obtain rest where k: "keyboard_wf k" "pending k = c # rest" using assms(2) by (auto simp: reading_def)
  have "buffer_read k \<noteq> buffer_write k" using reading_nonempty [OF k(1)] k(2) by simp
  then have g: "keyboard_getchar k = Some (keyboard_buffer k ! buffer_read k, k\<lparr>buffer_read := (buffer_read k + 1) mod KEYBOARD_BUFFER_SIZE\<rparr>)"
    by (simp add: keyboard_getchar_def)
  from getchar_Some [OF k(1) g] k advance show ?thesis by (auto simp: reading_def)
next
  case (key cs k b p)
  then have k: "keyboard_wf k" using assms(2) by (simp add: reading_def)
  from handler_stores(1,2) [OF k, of b] assms(2) key show ?thesis
    by (cases p) (auto simp: reading_def)
next
  case (tick k p)
  then show ?thesis using assms(2) by (cases p) (auto simp: reading_def)
qed (auto simp: reading_def reading_nonempty)

lemma stored_Cons: "stored (l # ls) = stored [l] @ stored ls"
  and got_Cons: "got (l # ls) = got [l] @ got ls"
  by (cases l; simp)+

lemma read_run_queue:
  "read_run x ls y \<Longrightarrow> reading x \<Longrightarrow> reading y \<and> pending (fst x) @ stored ls = got ls @ pending (fst y)"
proof (induction rule: read_run.induct)
  case (cons x l y ls z)
  have y: "reading y" "pending (fst x) @ stored [l] = got [l] @ pending (fst y)"
    using read_step_queue [OF cons.hyps(1) cons.prems] by blast+
  then have z: "reading z" "pending (fst y) @ stored ls = got ls @ pending (fst z)" using cons.IH by blast+
  have "pending (fst x) @ stored (l # ls) = (pending (fst x) @ stored [l]) @ stored ls" by (simp only: stored_Cons [of l ls] append_assoc)
  also have "\<dots> = got (l # ls) @ pending (fst z)" unfolding y(2) got_Cons [of l ls] append_assoc z(2) ..
  finally show ?case using z(1) by blast
qed simp

text \<open>C24. Interrupts between the statements of \<open>keyboard_getchar\<close> do no harm: over every interleaving, the characters returned
  so far followed by those waiting are those that waited at the start followed by those stored since; in particular the
  character that a call has loaded is still the first one waiting when the call releases its place in the ring.\<close>

theorem getchar_preemptible:
  assumes "keyboard_wf k" "read_run (k, At_test) ls (k', p)"
  shows "pending k @ stored ls = got ls @ pending k' \<and> keyboard_wf k' \<and>
    (\<forall>c. p = At_advance c \<longrightarrow> (\<exists>rest. pending k' = c # rest))"
proof -
  have "reading (k, At_test)" using assms(1) by (simp add: reading_def)
  from read_run_queue [OF assms(2) this] show ?thesis by (auto simp: reading_def)
qed

text \<open>A key is pressed before the test and another between test and load.\<close>

lemma two_keys:
  obtains k1 k2 where "read_run (keyboard_initial, At_test) [Key 0x1E ''a'', Move, Key 0x30 ''b'', Move] (k2, At_advance CHR ''a'')"
    "keyboard_wf k1" "pending k1 = ''a''" "k1 = fst (keyboard_handler 0x1E keyboard_initial)" "keyboard_wf k2" "pending k2 = ''ab''"
proof -
  have chars: "key_chars 0x1E (False, False) = ''a''" "modify 0x1E (False, False) = (False, False)" "key_chars 0x30 (False, False) = ''b''"
    by code_simp+
  have k0: "modifiers_of keyboard_initial = (False, False)" "pending keyboard_initial = []"
    by (simp_all add: modifiers_of_def keyboard_initial_def pending_def pending_count_def)
  define k1 where "k1 = fst (keyboard_handler 0x1E keyboard_initial)"
  note h1 = handler_stores [OF keyboard_wf_initial, of "0x1E", folded k1_def]
  have k1: "keyboard_wf k1" "modifiers_of k1 = (False, False)" "pending k1 = ''a''" using h1 k0 chars by simp_all
  define k2 where "k2 = fst (keyboard_handler 0x30 k1)"
  note h2 = handler_stores [OF k1(1), of "0x30", folded k2_def]
  have len: "length (pending k1) < 127" unfolding k1(3) by simp
  then have k2: "keyboard_wf k2" "pending k2 = ''ab''" using h2 k1 chars by (simp_all del: length_pending)
  have ne: "buffer_read k1 \<noteq> buffer_write k1" "buffer_read k2 \<noteq> buffer_write k2"
    using reading_nonempty [OF k1(1)] reading_nonempty [OF k2(1)] k1(3) k2(2) by simp_all
  have "keyboard_getchar k2 = Some (keyboard_buffer k2 ! buffer_read k2, k2\<lparr>buffer_read := (buffer_read k2 + 1) mod KEYBOARD_BUFFER_SIZE\<rparr>)"
    using ne(2) by (simp add: keyboard_getchar_def)
  from getchar_Some [OF k2(1) this] k2(2) have c: "keyboard_buffer k2 ! buffer_read k2 = CHR ''a''" by simp
  have "read_run (keyboard_initial, At_test) [Key 0x1E ''a'', Move, Key 0x30 ''b'', Move] (k2, At_advance CHR ''a'')"
    using read_step.key [of "''a''" keyboard_initial "0x1E" At_test] read_step.more [OF ne(1)]
      read_step.key [of "''b''" k1 "0x30" At_load] read_step.load [of k2] k0 k1 chars c len
    by (simp del: length_pending flip: k1_def k2_def) blast
  then show thesis by (rule that [OF _ k1(1,3) k1_def k2])
qed

lemma getchar_preemptible_witness:
  "\<exists>k'. read_run (keyboard_initial, At_test) [Key 0x1E ''a'', Move, Key 0x30 ''b'', Move] (k', At_advance CHR ''a'') \<and> pending k' = ''ab''"
proof -
  obtain k2 where r: "read_run (keyboard_initial, At_test) [Key 0x1E ''a'', Move, Key 0x30 ''b'', Move] (k2, At_advance CHR ''a'')"
    by (rule two_keys)
  have "pending keyboard_initial = []" by (simp add: keyboard_initial_def pending_def pending_count_def)
  with getchar_preemptible [OF keyboard_wf_initial r] r show ?thesis by (intro exI [of _ k2]) simp
qed

section \<open>The lost wake-up\<close>

text \<open>A key that arrives between the test and \<open>hlt\<close> finds nobody asleep: the reader then sleeps beside a waiting
  character, and can only be woken by the next interrupt.\<close>

lemma lost_wakeup:
  "\<exists>k'. read_run (keyboard_initial, At_test) [Move, Key 0x1E ''a'', Move] (k', Asleep) \<and> pending k' = ''a'' \<and>
    (\<forall>l y. read_step (k', Asleep) l y \<longrightarrow> l = Tick \<or> (\<exists>b cs. l = Key b cs))"
proof -
  obtain k1 where k1: "pending k1 = ''a''" "k1 = fst (keyboard_handler 0x1E keyboard_initial)" by (rule two_keys)
  have k0: "buffer_read keyboard_initial = buffer_write keyboard_initial" "modifiers_of keyboard_initial = (False, False)"
    "pending keyboard_initial = []"
    by (simp_all add: modifiers_of_def keyboard_initial_def pending_def pending_count_def)
  have "key_chars 0x1E (False, False) = ''a''" by code_simp
  then have "read_step (keyboard_initial, At_halt) (Key 0x1E ''a'') (k1, At_halt)"
    using read_step.key [of "''a''" keyboard_initial "0x1E" At_halt] k0 k1(2) by simp
  then have "read_run (keyboard_initial, At_test) [Move, Key 0x1E ''a'', Move] (k1, Asleep)"
    using read_step.empty [OF k0(1)] read_step.halt [of k1] by simp blast
  moreover have "l = Tick \<or> (\<exists>b cs. l = Key b cs)" if "read_step (k1, Asleep) l y" for l y
    using that by (rule read_stepE) simp_all
  ultimately show ?thesis using k1(1) by blast
qed

lemma read_from_load:
  assumes "keyboard_wf k" "pending k = c # rest"
  shows "\<exists>k'. read_run (k, At_load) [Move, Got c] (k', At_test) \<and> read_run (k, At_test) [Move, Move, Got c] (k', At_test) \<and>
    read_step (k, At_advance c) (Got c) (k', At_test) \<and> pending k' = rest"
proof -
  have "keyboard_getchar k \<noteq> None" using getchar_None [OF assms(1)] assms(2) by simp
  then obtain c' k' where g: "keyboard_getchar k = Some (c', k')" by auto
  from getchar_Some [OF assms(1) this] assms(2) have c: "c' = c" "pending k' = rest" by simp_all
  from g c(1) have "read_run (k, At_test) [Move, Move, Got c] (k', At_test)" by (simp only: getchar_moves)
  moreover from g c(1) have k': "k' = k\<lparr>buffer_read := (buffer_read k + 1) mod KEYBOARD_BUFFER_SIZE\<rparr>" "keyboard_buffer k ! buffer_read k = c"
    by (auto simp: keyboard_getchar_def split: if_splits)
  from k' have s: "read_step (k, At_advance c) (Got c) (k', At_test)" "read_step (k, At_load) Move (k, At_advance c)"
    using read_step.load [of k] read_step.advance [of k c] by simp_all
  have "read_run (k, At_load) [Move, Got c] (k', At_test)"
    by (rule read_run.cons [OF s(2) read_run.cons [OF s(1) read_run.nil]])
  ultimately show ?thesis using s(1) c(2) by blast
qed

text \<open>C31. No character waits for long: from every state that the interleaving reaches with a character waiting, the
  reader returns it within five steps of its own and the timer, at most one of them a timer interrupt, without any
  further key press.\<close>

theorem waiting_key_read:
  assumes "keyboard_wf k0" "read_run (k0, At_test) ls0 (k, p)" "pending k = c # rest"
  shows "\<exists>ls k'. read_run (k, p) ls (k', At_test) \<and> got ls = [c] \<and> stored ls = [] \<and> pending k' = rest \<and>
    length ls \<le> 5 \<and> length (filter (\<lambda>l. l = Tick) ls) \<le> 1 \<and> list_all (\<lambda>l. \<forall>b cs. l \<noteq> Key b cs) ls"
proof -
  have "reading (k0, At_test)" using assms(1) by (simp add: reading_def)
  with read_run_queue [OF assms(2)] have R: "reading (k, p)" by blast
  then have "keyboard_wf k" by (simp add: reading_def)
  from read_from_load [OF this assms(3)] obtain k' where k': "read_run (k, At_load) [Move, Got c] (k', At_test)"
    "read_run (k, At_test) [Move, Move, Got c] (k', At_test)" "read_step (k, At_advance c) (Got c) (k', At_test)" "pending k' = rest" by blast
  have asleep: "read_run (k, Asleep) (Tick # [Move, Move, Got c]) (k', At_test)"
    by (rule read_run.cons [OF _ k'(2)]) (use read_step.tick [of k Asleep] in simp)
  show ?thesis
  proof (cases p)
    case At_test
    then show ?thesis using k'(2,4) by (intro exI [of _ "[Move, Move, Got c]"] exI [of _ k']) simp
  next
    case At_halt
    then have "read_run (k, p) (Move # Tick # [Move, Move, Got c]) (k', At_test)"
      by (intro read_run.cons [OF _ asleep]) (simp add: read_step.halt)
    then show ?thesis using k'(4) by (intro exI [of _ "Move # Tick # [Move, Move, Got c]"] exI [of _ k']) simp
  next
    case Asleep
    then show ?thesis using asleep k'(4) by (intro exI [of _ "Tick # [Move, Move, Got c]"] exI [of _ k']) simp
  next
    case At_load
    then show ?thesis using k'(1,4) by (intro exI [of _ "[Move, Got c]"] exI [of _ k']) simp
  next
    case (At_advance c')
    then have "c' = c" using R assms(3) by (auto simp: reading_def)
    then have "read_run (k, p) [Got c] (k', At_test)" using At_advance read_run.cons [OF k'(3) read_run.nil] by simp
    then show ?thesis using k'(4) by (intro exI [of _ "[Got c]"] exI [of _ k']) simp
  qed
qed

lemma waiting_key_read_witness:
  "\<exists>k p ls k'. read_run (keyboard_initial, At_test) [Move, Key 0x1E ''a'', Move] (k, p) \<and> read_run (k, p) ls (k', At_test) \<and> got ls = ''a''"
proof -
  obtain k where r: "read_run (keyboard_initial, At_test) [Move, Key 0x1E ''a'', Move] (k, Asleep)" "pending k = ''a''"
    using lost_wakeup by blast
  from waiting_key_read [OF keyboard_wf_initial r(1), of "CHR ''a''" "[]"] r show ?thesis by blast
qed

end
