(* ===== verification/PreemptTask.thy ===== *)
theory PreemptTask
  imports Task
begin

text \<open>
  Timer interrupts in the middle of \<open>task_create_named\<close> and \<open>task_kill\<close> (\<open>kernel/task.c\<close>). Both run in a task that
  the timer may interrupt between any two statements; \<open>schedule\<close>, in the interrupt, then works on a table that is
  half changed. The statements are a step relation; what the table means at every moment is stated by a ghost
  table of suspended tasks, which each tick takes a stack pointer from and puts one into. \<open>kmalloc\<close>, \<open>kfree\<close> and
  the copying of the name count as one statement each, and one task at a time is in such a call.
\<close>

section \<open>The statements\<close>

text \<open>What of a call remains to be done. In creating: the allocation; the words that are still to be pushed on the initial
  stack; then the slot's fields, with the values that are still to be stored. In killing: the stack that is still to be
  freed, and the flag that is still to be cleared.\<close>

datatype pending_call =
    No_call
  | Allocate u32 string
  | Push_words "u32 list" u32 u32 string
  | Store_esp nat u32 u32 string
  | Store_used nat u32 u32 string
  | Store_base nat u32 string
  | Store_name nat string
  | Free_stack int
  | Clear_used int

text \<open>A tick saves the stack pointer of the task that was running and may load that of another one. Of the statements,
  those show up by a label of their own that make a task ready, free a task's stack, or clear its slot.\<close>

datatype task_label = Timer u32 int "(nat \<times> u32) option" | Statement | Ready nat u32 | Freed nat | Cleared

definition set_task :: "nat \<Rightarrow> (task \<Rightarrow> task) \<Rightarrow> tasking \<Rightarrow> tasking" where
  "set_task i f s = s\<lparr>tasks := (tasks s)[i := f (tasks s ! i)]\<rparr>"

text \<open>The calling task is \<open>me\<close>; its statements run while it is the current one.\<close>

inductive task_micro :: "int \<Rightarrow> tasking \<times> pending_call \<Rightarrow> task_label \<Rightarrow> tasking \<times> pending_call \<Rightarrow> bool" for me where
  room: "task_micro me (s, No_call) Statement (s, Allocate entry nm)" if "current_task s = me" "\<not> task_count s \<ge> MAX_TASKS"
| alloc: "task_micro me (s, Allocate entry nm) Statement (s\<lparr>theap := h\<rparr>, Push_words [entry, 0, 0, 0, 0] (stack + TASK_STACK_SIZE) stack nm)"
    if "current_task s = me" "kmalloc TASK_STACK_SIZE (theap s) = Some (stack, h)"
| push: "task_micro me (s, Push_words (w # ws) sp stack nm) Statement (s\<lparr>mem := m\<rparr>, Push_words ws sp' stack nm)"
    if "current_task s = me" "push_word w (sp, mem s) = (sp', m)"
| slot: "task_micro me (s, Push_words [] sp stack nm) Statement
    (s\<lparr>task_count := task_count s + 1\<rparr>, Store_esp (task_count s) sp stack nm)" if "current_task s = me"
| esp: "task_micro me (s, Store_esp i sp stack nm) Statement (set_task i (tk_esp_update (\<lambda>_. sp)) s, Store_used i sp stack nm)"
    if "current_task s = me"
| used: "task_micro me (s, Store_used i sp stack nm) (Ready i sp) (set_task i (tk_used_update (\<lambda>_. True)) s, Store_base i stack nm)"
    if "current_task s = me"
| base: "task_micro me (s, Store_base i stack nm) Statement (set_task i (tk_stack_base_update (\<lambda>_. stack)) s, Store_name i nm)"
    if "current_task s = me"
| name: "task_micro me (s, Store_name i nm) Statement (set_task i (tk_name_update (\<lambda>_. str_copy_n nm 16)) s, No_call)"
    if "current_task s = me"
| checks: "task_micro me (s, No_call) Statement (s, Free_stack tid)"
    if "current_task s = me" "0 < tid" "tid < int (task_count s)" "tk_used (tasks s ! nat tid)" "tid \<noteq> current_task s"
| release: "task_micro me (s, Free_stack tid) (Freed (nat tid)) (s\<lparr>theap := h\<rparr>, Clear_used tid)"
    if "current_task s = me" "kfree (tk_stack_base (tasks s ! nat tid)) (theap s) = Some h"
| clear: "task_micro me (s, Clear_used tid) Cleared (set_task (nat tid) (tk_used_update (\<lambda>_. False)) s, No_call)"
    if "current_task s = me"
| timer: "task_micro me (s, p) (Timer esp (current_task s) (map_option (\<lambda>e. (nat (current_task s'), e)) r)) (s', p)"
    if "schedule esp s = Some (r, s')"

inductive task_micros :: "int \<Rightarrow> tasking \<times> pending_call \<Rightarrow> task_label list \<Rightarrow> tasking \<times> pending_call \<Rightarrow> bool" for me where
  nil: "task_micros me x [] x"
| cons: "task_micros me x (l # ls) z" if "task_micro me x l y" "task_micros me y ls z"

inductive_simps task_micros_simps [simp]: "task_micros me x [] z" "task_micros me x (l # ls) z"

section \<open>Without interrupts\<close>

text \<open>The statements one after the other are the functions of \<open>Task\<close>.\<close>

lemma set_task_simps [simp]:
  "current_task (set_task i f s) = current_task s" "task_count (set_task i f s) = task_count s" "theap (set_task i f s) = theap s"
  "mem (set_task i f s) = mem s" "length (tasks (set_task i f s)) = length (tasks s)"
  by (simp_all add: set_task_def)

lemma tasks_set_task: "i < length (tasks s) \<Longrightarrow> tasks (set_task i f s) ! j = (if j = i then f (tasks s ! i) else tasks s ! j)"
  by (simp add: set_task_def nth_list_update)

lemma micros_step: "task_micro me x l y \<Longrightarrow> task_micros me y ls z \<Longrightarrow> task_micros me x (l # ls) z"
  by (rule task_micros.cons)

lemma micros_append: "task_micros me x ls y \<Longrightarrow> task_micros me y ls' z \<Longrightarrow> task_micros me x (ls @ ls') z"
  by (induction rule: task_micros.induct) auto

lemma push_micros:
  "current_task s = me \<Longrightarrow> fold push_word ws (sp, mem s) = (sp', m) \<Longrightarrow>
   task_micros me (s, Push_words ws sp stack nm) (replicate (length ws) Statement) (s\<lparr>mem := m\<rparr>, Push_words [] sp' stack nm)"
proof (induction ws arbitrary: s sp)
  case (Cons w ws)
  obtain sp1 m1 where p: "push_word w (sp, mem s) = (sp1, m1)" by fastforce
  have "task_micros me (s\<lparr>mem := m1\<rparr>, Push_words ws sp1 stack nm) (replicate (length ws) Statement) (s\<lparr>mem := m\<rparr>, Push_words [] sp' stack nm)"
    using Cons.IH [of "s\<lparr>mem := m1\<rparr>" sp1] Cons.prems p by simp
  from micros_step [OF push [OF Cons.prems(1) p] this] show ?case by simp
qed simp

lemma create_micros:
  assumes c: "task_create_named entry nm s = Some (int n, s')" and s: "task_wf s" "current_task s = me"
  shows "\<exists>sp. task_micros me (s, No_call) (replicate 9 Statement @ [Ready (task_count s) sp, Statement, Statement]) (s', No_call)"
proof -
  let ?i = "task_count s"
  have room: "\<not> ?i \<ge> MAX_TASKS" using c by (auto simp: task_create_named_def split: if_splits)
  then have len: "?i < length (tasks s)" using s(1) by (simp add: task_wf_def)
  obtain stack h where k: "kmalloc TASK_STACK_SIZE (theap s) = Some (stack, h)"
    using c room by (auto simp: task_create_named_def split: bind_splits)
  obtain sp m where p: "fold push_word [entry, 0, 0, 0, 0] (stack + TASK_STACK_SIZE, mem s) = (sp, m)" by fastforce
  define s1 where "s1 = s\<lparr>theap := h, mem := m\<rparr>"
  define s2 where "s2 = s1\<lparr>task_count := task_count s1 + 1\<rparr>"
  define s3 where "s3 = set_task ?i (tk_esp_update (\<lambda>_. sp)) s2"
  define s4 where "s4 = set_task ?i (tk_used_update (\<lambda>_. True)) s3"
  define s5 where "s5 = set_task ?i (tk_stack_base_update (\<lambda>_. stack)) s4"
  define s6 where "s6 = set_task ?i (tk_name_update (\<lambda>_. str_copy_n nm 16)) s5"
  note defs = s1_def s2_def s3_def s4_def s5_def s6_def
  have "s' = s\<lparr>theap := h, mem := m, task_count := ?i + 1,
      tasks := (tasks s)[?i := \<lparr>tk_esp = sp, tk_used = True, tk_name = str_copy_n nm 16, tk_stack_base = stack\<rparr>]\<rparr>"
    using c room k p by (auto simp: task_create_named_def Let_def)
  moreover obtain e u n b where "tasks s ! ?i = \<lparr>tk_esp = e, tk_used = u, tk_name = n, tk_stack_base = b\<rparr>" by (cases "tasks s ! ?i")
  ultimately have s6: "s6 = s'" using len by (simp add: defs set_task_def)
  have cur: "current_task s1 = me" "current_task s2 = me" "current_task s3 = me" "current_task s4 = me" "current_task s5 = me"
    by (simp_all add: defs s(2))
  have cnt: "task_count s1 = ?i" by (simp add: s1_def)
  have "task_micros me (s1, Push_words [] sp stack nm) [Statement, Statement, Ready ?i sp, Statement, Statement] (s6, No_call)"
    by (intro micros_step)
      (rule slot [OF cur(1), unfolded cnt, folded s2_def [unfolded cnt]] esp [OF cur(2), of ?i sp stack nm, folded s3_def]
        used [OF cur(3), of ?i sp stack nm, folded s4_def] base [OF cur(4), of ?i stack nm, folded s5_def]
        name [OF cur(5), of ?i nm, folded s6_def] task_micros.nil)+
  moreover have "task_micros me (s\<lparr>theap := h\<rparr>, Push_words [entry, 0, 0, 0, 0] (stack + TASK_STACK_SIZE) stack nm) (replicate 5 Statement)
      (s1, Push_words [] sp stack nm)"
    using push_micros [of "s\<lparr>theap := h\<rparr>" me "[entry, 0, 0, 0, 0]"] p s(2) by (simp add: s1_def numeral_eq_Suc)
  ultimately have "task_micros me (s, No_call) (Statement # Statement # replicate 5 Statement
      @ [Statement, Statement, Ready ?i sp, Statement, Statement]) (s6, No_call)"
    by (intro micros_step [OF task_micro.room [OF s(2) room]] micros_step [OF alloc [OF s(2) k]]) (rule micros_append)
  then show ?thesis unfolding s6 by (intro exI [of _ sp]) (simp add: numeral_eq_Suc)
qed

lemma kill_micros:
  assumes k: "task_kill tid s = Some (0, s')" and me: "current_task s = me"
  shows "task_micros me (s, No_call) [Statement, Freed (nat tid), Cleared] (s', No_call)"
proof -
  from k obtain h where h: "0 < tid" "tid < int (task_count s)" "tk_used (tasks s ! nat tid)" "tid \<noteq> current_task s"
    "kfree (tk_stack_base (tasks s ! nat tid)) (theap s) = Some h"
    and s': "s' = s\<lparr>theap := h, tasks := (tasks s)[nat tid := (tasks s ! nat tid)\<lparr>tk_used := False\<rparr>]\<rparr>"
    by (auto simp: task_kill_def split: if_splits bind_splits)
  have "set_task (nat tid) (tk_used_update (\<lambda>_. False)) (s\<lparr>theap := h\<rparr>) = s'" by (simp add: set_task_def s')
  then have "task_micro me (s\<lparr>theap := h\<rparr>, Clear_used tid) Cleared (s', No_call)"
    using clear [of "s\<lparr>theap := h\<rparr>" me tid] me by simp
  from micros_step [OF checks [OF me h(1-4)] micros_step [OF release [OF me h(5)] micros_step [OF this task_micros.nil]]] show ?thesis .
qed

section \<open>The suspended tasks\<close>

text \<open>What a tick does to the table, in detail: either nothing, or it makes another used task current, loads the stack
  pointer in that task's slot and saves the interrupted one in the slot of the task that was running.\<close>

lemma schedule_switch:
  assumes wf: "task_wf s" and s': "schedule esp s = Some (r, s')"
  shows "r = None \<and> s' = s \<or>
    (\<exists>n. r = Some (tk_esp (tasks s ! n)) \<and> task_used s n \<and> int n \<noteq> current_task s \<and>
       s' = s\<lparr>current_task := int n,
         tasks := (if current_task s = -1 then tasks s
           else (tasks s)[nat (current_task s) := (tasks s ! nat (current_task s))\<lparr>tk_esp := esp\<rparr>])\<rparr>)"
proof (cases "task_count s = 0")
  case True
  with s' schedule_idle show ?thesis by auto
next
  case False
  then have "0 < task_count s" "tk_used (tasks s ! 0)" using wf by (simp_all add: task_wf_def task_used_def)
  from next_used_first [OF this, of "current_task s"] obtain d where d: "tk_used (tasks s ! cyc (task_count s) (current_task s) d)"
    "next_used (tasks s) (task_count s) (current_task s) = Some (int (cyc (task_count s) (current_task s) d))" by blast
  let ?n = "cyc (task_count s) (current_task s) d"
  have n: "task_used s ?n" using d(1) cyc_less False by (simp add: task_used_def)
  have "nat (current_task s) \<noteq> ?n" if "int ?n \<noteq> current_task s" "current_task s \<noteq> -1"
    using wf that by (auto simp: task_wf_def)
  then show ?thesis using s' d(2) False n
    by (intro disjCI exI [of _ ?n]) (auto simp: schedule_def Let_def split: if_splits)
qed

text \<open>The ghost table: for every suspended task the stack pointer that was saved when it was last switched away from, or
  that of the initial stack built for it. A task leaves the table when it is resumed, and when its stack is freed. While
  a task is being killed, from the freeing of its stack until its slot is cleared, it is \<open>dying\<close>; what a tick saves of
  it then does not count. \<open>loads_ready\<close> says of the labels of a run that every stack pointer loaded is in the table, or
  that of the dying task.\<close>

fun loads_ready :: "(nat \<Rightarrow> u32 option) \<Rightarrow> nat option \<Rightarrow> task_label list \<Rightarrow> bool" where
  "loads_ready A dying [] \<longleftrightarrow> True"
| "loads_ready A dying (Timer esp prev None # ls) \<longleftrightarrow> loads_ready A dying ls"
| "loads_ready A dying (Timer esp prev (Some (n, e)) # ls) \<longleftrightarrow> (A n = Some e \<or> dying = Some n) \<and>
     loads_ready (\<lambda>i. if i = n then None else if int i = prev \<and> dying \<noteq> Some i then Some esp else A i) dying ls"
| "loads_ready A dying (Ready i sp # ls) \<longleftrightarrow> A i = None \<and> loads_ready (A(i \<mapsto> sp)) dying ls"
| "loads_ready A dying (Freed i # ls) \<longleftrightarrow> loads_ready (A(i := None)) (Some i) ls"
| "loads_ready A dying (Cleared # ls) \<longleftrightarrow> loads_ready A None ls"
| "loads_ready A dying (Statement # ls) \<longleftrightarrow> loads_ready A dying ls"

definition suspended :: "tasking \<Rightarrow> nat \<Rightarrow> u32 option" where
  "suspended s i = (if task_used s i \<and> int i \<noteq> current_task s then Some (tk_esp (tasks s ! i)) else None)"

definition dying_task :: "pending_call \<Rightarrow> nat option" where
  "dying_task p = (case p of Clear_used tid \<Rightarrow> Some (nat tid) | _ \<Rightarrow> None)"

text \<open>What holds between the statements: the table of suspended tasks is what the slots say, and the slot of a half made
  task is not in use.\<close>

definition half_done :: "int \<Rightarrow> tasking \<Rightarrow> pending_call \<Rightarrow> bool" where
  "half_done me s p \<longleftrightarrow>
     (case p of
        No_call \<Rightarrow> True
      | Allocate entry nm \<Rightarrow> task_count s < MAX_TASKS
      | Push_words ws sp stack nm \<Rightarrow> task_count s < MAX_TASKS
      | Store_esp i sp stack nm \<Rightarrow> 0 < i \<and> i < task_count s \<and> \<not> tk_used (tasks s ! i)
      | Store_used i sp stack nm \<Rightarrow> 0 < i \<and> i < task_count s \<and> \<not> tk_used (tasks s ! i) \<and> tk_esp (tasks s ! i) = sp
      | Store_base i stack nm \<Rightarrow> i < task_count s
      | Store_name i nm \<Rightarrow> i < task_count s
      | Free_stack tid \<Rightarrow> 0 < tid \<and> tid < int (task_count s) \<and> tid \<noteq> me
      | Clear_used tid \<Rightarrow> 0 < tid \<and> tid < int (task_count s) \<and> tid \<noteq> me)"

definition preempt_inv :: "int \<Rightarrow> (nat \<Rightarrow> u32 option) \<Rightarrow> tasking \<times> pending_call \<Rightarrow> bool" where
  "preempt_inv me A x \<longleftrightarrow> task_wf (fst x) \<and> 0 \<le> me \<and> task_used (fst x) (nat me)
     \<and> (\<forall>i<MAX_TASKS. task_count (fst x) \<le> i \<longrightarrow> \<not> tk_used (tasks (fst x) ! i))
     \<and> (\<forall>i. A i = (if dying_task (snd x) = Some i then None else suspended (fst x) i)) \<and> half_done me (fst x) (snd x)"

lemma set_task_used:
  assumes "task_wf s" "i < task_count s"
  shows "task_used (set_task i f s) j = (if j = i then tk_used (f (tasks s ! i)) else task_used s j)"
    "j < MAX_TASKS \<Longrightarrow> tasks (set_task i f s) ! j = (if j = i then f (tasks s ! i) else tasks s ! j)"
  using assms by (simp_all add: task_used_def task_wf_def tasks_set_task)

lemma set_task_wf:
  assumes wf: "task_wf s" and i: "i < task_count s" and f: "tk_used (f (tasks s ! i)) = tk_used (tasks s ! i) \<or> tk_used (f (tasks s ! i)) \<or>
    i \<noteq> 0 \<and> current_task s \<noteq> int i"
  shows "task_wf (set_task i f s)"
proof -
  have "task_used (set_task i f s) j" if "task_used s j" "j = 0 \<or> current_task s = int j" for j
    using f that set_task_used(1) [OF wf i, of f j] i by (cases "j = i") (auto simp: task_used_def)
  then show ?thesis using wf by (auto simp: task_wf_def)
qed

text \<open>One store into a slot: what it does to the suspended tasks.\<close>

lemma suspended_set_task:
  assumes "task_wf s" "i < task_count s"
  shows "suspended (set_task i f s) = (suspended s)(i := if tk_used (f (tasks s ! i)) \<and> int i \<noteq> current_task s
    then Some (tk_esp (f (tasks s ! i))) else None)"
proof
  fix j
  have "length (tasks s) = MAX_TASKS" "task_count s \<le> MAX_TASKS" using assms(1) by (simp_all add: task_wf_def)
  with assms(2) show "suspended (set_task i f s) j = ((suspended s)(i := if tk_used (f (tasks s ! i)) \<and> int i \<noteq> current_task s
    then Some (tk_esp (f (tasks s ! i))) else None)) j"
    by (simp add: suspended_def set_task_used(1) [OF assms] tasks_set_task)
qed

lemma preempt_store:
  assumes J: "preempt_inv me A (s, p)" and i: "i < task_count s" "current_task s = me"
    and f: "tk_used (f (tasks s ! i)) = tk_used (tasks s ! i) \<or> tk_used (f (tasks s ! i)) \<or> i \<noteq> 0 \<and> me \<noteq> int i"
    and A: "\<forall>j. A' j = (if dying_task p' = Some j then None else suspended (set_task i f s) j)"
    and p': "half_done me (set_task i f s) p'"
  shows "preempt_inv me A' (set_task i f s, p')"
proof -
  note j = J [unfolded preempt_inv_def fst_conv snd_conv]
  have wf: "task_wf s" using j by blast
  note set = set_task_used [OF wf i(1)]
  have "task_used (set_task i f s) (nat me)" using j f set(1) [of f "nat me"] by (auto simp: task_used_def)
  moreover have "\<not> tk_used (tasks (set_task i f s) ! k)" if "k < MAX_TASKS" "task_count s \<le> k" for k
    using that j i(1) set(2) [OF that(1), of f] by auto
  moreover have "task_wf (set_task i f s)" by (rule set_task_wf [OF wf i(1)]) (use f i(2) in blast)
  ultimately show ?thesis using j p' A by (simp add: preempt_inv_def)
qed

lemma preempt_timer:
  assumes J: "preempt_inv me A (s, p)" and s': "schedule esp s = Some (r, s')"
  shows "\<exists>A'. preempt_inv me A' (s', p) \<and> (\<forall>ls. loads_ready A' (dying_task p) ls \<longrightarrow>
    loads_ready A (dying_task p) (Timer esp (current_task s) (map_option (\<lambda>e. (nat (current_task s'), e)) r) # ls))"
proof -
  note j = J [unfolded preempt_inv_def fst_conv snd_conv]
  have wf: "task_wf s" using j by blast
  note keep = schedule_used [OF wf s']
  from schedule_switch [OF wf s'] show ?thesis
  proof (elim disjE exE conjE)
    assume "r = None" "s' = s"
    with J show ?thesis by (intro exI [of _ A]) simp
  next
    fix n
    assume n: "r = Some (tk_esp (tasks s ! n))" "task_used s n" "int n \<noteq> current_task s"
      and t: "s' = s\<lparr>current_task := int n, tasks := (if current_task s = -1 then tasks s
        else (tasks s)[nat (current_task s) := (tasks s ! nat (current_task s))\<lparr>tk_esp := esp\<rparr>])\<rparr>"
    let ?A = "\<lambda>i. if i = n then None else if int i = current_task s \<and> dying_task p \<noteq> Some i then Some esp else A i"
    have cur: "task_used s i" if "int i = current_task s" for i using wf by (auto simp: task_wf_def simp flip: that)
    have len: "nat (current_task s) < length (tasks s)" using task_wf_current [OF wf] wf by (auto simp: task_wf_def MAX_TASKS_def)
    have slot: "tasks s' ! i = (if int i = current_task s then (tasks s ! i)\<lparr>tk_esp := esp\<rparr> else tasks s ! i)" for i
    proof (cases "current_task s = -1")
      case False
      then have "nat (current_task s) = i \<longleftrightarrow> int i = current_task s" using task_wf_current [OF wf] by (auto simp: nat_eq_iff)
      with False len show ?thesis by (auto simp: t nth_list_update)
    qed (simp add: t)
    have flag: "tk_used (tasks s' ! i) = tk_used (tasks s ! i)" for i by (simp add: slot)
    have "suspended s' i = (if i = n then None else if int i = current_task s then Some esp else suspended s i)" for i
      using keep(1) [of i] cur [of i] by (simp add: suspended_def slot) (simp add: t)
    then have "?A i = (if dying_task p = Some i then None else suspended s' i)" for i using j by simp
    moreover have "half_done me s' p"
    proof -
      have "tk_esp (tasks s' ! i) = tk_esp (tasks s ! i)" if "\<not> tk_used (tasks s ! i)" for i
        using that cur [of i] by (auto simp: slot task_used_def)
      then show ?thesis using j keep(3) flag unfolding half_done_def by (cases p) auto
    qed
    moreover have "loads_ready ?A (dying_task p) ls \<Longrightarrow>
        loads_ready A (dying_task p) (Timer esp (current_task s) (map_option (\<lambda>e. (nat (current_task s'), e)) r) # ls)" for ls
      using j n(2,3) by (simp add: n(1) t suspended_def)
    moreover have "task_count s' = task_count s" by (rule keep(3))
    ultimately show ?thesis using j keep flag by (intro exI [of _ ?A]) (simp add: preempt_inv_def)
  qed
qed

lemma preempt_step:
  assumes "task_micro me x l y" "preempt_inv me A x"
  shows "\<exists>A'. preempt_inv me A' y \<and> (\<forall>ls. loads_ready A' (dying_task (snd y)) ls \<longrightarrow> loads_ready A (dying_task (snd x)) (l # ls))"
  using assms
proof cases
  case (room s entry nm)
  with assms(2) show ?thesis by (intro exI [of _ A]) (auto simp: preempt_inv_def half_done_def dying_task_def)
next
  case (alloc s stack h entry nm)
  have "task_wf (s\<lparr>theap := h\<rparr>) = task_wf s" by (simp add: task_wf_def task_used_def)
  with alloc assms(2) show ?thesis
    by (intro exI [of _ A]) (auto simp: preempt_inv_def half_done_def dying_task_def suspended_def task_used_def)
next
  case (push s w sp sp' m ws stack nm)
  have "task_wf (s\<lparr>mem := m\<rparr>) = task_wf s" by (simp add: task_wf_def task_used_def)
  with push assms(2) show ?thesis
    by (intro exI [of _ A]) (auto simp: preempt_inv_def half_done_def dying_task_def suspended_def task_used_def)
next
  case (slot s sp stack nm)
  note j = assms(2) [unfolded slot(1) preempt_inv_def fst_conv snd_conv]
  let ?s = "s\<lparr>task_count := task_count s + 1\<rparr>"
  have c: "task_count s < MAX_TASKS" using j by (simp add: half_done_def)
  have n: "0 < task_count s" using j by (auto simp: task_used_def)
  have free: "\<not> tk_used (tasks s ! task_count s)" using j c by blast
  then have used: "task_used ?s i = task_used s i" for i by (auto simp: task_used_def less_Suc_eq)
  have "task_wf ?s" using j c n used by (simp add: task_wf_def)
  then show ?thesis using j slot used c n free
    by (intro exI [of _ A]) (auto simp: preempt_inv_def half_done_def dying_task_def suspended_def)
next
  case (esp s i sp stack nm)
  then have h: "i < task_count s" "\<not> tk_used (tasks s ! i)" "task_wf s" "0 < i"
    using assms(2) by (simp_all add: preempt_inv_def half_done_def)
  have "suspended s i = None" using h(2) by (simp add: suspended_def task_used_def)
  moreover have "i < MAX_TASKS" using h(1,3) by (simp add: task_wf_def)
  ultimately have "preempt_inv me A (set_task i (tk_esp_update (\<lambda>_. sp)) s, Store_used i sp stack nm)"
    using esp h assms(2) set_task_used(2) [OF h(3,1)] suspended_set_task [OF h(3,1)]
    by (intro preempt_store [OF assms(2) [unfolded esp(1)]]) (auto simp: half_done_def dying_task_def preempt_inv_def)
  with esp show ?thesis by (auto simp: dying_task_def)
next
  case (used s i sp stack nm)
  then have h: "i < task_count s" "\<not> tk_used (tasks s ! i)" "tk_esp (tasks s ! i) = sp" "task_wf s" "task_used s (nat me)" "0 \<le> me"
    using assms(2) by (simp_all add: preempt_inv_def half_done_def)
  have me: "int i \<noteq> current_task s"
  proof
    assume "int i = current_task s"
    then have "nat me = i" using used by (simp flip: \<open>int i = current_task s\<close>)
    with h(2,5) show False by (simp add: task_used_def)
  qed
  have none: "A i = None" using assms(2) h(2) used by (simp add: preempt_inv_def suspended_def task_used_def)
  have "preempt_inv me (A(i \<mapsto> sp)) (set_task i (tk_used_update (\<lambda>_. True)) s, Store_base i stack nm)"
    using used h me assms(2) suspended_set_task [OF h(4,1)]
    by (intro preempt_store [OF assms(2) [unfolded used(1)]]) (auto simp: half_done_def dying_task_def preempt_inv_def)
  with used none show ?thesis by (auto simp: dying_task_def)
next
  case (base s i stack nm)
  then have h: "i < task_count s" "task_wf s" using assms(2) by (simp_all add: preempt_inv_def half_done_def)
  have "preempt_inv me A (set_task i (tk_stack_base_update (\<lambda>_. stack)) s, Store_name i nm)"
    using base h assms(2) suspended_set_task [OF h(2,1)]
    by (intro preempt_store [OF assms(2) [unfolded base(1)]]) (auto simp: half_done_def dying_task_def preempt_inv_def suspended_def task_used_def)
  with base show ?thesis by (auto simp: dying_task_def)
next
  case (name s i nm)
  then have h: "i < task_count s" "task_wf s" using assms(2) by (simp_all add: preempt_inv_def half_done_def)
  have "preempt_inv me A (set_task i (tk_name_update (\<lambda>_. str_copy_n nm 16)) s, No_call)"
    using name h assms(2) suspended_set_task [OF h(2,1)]
    by (intro preempt_store [OF assms(2) [unfolded name(1)]]) (auto simp: half_done_def dying_task_def preempt_inv_def suspended_def task_used_def)
  with name show ?thesis by (auto simp: dying_task_def)
next
  case (checks s tid)
  with assms(2) show ?thesis by (intro exI [of _ A]) (auto simp: preempt_inv_def half_done_def dying_task_def)
next
  case (release s tid h)
  have "task_wf (s\<lparr>theap := h\<rparr>) = task_wf s" by (simp add: task_wf_def task_used_def)
  then show ?thesis using assms(2) release
    by (intro exI [of _ "A(nat tid := None)"]) (auto simp: preempt_inv_def half_done_def dying_task_def suspended_def task_used_def)
next
  case (clear s tid)
  then have h: "0 < tid" "tid < int (task_count s)" "tid \<noteq> me" "task_wf s" "nat tid < task_count s"
    using assms(2) by (simp_all add: preempt_inv_def half_done_def nat_less_iff)
  have "preempt_inv me A (set_task (nat tid) (tk_used_update (\<lambda>_. False)) s, No_call)"
    using clear h assms(2) suspended_set_task [OF h(4,5)]
    by (intro preempt_store [OF assms(2) [unfolded clear(1)]]) (auto simp: half_done_def dying_task_def preempt_inv_def)
  with clear show ?thesis by (auto simp: dying_task_def)
next
  case (timer esp s r s' p)
  with preempt_timer [of me A s p esp r s'] assms(2) show ?thesis by simp
qed

lemma preempt_run:
  "task_micros me x ls y \<Longrightarrow> preempt_inv me A x \<Longrightarrow> (\<exists>A'. preempt_inv me A' y) \<and> loads_ready A (dying_task (snd x)) ls"
proof (induction arbitrary: A rule: task_micros.induct)
  case (cons x l y ls z)
  from preempt_step [OF cons.hyps(1) cons.prems] obtain A' where
    "preempt_inv me A' y" "loads_ready A' (dying_task (snd y)) ls \<longrightarrow> loads_ready A (dying_task (snd x)) (l # ls)" by blast
  with cons.IH show ?case by blast
qed auto

lemma schedule_returns: "task_wf s \<Longrightarrow> \<exists>r s'. schedule esp s = Some (r, s')"
  using schedule_picks [of s esp] schedule_idle [of s esp] by (cases "task_count s = 0") blast+

text \<open>C9. The scheduler may interrupt the creation and the killing of tasks, one call at a time, between any two statements. At every moment the
  table is well formed, so that the scheduler's search ends. Every stack pointer that a tick loads is the one that the tick
  saved which last suspended that task, or that of the initial stack built for the new task, and each is loaded
  once - never what an unfinished slot holds: the slot counts as used only after its stack pointer is stored. There is
  exactly one exception, between the freeing of a task's stack and the clearing of its slot in \<open>task_kill\<close>: a tick may
  then resume the task that is being killed (\<open>killed_task_resumed\<close>), no other one, and once the slot is cleared it
  is never resumed again.\<close>

theorem create_kill_preemptible:
  assumes "task_wf s" "0 \<le> me" "task_used s (nat me)" "\<forall>i<MAX_TASKS. task_count s \<le> i \<longrightarrow> \<not> tk_used (tasks s ! i)"
    and "task_micros me (s, No_call) ls (s', p)"
  shows "task_wf s' \<and> (\<forall>esp. \<exists>r s''. schedule esp s' = Some (r, s'')) \<and> loads_ready (suspended s) None ls"
proof -
  have "preempt_inv me (suspended s) (s, No_call)"
    using assms(1-4) by (simp add: preempt_inv_def half_done_def dying_task_def)
  from preempt_run [OF assms(5) this] schedule_returns show ?thesis by (auto simp: preempt_inv_def dying_task_def)
qed

text \<open>The slot has been taken, its stack pointer not yet stored, and the timer strikes: it picks a task that is ready.\<close>

lemma create_kill_preemptible_witness:
  "\<exists>s' p. task_micros 0 (three_tasks, No_call) (replicate 8 Statement @ [Timer 7 0 (Some (2, 2))]) (s', p) \<and> task_wf s' \<and>
    loads_ready (suspended three_tasks) None (replicate 8 Statement @ [Timer 7 0 (Some (2, 2))])"
proof -
  obtain stack h where k: "kmalloc TASK_STACK_SIZE (theap three_tasks) = Some (stack, h)"
    using kmalloc_refines [OF boot_heap_rep, of TASK_STACK_SIZE] by (auto simp: unat_align4 TASK_STACK_SIZE_def three_tasks_def)
  let ?s0 = "three_tasks\<lparr>theap := h\<rparr>"
  have flags: "current_task three_tasks = 0" "task_count three_tasks = 3" "\<not> task_count three_tasks \<ge> MAX_TASKS" "current_task ?s0 = 0"
    by (simp_all add: three_tasks_def MAX_TASKS_def)
  obtain sp m where p: "fold push_word [0x1000, 0, 0, 0, 0] (stack + TASK_STACK_SIZE, mem ?s0) = (sp, m)" by fastforce
  let ?s1 = "?s0\<lparr>mem := m\<rparr>" and ?at = "Store_esp 3 sp stack ''t''"
  let ?s2 = "?s1\<lparr>task_count := 4\<rparr>"
  have s2: "task_micro 0 (?s1, Push_words [] sp stack ''t'') Statement (?s2, ?at)" using slot [of ?s1 0 sp stack "''t''"] flags by simp
  have "next_used (tasks ?s2) 4 0 = Some 2"
    by (subst next_used_step, subst next_used_step) (simp add: three_tasks_def)
  then obtain s' where s': "schedule 7 ?s2 = Some (Some 2, s')" "current_task s' = 2"
    by (simp add: schedule_def flags Let_def) (simp add: three_tasks_def)
  have s3: "task_micro 0 (?s2, ?at) (Timer 7 0 (Some (2, 2))) (s', ?at)" using timer [OF s'(1)] s'(2) flags by simp
  have "task_micros 0 (three_tasks, No_call) ([Statement, Statement] @ replicate (length [0x1000 :: u32, 0, 0, 0, 0]) Statement
      @ [Statement, Timer 7 0 (Some (2, 2))]) (s', ?at)"
    unfolding append.simps
    by (intro micros_step [OF room [OF flags(1,3), of "0x1000" "''t''"]] micros_step [OF alloc [OF flags(1) k]] micros_append [OF push_micros [OF flags(4) p]]
        micros_step [OF s2] micros_step [OF s3] task_micros.nil)
  then have run: "task_micros 0 (three_tasks, No_call) (replicate 8 Statement @ [Timer 7 0 (Some (2, 2))]) (s', ?at)"
    by (simp add: numeral_eq_Suc)
  have "task_used three_tasks (nat 0)" "\<forall>i<MAX_TASKS. task_count three_tasks \<le> i \<longrightarrow> \<not> tk_used (tasks three_tasks ! i)"
    by (auto simp: three_tasks_def task_used_def MAX_TASKS_def)
  from create_kill_preemptible [OF three_tasks_wf _ this run] run show ?thesis by blast
qed

text \<open>The exception does happen: when the task to be killed is the next one in the scheduler's order, a timer interrupt
  between \<open>kfree\<close> and \<open>used = 0\<close> makes it run on the stack that has just been given back to the heap.\<close>

theorem killed_task_resumed:
  assumes "task_inv lo hi s" "current_task s = me" "0 \<le> me" "0 < tid" "task_used s (nat tid)"
    and "next_used (tasks s) (task_count s) me = Some tid" "tid \<noteq> me"
  shows "\<exists>s'. task_micros me (s, No_call) [Statement, Freed (nat tid), Timer esp me (Some (nat tid, tk_esp (tasks s ! nat tid)))]
      (s', Clear_used tid) \<and> current_task s' = tid \<and> kfree (stack_of s (nat tid)) (theap s) = Some (theap s')"
proof -
  obtain r s1 where "task_kill tid s = Some (r, s1)" using kill_inv [OF assms(1)] by blast
  with assms obtain h where h: "kfree (tk_stack_base (tasks s ! nat tid)) (theap s) = Some h"
    by (auto simp: task_kill_def task_used_def nat_less_iff split: if_splits bind_splits)
  have g: "current_task s = me" "0 < tid" "tid < int (task_count s)" "tk_used (tasks s ! nat tid)" "tid \<noteq> current_task s"
    using assms by (auto simp: task_used_def nat_less_iff)
  let ?s1 = "s\<lparr>theap := h\<rparr>"
  have "nat tid \<noteq> nat me" using assms(3,4,7) by auto
  then obtain s2 where s2: "schedule esp ?s1 = Some (Some (tk_esp (tasks s ! nat tid)), s2)" "current_task s2 = tid" "theap s2 = h"
    using assms g by (simp add: schedule_def Let_def)
  have t: "task_micro me (?s1, Clear_used tid) (Timer esp me (Some (nat tid, tk_esp (tasks s ! nat tid)))) (s2, Clear_used tid)"
    using timer [OF s2(1)] s2(2) assms(2) by simp
  have "task_micros me (s, No_call) [Statement, Freed (nat tid), Timer esp me (Some (nat tid, tk_esp (tasks s ! nat tid)))]
      (s2, Clear_used tid)"
    by (intro micros_step [OF checks [OF g]] micros_step [OF release [OF g(1) h]] micros_step [OF t] task_micros.nil)
  with s2(2,3) h show ?thesis by (intro exI [of _ s2]) (simp only: stack_of_def simp_thms)
qed

end
