(* ===== verification/Terminal.thy ===== *)
theory Terminal
  imports Shell
begin

text \<open>
  What the console of \<open>kernel/kernel.c\<close> promises to those who print on it: it is a window of 25 rows on a roll of
  paper without end. The roll is the specification; \<open>vga_putchar\<close>, with its cell indices, its wrapping, its
  backspace and its scrolling loops, refines it, and so does every sequence of console operations of the shell.
\<close>

section \<open>The roll\<close>

text \<open>The complete rows, the row being written, and how many of the complete rows have left the screen.\<close>

record roll =
  roll_rows :: "u16 list list"
  roll_line :: "u16 list"
  roll_top :: nat

definition blank_cell :: u16 where
  "blank_cell = vga_cell CHR '' ''"

definition pad_row :: "u16 list \<Rightarrow> u16 list" where
  "pad_row l = l @ replicate (VGA_WIDTH - length l) blank_cell"

definition roll_empty :: roll where
  "roll_empty = \<lparr>roll_rows = [], roll_line = [], roll_top = 0\<rparr>"

text \<open>Going to a new row; the last 24 complete rows stay on the screen.\<close>

definition roll_break :: "roll \<Rightarrow> roll" where
  "roll_break r =
     (let rows = roll_rows r @ [pad_row (roll_line r)]
      in \<lparr>roll_rows = rows, roll_line = [], roll_top = max (roll_top r) (length rows - (VGA_HEIGHT - 1))\<rparr>)"

text \<open>A backspace at the start of a row goes back to the end of the row above, as long as that is on the screen.\<close>

definition roll_put :: "char \<Rightarrow> roll \<Rightarrow> roll" where
  "roll_put c r =
     (if c = CHR 0x0A then roll_break r
      else if c = CHR 0x08 then
        (if roll_line r \<noteq> [] then r\<lparr>roll_line := butlast (roll_line r)\<rparr>
         else if roll_top r < length (roll_rows r)
         then r\<lparr>roll_rows := butlast (roll_rows r), roll_line := take (VGA_WIDTH - 1) (last (roll_rows r))\<rparr>
         else r)
      else
        (let r = r\<lparr>roll_line := roll_line r @ [vga_cell c]\<rparr>
         in if length (roll_line r) = VGA_WIDTH then roll_break r else r))"

definition roll_print :: "string \<Rightarrow> roll \<Rightarrow> roll" where
  "roll_print = fold roll_put"

text \<open>The 25 rows seen.\<close>

definition rows_shown :: "roll \<Rightarrow> nat" where
  "rows_shown r = length (roll_rows r) - roll_top r"

definition roll_screen :: "roll \<Rightarrow> u16 list" where
  "roll_screen r = concat (drop (roll_top r) (roll_rows r)) @ pad_row (roll_line r)
     @ replicate ((VGA_HEIGHT - 1 - rows_shown r) * VGA_WIDTH) blank_cell"

definition shows_roll :: "vga \<Rightarrow> roll \<Rightarrow> bool" where
  "shows_roll v r \<longleftrightarrow> vga_buffer v = roll_screen r \<and> cursor_row v = rows_shown r \<and> cursor_col v = length (roll_line r)"

definition roll_wf :: "roll \<Rightarrow> bool" where
  "roll_wf r \<longleftrightarrow> list_all (\<lambda>x. length x = VGA_WIDTH) (roll_rows r) \<and> length (roll_line r) < VGA_WIDTH
     \<and> roll_top r \<le> length (roll_rows r) \<and> rows_shown r < VGA_HEIGHT"

section \<open>Lemmas on rows\<close>

lemma length_rows: "list_all (\<lambda>x. length x = 80) rows \<Longrightarrow> length (concat rows) = length rows * 80"
  by (induction rows) auto

lemma length_pad_row [simp]: "length l \<le> VGA_WIDTH \<Longrightarrow> length (pad_row l) = VGA_WIDTH"
  by (simp add: pad_row_def)

lemma pad_row_snoc: "length l < VGA_WIDTH \<Longrightarrow> (pad_row l)[length l := x] = pad_row (l @ [x])"
proof -
  assume "length l < VGA_WIDTH"
  then obtain n where "VGA_WIDTH - length l = Suc n" by (cases "VGA_WIDTH - length l") auto
  then have "VGA_WIDTH - length l = Suc n" "VGA_WIDTH - length (l @ [x]) = n" by simp_all
  then show ?thesis by (simp only: pad_row_def replicate_Suc list_update_length append_assoc append.simps)
qed

lemma pad_row_butlast: "l \<noteq> [] \<Longrightarrow> length l \<le> VGA_WIDTH \<Longrightarrow> (pad_row l)[length l - 1 := blank_cell] = pad_row (butlast l)"
proof -
  assume l: "l \<noteq> []" "length l \<le> VGA_WIDTH"
  then obtain m x where m: "l = m @ [x]" by (cases l rule: rev_cases) auto
  then have n: "VGA_WIDTH - length m = Suc (VGA_WIDTH - length l)" using l(2) by simp
  have "(pad_row l)[length l - 1 := blank_cell] = m @ blank_cell # replicate (VGA_WIDTH - length l) blank_cell"
    by (simp add: pad_row_def m)
  then show ?thesis by (simp only: n m butlast_snoc replicate_Suc pad_row_def)
qed

lemma pad_row_full [simp]: "length l = VGA_WIDTH \<Longrightarrow> pad_row l = l"
  by (simp add: pad_row_def)

lemma pad_row_Nil: "pad_row [] = replicate VGA_WIDTH blank_cell"
  by (simp add: pad_row_def)

text \<open>The cell at a row and column, where the rows above are complete.\<close>

lemma screen_update:
  assumes "list_all (\<lambda>x. length x = 80) rows" "n = length rows" "i < length l"
  shows "(concat rows @ l @ zs)[n * 80 + i := x] = concat rows @ l[i := x] @ zs"
  using assms length_rows [OF assms(1)] by (simp add: list_update_append)

section \<open>The screen refines the roll\<close>

lemma length_roll_screen: "roll_wf r \<Longrightarrow> length (roll_screen r) = VGA_WIDTH * VGA_HEIGHT"
proof -
  assume wf: "roll_wf r"
  then have "list_all (\<lambda>x. length x = 80) (drop (roll_top r) (roll_rows r))"
    by (auto simp: roll_wf_def vga_consts list_all_iff dest: in_set_dropD)
  from length_rows [OF this] have "length (concat (drop (roll_top r) (roll_rows r))) = rows_shown r * 80"
    by (simp add: rows_shown_def)
  moreover have "rows_shown r * 80 + (24 - rows_shown r) * 80 = 1920" using wf
    by (simp add: roll_wf_def vga_consts add_mult_distrib [symmetric])
  ultimately show ?thesis using wf by (simp add: roll_screen_def roll_wf_def vga_consts)
qed

lemma break_shows:
  assumes rows: "list_all (\<lambda>x. length x = VGA_WIDTH) (roll_rows r)" and line: "length (roll_line r) \<le> VGA_WIDTH"
    and top: "roll_top r \<le> length (roll_rows r)" "rows_shown r < VGA_HEIGHT" and v: "vga_buffer v = roll_screen r"
  shows "roll_wf (roll_break r)"
    "shows_roll (vga_scroll_if_needed (v\<lparr>cursor_col := 0, cursor_row := rows_shown r + 1\<rparr>)) (roll_break r)"
proof -
  let ?b = "roll_break r" and ?n = "rows_shown r"
  have b: "roll_rows ?b = roll_rows r @ [pad_row (roll_line r)]" "roll_line ?b = []"
    "roll_top ?b = (if ?n = 24 then Suc (roll_top r) else roll_top r)"
    "rows_shown ?b = (if ?n = 24 then 24 else Suc ?n)"
    using top by (auto simp: roll_break_def Let_def rows_shown_def vga_consts)
  show "roll_wf ?b" using rows line top unfolding roll_wf_def b by (auto simp: vga_consts rows_shown_def)
  have drop: "drop (roll_top ?b) (roll_rows ?b) = drop (roll_top ?b) (roll_rows r) @ [pad_row (roll_line r)]"
    using top(1) by (auto simp: b rows_shown_def)
  show "shows_roll (vga_scroll_if_needed (v\<lparr>cursor_col := 0, cursor_row := ?n + 1\<rparr>)) ?b"
  proof (cases "?n = 24")
    case False
    then obtain k where k: "24 - ?n = Suc k" "23 - ?n = k" using top(2) that [of "23 - ?n"] by (simp add: vga_consts)
    with False top(1) have "roll_screen ?b = roll_screen r"
      unfolding roll_screen_def drop b by (simp add: b pad_row_Nil vga_consts replicate_add)
    with False top(2) v show ?thesis by (simp add: shows_roll_def vga_scroll_if_needed_def b vga_consts)
  next
    case True
    have "drop (roll_top r) (roll_rows r) = roll_rows r ! roll_top r # drop (Suc (roll_top r)) (roll_rows r)"
      using True by (intro Cons_nth_drop_Suc [symmetric]) (simp add: rows_shown_def)
    moreover have "length (roll_rows r ! roll_top r) = 80"
      using rows True by (simp add: list_all_length rows_shown_def vga_consts)
    moreover have "Suc (roll_top r) \<le> length (roll_rows r)" using True by (simp add: rows_shown_def)
    ultimately have "roll_screen ?b = drop 80 (roll_screen r) @ replicate 80 blank_cell"
      using True unfolding roll_screen_def drop b by (simp add: b pad_row_Nil vga_consts)
    moreover have "length (vga_buffer v) = 2000"
      using v rows line top length_roll_screen [of "r\<lparr>roll_line := []\<rparr>"]
      by (simp add: roll_wf_def roll_screen_def rows_shown_def vga_consts)
    ultimately show ?thesis
      using vga_scroll_shifts [of "v\<lparr>cursor_col := 0, cursor_row := ?n + 1\<rparr>"] True v
      by (simp add: shows_roll_def b vga_consts blank_cell_def)
        (simp add: vga_scroll_if_needed_def)
  qed
qed

text \<open>Where the cell of the row being written, or the last one of the row above, is.\<close>

lemma roll_screen_at:
  assumes "list_all (\<lambda>x. length x = VGA_WIDTH) (roll_rows r)" "length (roll_line r) \<le> VGA_WIDTH" "i < VGA_WIDTH"
  shows "(roll_screen r)[rows_shown r * VGA_WIDTH + i := x] = concat (drop (roll_top r) (roll_rows r))
     @ (pad_row (roll_line r))[i := x] @ replicate ((VGA_HEIGHT - 1 - rows_shown r) * VGA_WIDTH) blank_cell"
  unfolding roll_screen_def vga_consts
  by (rule screen_update) (use assms in \<open>auto simp: rows_shown_def vga_consts list_all_iff pad_row_def dest: in_set_dropD\<close>)

lemma write_shows:
  assumes "roll_wf r"
  shows "(roll_screen r)[rows_shown r * VGA_WIDTH + length (roll_line r) := x] = roll_screen (r\<lparr>roll_line := roll_line r @ [x]\<rparr>)"
  using roll_screen_at [of r "length (roll_line r)" x] pad_row_snoc [of "roll_line r" x] assms
  by (simp add: roll_wf_def) (simp add: roll_screen_def rows_shown_def)

lemma back_shows:
  assumes rows: "list_all (\<lambda>x. length x = VGA_WIDTH) (roll_rows r)" and l: "length (roll_line r) \<le> VGA_WIDTH" "roll_line r \<noteq> []"
  shows "(roll_screen r)[rows_shown r * VGA_WIDTH + (length (roll_line r) - 1) := blank_cell]
    = roll_screen (r\<lparr>roll_line := butlast (roll_line r)\<rparr>)"
proof -
  have "length (roll_line r) - 1 < VGA_WIDTH" using l by (cases "roll_line r") simp_all
  with roll_screen_at [OF rows l(1) this, of blank_cell] pad_row_butlast [OF l(2,1)] show ?thesis
    by simp (simp add: roll_screen_def rows_shown_def)
qed

text \<open>Going back over the edge: the row above is taken up again.\<close>

lemma reopen_screen:
  assumes wf: "roll_wf r" and l: "roll_line r = []" and t: "roll_top r < length (roll_rows r)"
    and r': "r' = r\<lparr>roll_rows := butlast (roll_rows r), roll_line := last (roll_rows r)\<rparr>"
  shows "roll_screen r = roll_screen r'" "rows_shown r = Suc (rows_shown r')" "rows_shown r' < VGA_HEIGHT - 1"
proof -
  from t obtain rows x where rows: "roll_rows r = rows @ [x]" by (cases "roll_rows r" rule: rev_cases) auto
  show n: "rows_shown r = Suc (rows_shown r')" "rows_shown r' < VGA_HEIGHT - 1"
    using t wf by (auto simp: r' rows rows_shown_def roll_wf_def vga_consts)
  have x: "length x = VGA_WIDTH" using wf by (simp add: roll_wf_def rows)
  have "VGA_HEIGHT - 1 - rows_shown r' = Suc (VGA_HEIGHT - 1 - rows_shown r)" using n by simp
  then show "roll_screen r = roll_screen r'"
    using t x by (simp add: roll_screen_def l r' rows pad_row_Nil replicate_add)
qed

lemma put_over_edge:
  assumes wf: "roll_wf r" and v: "shows_roll v r" and l: "roll_line r = []" and t: "roll_top r < length (roll_rows r)"
  shows "roll_wf (roll_put CHR 0x08 r) \<and> shows_roll (fst (vga_putchar CHR 0x08 v)) (roll_put CHR 0x08 r)"
proof -
  define r' where "r' = r\<lparr>roll_rows := butlast (roll_rows r), roll_line := last (roll_rows r)\<rparr>"
  note re = reopen_screen [OF wf l t r'_def]
  obtain rows x where rows: "roll_rows r = rows @ [x]" using t by (cases "roll_rows r" rule: rev_cases) auto
  then have r': "list_all (\<lambda>x. length x = VGA_WIDTH) (roll_rows r')" "length (roll_line r') = VGA_WIDTH" "roll_top r' \<le> length (roll_rows r')"
    using wf t by (simp_all add: r'_def roll_wf_def)
  have w: "VGA_WIDTH - 1 < VGA_WIDTH" "roll_line r' \<noteq> []" using r'(2) by (auto simp: vga_consts)
  have put: "roll_put CHR 0x08 r = r'\<lparr>roll_line := butlast (roll_line r')\<rparr>"
    using l t r'(2) by (simp add: roll_put_def r'_def butlast_conv_take)
  have shown: "rows_shown (r'\<lparr>roll_line := l\<rparr>) = rows_shown r'" for l by (simp add: rows_shown_def)
  have "vga_place CHR 0x08 v = v\<lparr>cursor_row := rows_shown r', cursor_col := VGA_WIDTH - 1,
      vga_buffer := (vga_buffer v)[rows_shown r' * VGA_WIDTH + (length (roll_line r') - 1) := blank_cell]\<rparr>"
    using l v by (simp add: vga_place_def Let_def shows_roll_def re(2) r'(2) blank_cell_def)
  then show ?thesis using r' w re(3) back_shows [OF r'(1) _ w(2)] v re(1) unfolding put
    by (simp add: vga_putchar_def Let_def vga_scroll_if_needed_def shows_roll_def roll_wf_def shown)
qed

lemma put_shows:
  assumes wf: "roll_wf r" and v: "shows_roll v r"
  shows "roll_wf (roll_put c r) \<and> shows_roll (fst (vga_putchar c v)) (roll_put c r)"
proof -
  have buf: "vga_buffer v = roll_screen r" and at: "cursor_row v = rows_shown r" "cursor_col v = length (roll_line r)"
    using v by (simp_all add: shows_roll_def)
  have shown: "rows_shown (r\<lparr>roll_line := l\<rparr>) = rows_shown r" for l by (simp add: rows_shown_def)
  note wfD = wf [unfolded roll_wf_def]
  have stay: "vga_scroll_if_needed w = w" if "cursor_row w < VGA_HEIGHT" for w using that by (simp add: vga_scroll_if_needed_def)
  consider "c = CHR 0x0A" | "c = CHR 0x08" "roll_line r \<noteq> []"
    | "c = CHR 0x08" "roll_line r = []" "roll_top r < length (roll_rows r)"
    | "c = CHR 0x08" "roll_line r = []" "\<not> roll_top r < length (roll_rows r)"
    | "c \<noteq> CHR 0x0A" "c \<noteq> CHR 0x08" by blast
  then show ?thesis
  proof cases
    case 1
    have "v\<lparr>cursor_col := 0, cursor_row := cursor_row v + 1\<rparr> = v\<lparr>cursor_col := 0, cursor_row := rows_shown r + 1\<rparr>" by (simp add: at)
    with 1 break_shows [of r v] wfD buf show ?thesis by (simp add: roll_put_def vga_putchar_def vga_place_def Let_def)
  next
    case 2
    have "vga_place c v = v\<lparr>cursor_col := length (roll_line r) - 1,
        vga_buffer := (vga_buffer v)[rows_shown r * VGA_WIDTH + (length (roll_line r) - 1) := blank_cell]\<rparr>"
      using 2 by (simp add: vga_place_def Let_def at blank_cell_def)
    then show ?thesis using 2 wfD back_shows [of r] at buf
      by (simp add: vga_putchar_def Let_def stay roll_put_def shows_roll_def roll_wf_def shown less_imp_diff_less)
  next
    case 3
    from put_over_edge [OF wf v 3(2,3)] 3(1) show ?thesis by simp
  next
    case 4
    then have n: "rows_shown r = 0" "roll_put c r = r" by (simp_all add: rows_shown_def roll_put_def)
    have "(roll_screen r)[0 := blank_cell] = roll_screen r"
      using 4 n by (simp add: roll_screen_def pad_row_Nil vga_consts list_update_same_conv nth_append)
    then have "vga_place c v = v" using 4 n(1) at buf by (simp add: vga_place_def blank_cell_def)
    then show ?thesis using wf v n wfD at by (simp add: vga_putchar_def Let_def stay)
  next
    case 5
    let ?r = "r\<lparr>roll_line := roll_line r @ [vga_cell c]\<rparr>"
    let ?v = "v\<lparr>vga_buffer := roll_screen ?r, cursor_col := length (roll_line r) + 1\<rparr>"
    have p: "vga_place c v = (if length (roll_line r) + 1 < VGA_WIDTH then ?v else ?v\<lparr>cursor_col := 0, cursor_row := rows_shown r + 1\<rparr>)"
      using 5 write_shows [OF wf] buf by (simp add: vga_place_def Let_def at)
    show ?thesis
    proof (cases "length (roll_line r) + 1 < VGA_WIDTH")
      case True
      then show ?thesis using 5 wfD at p
        by (simp add: vga_putchar_def Let_def stay roll_put_def shows_roll_def roll_wf_def shown)
    next
      case False
      then have "roll_put c r = roll_break ?r" using 5 wfD by (simp add: roll_put_def Let_def)
      with False break_shows [of ?r ?v] p wfD show ?thesis by (simp add: vga_putchar_def Let_def shown)
    qed
  qed
qed

section \<open>Everything printed\<close>

text \<open>A machine that follows a specification step by step follows it through a whole run.\<close>

interpretation paper: simulation "\<lambda>c v. fst (vga_putchar c v)" roll_put "\<lambda>v r. roll_wf r \<and> shows_roll v r"
  by unfold_locales (use put_shows in blast)

lemma kprint_fold: "fst (kprint s v) = fold (\<lambda>c v. fst (vga_putchar c v)) s v"
  by (induction s arbitrary: v) (simp_all add: case_prod_unfold Let_def)

lemma kprint_shows: "roll_wf r \<Longrightarrow> shows_roll v r \<Longrightarrow> roll_wf (roll_print s r) \<and> shows_roll (fst (kprint s v)) (roll_print s r)"
  unfolding kprint_fold roll_print_def by (rule paper.run_follows) blast

lemma blank_cells: "n \<le> length buf \<Longrightarrow> fold (\<lambda>i buf. buf[i := x]) [0..<n] buf = replicate n x @ drop n buf"
proof (induction n)
  case (Suc n)
  then have "drop n buf = buf ! n # drop (Suc n) buf" by (simp add: Cons_nth_drop_Suc)
  with Suc show ?case by (simp add: list_update_append replicate_append_same [symmetric])
qed simp

lemma clear_shows: "length (vga_buffer v) = VGA_WIDTH * VGA_HEIGHT \<Longrightarrow> roll_wf roll_empty \<and> shows_roll (vga_clear v) roll_empty"
  using blank_cells [of "VGA_WIDTH * VGA_HEIGHT" "vga_buffer v" blank_cell]
  by (simp add: shows_roll_def vga_clear_def roll_empty_def roll_screen_def rows_shown_def pad_row_Nil roll_wf_def vga_consts
      replicate_add [symmetric] blank_cell_def)

text \<open>The roll under a sequence of console operations; clearing the screen takes a new roll.\<close>

fun roll_console :: "console_op list \<Rightarrow> roll \<Rightarrow> roll" where
  "roll_console [] r = r"
| "roll_console (Print s # ops) r = roll_console ops (roll_print s r)"
| "roll_console (ClearScreen # ops) r = roll_console ops roll_empty"
| "roll_console (EnableCursor # ops) r = roll_console ops r"

lemma shows_length: "roll_wf r \<Longrightarrow> shows_roll v r \<Longrightarrow> length (vga_buffer v) = VGA_WIDTH * VGA_HEIGHT"
  by (simp add: shows_roll_def length_roll_screen)

lemma console_shows:
  "roll_wf r \<Longrightarrow> shows_roll v r \<Longrightarrow> roll_wf (roll_console ops r) \<and> shows_roll (fst (console ops v)) (roll_console ops r)"
proof (induction ops r arbitrary: v rule: roll_console.induct)
  case (2 s ops r)
  from 2(1) [of "fst (kprint s v)"] kprint_shows [OF 2(2,3)] show ?case by (simp add: case_prod_unfold)
next
  case (3 ops r)
  from 3(1) [of "vga_clear v"] clear_shows [OF shows_length [OF 3(2,3)]] show ?case by simp
qed (simp_all add: case_prod_unfold)

text \<open>C30. Whatever is printed after a cleared screen, the 2000 cells and the cursor are those of the roll: the
  complete rows that have not scrolled off, the row being written, blanks below, and the cursor after the last character.\<close>

theorem console_window:
  assumes "length (vga_buffer v) = VGA_WIDTH * VGA_HEIGHT"
  shows "let w = fst (console ops (vga_clear v)); r = roll_console ops roll_empty
    in vga_buffer w = concat (drop (roll_top r) (roll_rows r)) @ pad_row (roll_line r)
         @ replicate ((24 - (length (roll_rows r) - roll_top r)) * 80) blank_cell
     \<and> cursor_row w = length (roll_rows r) - roll_top r \<and> cursor_col w = length (roll_line r)"
proof -
  have "roll_wf roll_empty" "shows_roll (vga_clear v) roll_empty" using clear_shows [OF assms] by blast+
  from console_shows [OF this, of ops] show ?thesis
    by (simp add: shows_roll_def roll_screen_def rows_shown_def vga_consts Let_def)
qed

lemma console_window_witness:
  "vga_buffer (fst (console [Print ''ab'', Print [CHR 0x08]] (vga_clear \<lparr>vga_buffer = replicate 2000 7, cursor_row = 3, cursor_col = 9\<rparr>)))
    = vga_cell CHR ''a'' # replicate 1999 blank_cell"
proof -
  have "roll_console [Print ''ab'', Print [CHR 0x08]] roll_empty = \<lparr>roll_rows = [], roll_line = [vga_cell CHR ''a''], roll_top = 0\<rparr>"
    by (simp add: roll_print_def roll_put_def roll_empty_def Let_def vga_consts)
  moreover have "length (vga_buffer \<lparr>vga_buffer = replicate 2000 7, cursor_row = 3, cursor_col = 9\<rparr>) = VGA_WIDTH * VGA_HEIGHT"
    by (simp add: vga_consts)
  ultimately show ?thesis
    using console_window [of "\<lparr>vga_buffer = replicate 2000 7, cursor_row = 3, cursor_col = 9\<rparr>" "[Print ''ab'', Print [CHR 0x08]]"]
    by (simp add: pad_row_def vga_consts Let_def replicate_add [symmetric])
qed

section \<open>Lines\<close>

text \<open>A line of text that fits in a row with a cell to spare.\<close>

definition short_line :: "string \<Rightarrow> bool" where
  "short_line l \<longleftrightarrow> length l < VGA_WIDTH \<and> CHR 0x0A \<notin> set l \<and> CHR 0x08 \<notin> set l"

lemma roll_put_plain:
  "c \<noteq> CHR 0x0A \<Longrightarrow> c \<noteq> CHR 0x08 \<Longrightarrow> length (roll_line r) + 1 < VGA_WIDTH \<Longrightarrow>
   roll_put c r = r\<lparr>roll_line := roll_line r @ [vga_cell c]\<rparr>"
  by (simp add: roll_put_def Let_def)

lemma roll_print_text:
  "CHR 0x0A \<notin> set l \<Longrightarrow> CHR 0x08 \<notin> set l \<Longrightarrow> length (roll_line r) + length l < VGA_WIDTH \<Longrightarrow>
   roll_print l r = r\<lparr>roll_line := roll_line r @ map vga_cell l\<rparr>"
proof (induction l arbitrary: r)
  case (Cons c l)
  have "roll_put c r = r\<lparr>roll_line := roll_line r @ [vga_cell c]\<rparr>" by (rule roll_put_plain) (use Cons.prems in auto)
  with Cons show ?case by (simp add: roll_print_def)
qed (simp add: roll_print_def)

lemma roll_print_lines:
  "list_all short_line ls \<Longrightarrow> roll_line r = [] \<Longrightarrow> roll_print (concat (map (\<lambda>l. l @ NL) ls)) r =
     \<lparr>roll_rows = roll_rows r @ map (\<lambda>l. pad_row (map vga_cell l)) ls, roll_line = [],
      roll_top = (if ls = [] then roll_top r else max (roll_top r) (length (roll_rows r) + length ls - 24))\<rparr>"
proof (induction ls arbitrary: r)
  case (Cons l ls)
  have "roll_print (l @ NL) r = roll_break (r\<lparr>roll_line := map vga_cell l\<rparr>)"
    using Cons.prems roll_print_text [of l r] by (simp add: roll_print_def short_line_def NL_def roll_put_def)
  then have "roll_print (concat (map (\<lambda>l. l @ NL) (l # ls))) r = roll_print (concat (map (\<lambda>l. l @ NL) ls))
      (roll_break (r\<lparr>roll_line := map vga_cell l\<rparr>))" by (simp add: roll_print_def)
  with Cons show ?case by (auto simp: roll_break_def Let_def vga_consts)
qed (simp add: roll_print_def)

text \<open>After any number of lines have been printed on a cleared screen, it shows the last 24 of them, in order and
  from the top row down, every one in a row of its own, and the cursor is at the start of the row below.\<close>

theorem screen_shows_last_lines:
  assumes "length (vga_buffer v) = VGA_WIDTH * VGA_HEIGHT" "list_all short_line ls"
  shows "let w = fst (kprint (concat (map (\<lambda>l. l @ NL) ls)) (vga_clear v)); n = min 24 (length ls)
    in vga_buffer w = concat (map (\<lambda>l. map vga_cell l @ replicate (80 - length l) blank_cell) (drop (length ls - 24) ls))
         @ replicate ((25 - n) * 80) blank_cell
     \<and> cursor_row w = n \<and> cursor_col w = 0"
proof -
  let ?r = "roll_print (concat (map (\<lambda>l. l @ NL) ls)) roll_empty" and ?n = "min 24 (length ls)"
  have "roll_line roll_empty = []" by (simp add: roll_empty_def)
  from roll_print_lines [OF assms(2) this]
  have r: "roll_rows ?r = map (\<lambda>l. pad_row (map vga_cell l)) ls" "roll_line ?r = []" "roll_top ?r = length ls - 24"
    by (simp_all add: roll_empty_def)
  have "roll_wf roll_empty" "shows_roll (vga_clear v) roll_empty" using clear_shows [OF assms(1)] by blast+
  from kprint_shows [OF this, of "concat (map (\<lambda>l. l @ NL) ls)"]
  have s: "shows_roll (fst (kprint (concat (map (\<lambda>l. l @ NL) ls)) (vga_clear v))) ?r" by blast
  have n: "length ls - (length ls - 24) = ?n" "25 - ?n = Suc (24 - ?n)" by simp_all
  from s show ?thesis
    unfolding shows_roll_def roll_screen_def rows_shown_def r Let_def length_map n
    by (simp add: drop_map pad_row_def vga_consts comp_def replicate_add)
qed

lemma screen_shows_last_lines_witness:
  "cursor_row (fst (kprint (concat (map (\<lambda>l. l @ NL) (replicate 30 ''x''))) (vga_clear \<lparr>vga_buffer = replicate 2000 7, cursor_row = 3, cursor_col = 9\<rparr>))) = 24"
proof -
  let ?v = "\<lparr>vga_buffer = replicate 2000 7, cursor_row = 3, cursor_col = 9\<rparr>"
  have "length (vga_buffer ?v) = VGA_WIDTH * VGA_HEIGHT" "list_all short_line (replicate 30 ''x'')"
    by (simp_all add: vga_consts short_line_def list_all_iff)
  from screen_shows_last_lines [OF this] show ?thesis by (simp add: Let_def)
qed

section \<open>The cursor\<close>

lemma kprint_Cons:
  "kprint (c # s) v = (let w = fst (vga_putchar c v) in (fst (kprint s w), vga_update_cursor w @ snd (kprint s w)))"
  by (simp add: vga_putchar_def case_prod_unfold Let_def)

lemma kprint_ports: "s \<noteq> [] \<Longrightarrow> \<exists>out. snd (kprint s v) = out @ vga_update_cursor (fst (kprint s v))"
proof (induction s arbitrary: v)
  case (Cons c s)
  let ?w = "fst (vga_putchar c v)"
  show ?case
  proof (cases "s = []")
    case True
    then show ?thesis by (simp only: kprint_Cons Let_def fst_conv snd_conv) simp
  next
    case False
    from Cons.IH [OF this, of ?w] obtain out where "snd (kprint s ?w) = out @ vga_update_cursor (fst (kprint s ?w))" ..
    then show ?thesis by (intro exI [of _ "vga_update_cursor ?w @ out"]) (simp only: kprint_Cons Let_def fst_conv snd_conv append_assoc)
  qed
qed simp

lemma console_wf: "vga_wf v \<Longrightarrow> vga_wf (fst (console ops v))"
proof (induction ops v rule: console.induct)
  case (2 s ops v)
  then show ?case using kprint_wf [of v s] by (cases "kprint s v") (simp add: case_prod_unfold)
next
  case (3 ops v)
  have "vga_wf (vga_clear v)" using 3(2) by (simp add: vga_wf_def vga_clear_def fold_update_length vga_consts)
  with 3 show ?case by simp
qed (simp_all add: case_prod_unfold)

lemma console_append:
  "console (ops @ ops') v =
    (fst (console ops' (fst (console ops v))), snd (console ops v) @ snd (console ops' (fst (console ops v))))"
proof (induction ops v rule: console.induct)
  case (2 s ops v)
  then show ?case by (cases "kprint s v") (simp add: case_prod_unfold)
qed (simp_all add: case_prod_unfold)

text \<open>Operations that print nothing: they move the cursor of the screen only by clearing it, and never program the cursor
  address.\<close>

lemma console_quiet:
  "\<forall>s. Print s \<in> set ops \<longrightarrow> s = [] \<Longrightarrow>
   (\<exists>k. snd (console ops v) = concat (replicate k vga_enable_cursor)) \<and>
   (if ClearScreen \<in> set ops then cursor_row (fst (console ops v)) = 0 \<and> cursor_col (fst (console ops v)) = 0
    else fst (console ops v) = v)"
proof (induction ops v rule: console.induct)
  case (1 v)
  show ?case by (auto intro: exI [of _ 0])
next
  case (2 s ops v)
  then have "s = []" by simp
  then have "kprint s v = (v, [])" by simp
  with 2(1) [of v "[]"] 2(2) show ?case by (simp add: case_prod_unfold)
next
  case (3 ops v)
  have "cursor_row (vga_clear v) = 0" "cursor_col (vga_clear v) = 0" by (simp_all add: vga_clear_def)
  with 3 show ?case by (cases "ClearScreen \<in> set ops") auto
next
  case (4 ops v)
  then obtain k where "snd (console ops v) = concat (replicate k vga_enable_cursor)" by auto
  then have "snd (console (EnableCursor # ops) v) = concat (replicate (Suc k) vga_enable_cursor)" by (simp add: case_prod_unfold)
  moreover have "fst (console (EnableCursor # ops) v) = fst (console ops v)" by (simp add: case_prod_unfold)
  ultimately show ?case using 4 by (simp only: set_simps insert_iff console_op.distinct simp_thms) blast
qed

lemma cursor_ports:
  "vga_update_cursor w = (let pos = of_nat (cursor_row w * 80 + cursor_col w) :: u16
     in [(0x3D4, 0x0F), (0x3D5, lo8 pos), (0x3D4, 0x0E), (0x3D5, hi8 pos)])"
  by (simp add: vga_update_cursor_def vga_consts Let_def lo8_def hi8_def)

text \<open>C36. The console's state stays what it should be under every sequence of operations: 2000 cells, and a cursor on
  one of them, so that the index of the next character lies in the buffer. The cursor address that was programmed last
  into the display controller is that of the cell where the cursor was after the last text printed; when the screen
  has not been cleared since, that is where it is now. Clearing moves the cursor to the top left cell without
  programming the controller, which follows with the next text.\<close>

theorem console_keeps_screen:
  assumes "vga_wf v"
  shows "let w = fst (console ops v)
    in length (vga_buffer w) = 2000 \<and> cursor_row w < 25 \<and> cursor_col w < 80 \<and>
       cursor_row w * 80 + cursor_col w < length (vga_buffer w) \<and>
       (\<forall>before s after. ops = before @ Print s # after \<longrightarrow> s \<noteq> [] \<longrightarrow> (\<forall>t. Print t \<in> set after \<longrightarrow> t = []) \<longrightarrow>
          (let u = fst (console (before @ [Print s]) v); pos = of_nat (cursor_row u * 80 + cursor_col u) :: u16
           in unat pos = cursor_row u * 80 + cursor_col u \<and>
             (\<exists>prev k. snd (console ops v) = prev @ [(0x3D4, 0x0F), (0x3D5, lo8 pos), (0x3D4, 0x0E), (0x3D5, hi8 pos)]
               @ concat (replicate k vga_enable_cursor)) \<and>
             (if ClearScreen \<in> set after then cursor_row w = 0 \<and> cursor_col w = 0
              else cursor_row w = cursor_row u \<and> cursor_col w = cursor_col u)))"
proof -
  have wf: "length (vga_buffer (fst (console xs v))) = 2000" "cursor_row (fst (console xs v)) < 25" "cursor_col (fst (console xs v)) < 80" for xs
    using console_wf [OF assms, of xs] by (simp_all add: vga_wf_def vga_consts)
  have pos: "cursor_row (fst (console xs v)) * 80 + cursor_col (fst (console xs v)) < 2000" for xs using wf(2,3) [of xs] by simp
  have last: "let u = fst (console (before @ [Print s]) v); pos = of_nat (cursor_row u * 80 + cursor_col u) :: u16
      in unat pos = cursor_row u * 80 + cursor_col u \<and>
         (\<exists>prev k. snd (console ops v) = prev @ [(0x3D4, 0x0F), (0x3D5, lo8 pos), (0x3D4, 0x0E), (0x3D5, hi8 pos)]
            @ concat (replicate k vga_enable_cursor)) \<and>
         (if ClearScreen \<in> set after then cursor_row (fst (console ops v)) = 0 \<and> cursor_col (fst (console ops v)) = 0
          else cursor_row (fst (console ops v)) = cursor_row u \<and> cursor_col (fst (console ops v)) = cursor_col u)"
    if ops: "ops = before @ Print s # after" and s: "s \<noteq> []" and quiet: "\<forall>t. Print t \<in> set after \<longrightarrow> t = []" for before s after
  proof -
    let ?v = "fst (console before v)" and ?u = "fst (console (before @ [Print s]) v)"
    obtain out where out: "snd (kprint s ?v) = out @ vga_update_cursor (fst (kprint s ?v))" using kprint_ports [OF s] by blast
    have u: "?u = fst (kprint s ?v)" "snd (console (before @ [Print s]) v) = snd (console before v) @ snd (kprint s ?v)"
      using console_append [of before "[Print s]" v] by (simp_all add: case_prod_unfold)
    have c: "console ops v = (fst (console after ?u), snd (console (before @ [Print s]) v) @ snd (console after ?u))"
      using console_append [of "before @ [Print s]" after v] ops by simp
    from console_quiet [OF quiet, of ?u] obtain k where k: "snd (console after ?u) = concat (replicate k vga_enable_cursor)"
      "if ClearScreen \<in> set after then cursor_row (fst (console after ?u)) = 0 \<and> cursor_col (fst (console after ?u)) = 0
       else fst (console after ?u) = ?u" by blast
    have "snd (console ops v) = (snd (console before v) @ out) @ vga_update_cursor ?u @ concat (replicate k vga_enable_cursor)"
      unfolding c snd_conv k(1) unfolding u out append_assoc by (rule refl)
    then have "\<exists>prev k. snd (console ops v) = prev @ vga_update_cursor ?u @ concat (replicate k vga_enable_cursor)" by blast
    moreover have "unat (of_nat (cursor_row ?u * 80 + cursor_col ?u) :: u16) = cursor_row ?u * 80 + cursor_col ?u"
      using pos [of "before @ [Print s]"] by (simp add: unat_of_nat del: of_nat_add of_nat_mult)
    ultimately show ?thesis using k(2) unfolding cursor_ports c fst_conv Let_def by (simp split: if_splits)
  qed
  show ?thesis unfolding Let_def using wf [of ops] pos [of ops] last [unfolded Let_def] by (simp only: simp_thms) blast
qed

lemma console_keeps_screen_witness:
  "\<exists>prev k. snd (console [ClearScreen, Print ''hi'', EnableCursor] \<lparr>vga_buffer = replicate 2000 7, cursor_row = 3, cursor_col = 9\<rparr>)
     = prev @ [(0x3D4, 0x0F), (0x3D5, 2), (0x3D4, 0x0E), (0x3D5, 0)] @ concat (replicate k vga_enable_cursor)"
proof -
  let ?v = "\<lparr>vga_buffer = replicate 2000 7, cursor_row = 3, cursor_col = 9\<rparr>"
  let ?ops = "[ClearScreen, Print ''hi'', EnableCursor]"
  have v: "vga_wf ?v" by (simp add: vga_wf_def vga_consts)
  have at: "cursor_row (fst (console ([ClearScreen] @ [Print ''hi'']) ?v)) = 0" "cursor_col (fst (console ([ClearScreen] @ [Print ''hi'']) ?v)) = 2"
    by (simp_all add: vga_putchar_def vga_place_def vga_scroll_if_needed_def vga_clear_def vga_consts Let_def)
  have ops: "?ops = [ClearScreen] @ Print ''hi'' # [EnableCursor]" "''hi'' \<noteq> []" "\<forall>t. Print t \<in> set [EnableCursor] \<longrightarrow> t = []" by simp_all
  from console_keeps_screen [OF v, of ?ops, unfolded Let_def, THEN conjunct2, THEN conjunct2, THEN conjunct2, THEN conjunct2,
      rule_format, OF ops(1,2)] ops(3) have
    "\<exists>prev k. snd (console ?ops ?v) = prev @ [(0x3D4, 0x0F), (0x3D5, lo8 (of_nat (0 * 80 + 2) :: u16)), (0x3D4, 0x0E),
       (0x3D5, hi8 (of_nat (0 * 80 + 2) :: u16))] @ concat (replicate k vga_enable_cursor)"
    unfolding at by blast
  then show ?thesis by (simp add: lo8_def hi8_def)
qed

end
