(* ===== verification/Spec2Isabelle.thy ===== *)
theory Spec2Isabelle
  imports Preempt PreemptTask Terminal
begin

text \<open>
  RinkOS is a small operating system for 32-bit x86: a boot loader reads the kernel and the BIOS memory
  map, enters protected mode and calls \<open>kernel_main\<close>. The kernel (\<open>src/kernel\<close>) is C without a library. It
  has a text console, a keyboard and a timer interrupt, a heap, eight tasks that the timer switches round
  robin, a programmed-I/O disk driver, a file system of the FAT kind on the last part of the disk, and a
  shell that runs as one of the tasks. This library models the C code of the kernel and proves what its
  parts promise to each other and to the user. A loop of the source that may run for ever is a
  \<open>partial_function (option)\<close>: \<open>None\<close> is a call that never returns, and that a call returns is always a
  theorem of its own. No definition has fuel.

  \<^bold>\<open>Theories, in the order of the imports, and what they model.\<close>

  Foundations. \<open>Prelude\<close>: the C integer types as words, C strings, little-endian bytes, port writes,
  the interfaces of a bounded queue (\<open>bounded_fifo\<close>), of a component that reacts to events (\<open>reactive\<close>) and of
  one that follows a specification step by step (\<open>simulation\<close>).

  Devices. \<open>Console\<close>: the VGA text screen of \<open>kernel.c\<close> (\<open>vga_putchar\<close>, \<open>vga_scroll_if_needed\<close>, \<open>kprint\<close>) and the
  number printers. \<open>Keyboard\<close>: \<open>keyboard.c\<close>, scan codes to characters and the ring buffer between the
  interrupt handler and the reader, shown to be a bounded queue. \<open>Ata\<close>: \<open>disk.c\<close>; the drive is a parameter
  whose protocol \<open>ata_contract\<close> states, and the two routines are shown to implement the sector store of
  \<open>Disk\<close>, which everything above works on. \<open>Machine\<close>: \<open>timer.c\<close>, \<open>idt.c\<close>, \<open>pic.c\<close>.

  Memory and tasks. \<open>Heap\<close>: \<open>mm.c\<close>, headers in a store of addresses; \<open>kmalloc\<close> and \<open>kfree\<close> refine first fit
  with splitting and merging on the list of blocks. \<open>HeapSafe\<close>: the same as an interface for clients
  (locale \<open>allocator\<close>), interpreted on \<open>kmalloc\<close> and \<open>kfree\<close>. \<open>Task\<close>: \<open>task.c\<close>, a client of that interface;
  well-formed task tables, fairness, and stacks that never overlap. A creation that finds the heap exhausted makes a
  task without a stack (\<open>task_create_null_stack\<close>); the theorems on stacks say where this case is left out.

  File system, the model. \<open>Disk\<close>: sectors and the layout constants of \<open>fs.h\<close>. \<open>Fat\<close>, \<open>FatOps\<close>: the allocation
  table (locale \<open>link_table\<close>), allocation, release and following of cluster chains. \<open>Dirent\<close>: 32-byte entries and
  8.3 names. \<open>Dir\<close>: the cached root directory, directories as cluster chains, the iterator, lookup. \<open>Path\<close>: path
  walking. \<open>Fs\<close>: the public operations \<open>fs_init\<close> to \<open>fs_debug_stats\<close>, one definition per function of \<open>fs.c\<close>.

  File system, the proofs. The abstract specification is a tree: \<open>tree\<close> (in \<open>Volume\<close>) maps a directory and a
  name to the bytes of a file or to a directory. \<open>represents s T\<close> says that the state \<open>s\<close> is a consistent volume
  that shows the tree \<open>T\<close>; it hides the cluster chains (\<open>store\<close> in \<open>Store\<close>: disjoint chains in the data area,
  every other cluster free, both FAT copies equal), the slots (\<open>Slots\<close>, \<open>Lookup\<close>), the cached root directory
  equal to the one on disk, and the shape of the directory tree (\<open>tree_ok\<close> in \<open>DirTree\<close>: one owner per chain, no
  chain without one, sizes that fit the chains, unique names, correct dot entries). \<open>Content\<close> has the data loops,
  \<open>Entries\<close> the step in which every operation ends (one entry rewritten after its chain has changed),
  \<open>FileOps\<close>, \<open>WriteOps\<close>, \<open>AppendOps\<close>, \<open>DirOps\<close>, \<open>MkDir\<close>, \<open>Mount\<close> the operations one by one, \<open>Space\<close> which of them
  succeed given the counts of \<open>fs_debug_stats\<close>, \<open>Listing\<close> the output of \<open>fs_list\<close>. \<open>FsSpec\<close> restates all this over
  trees only, \<open>FsRuns\<close> shows that every operation returns and keeps the volume consistent on every path and for
  every amount of free space, and \<open>FsProps\<close> has the properties, with concrete volumes to which they apply.

  Programs. \<open>Shell\<close>, \<open>ShellProps\<close>, \<open>ShellFs\<close>: \<open>shell.c\<close>, one definition per command, the dispatch, the history and the
  line editor; a command gives its output and the new state, or the reason why it never comes back (\<open>stop\<close>: a
  loop that does not end, \<open>reboot\<close>, the overrun of the array in \<open>cmd_spawn\<close>). \<open>Kernel\<close>: the boot sequence of \<open>kernel.c\<close>, with
  the keyboard controller as a parameter (\<open>controller_law\<close>), and \<open>reboot\<close>, which pulses the reset line when the controller
  becomes ready (\<open>reboot_pulses\<close>) and else polls for ever (\<open>reboot_polls_forever\<close>). \<open>System\<close>: keyboard interrupt, timer
  interrupt and the shell's loop as events on one state; after boot, every sequence of events is handled and keeps the
  invariants of all parts, up to the command \<open>reboot\<close> or the hundred millionth \<open>spawn\<close>. \<open>Session\<close>: what a
  sequence of key presses types, and that the shell gets exactly that, whenever the interrupts come. \<open>Preempt\<close> and
  \<open>PreemptTask\<close>: interrupts between the statements of \<open>keyboard_getchar\<close>, \<open>task_create_named\<close> and \<open>task_kill\<close>, as
  inductive step relations; the atomic functions of \<open>Keyboard\<close> and \<open>Task\<close> are their runs without interrupts. A ghost table of
  suspended tasks says which stack pointers the scheduler may load; between \<open>kfree\<close> and \<open>used = 0\<close> in \<open>task_kill\<close> it can
  load one that it should not (\<open>killed_task_resumed\<close>). \<open>Terminal\<close>: the
  specification of the console, a window of 25 rows on an endless roll, which the screen follows under everything
  that the shell prints.

  \<^bold>\<open>Interfaces.\<close> \<open>bounded_fifo\<close> (keyboard), \<open>block_store\<close> (sectors), \<open>link_table\<close> (FAT), \<open>allocator\<close> (heap, used by the
  tasks and the shell), \<open>reactive\<close> (interpreted on the task events, the file operations and sessions between
  restarts), \<open>simulation\<close> (the screen and the roll).

  \<^bold>\<open>Bounds.\<close> Machine integers are words of their C width. The theorems on the heap assume that the kernel image ends
  by \<open>0x80000\<close>, as the linker script and the memory layout of the boot loader intend; then the heap lies below
  \<open>0x90000\<close>. A write is of at most \<open>0xFFFFFE00\<close> bytes, beyond which the number of clusters wraps to 0; the shell's lines
  have at most 257. The \<open>int\<close>s of \<open>cmd_spawn\<close> and \<open>cmd_kill\<close> are 32-bit words read as signed numbers. Names whose first byte is 0 or \<open>0xE5\<close> mark an entry as unused and are excluded where an
  operation creates one; no key produces them.

  \<^bold>\<open>Not modelled.\<close> The boot loader \<open>boot.asm\<close>, \<open>kernel_entry.asm\<close> and \<open>linker.ld\<close>: the addresses and the memory map that
  they leave are parameters. \<open>interrupts.asm\<close>: the stubs save registers and call the C handlers; \<open>task_switch\<close>
  appears as what it does to the two stack pointers and by what it pops. \<open>io.c\<close>: four single
  instructions, which are the fields of the record \<open>ports\<close>. Interrupts in the middle of other C functions than
  those of \<open>Preempt\<close> and \<open>PreemptTask\<close>: the events of \<open>System\<close> are handled one after the other, and \<open>kmalloc\<close>, \<open>kfree\<close> and
  \<open>name_copy\<close> are single steps of \<open>PreemptTask\<close>. The source takes no
  locks, so two tasks that enter the file system or the heap at the same time are outside of the model; after
  boot only the shell does. Compiler reordering of the stores to variables that handlers share is not
  modelled; the source is built without optimisation. What a command that never comes back has printed before is not
  recorded. \<open>cli\<close>, \<open>sti\<close>, \<open>hlt\<close> and \<open>lidt\<close> change nothing that the model has.
\<close>

end
